(* ===== verification/Prelude.thy ===== *)
theory Prelude
  imports Main "HOL-Library.Word"
begin

text \<open>
  Shared vocabulary of the development: the C integer types of \<^verbatim>\<open>types.h\<close>, arrays and
  little-endian accessors, flag words, and the kernel-program type (a state transformer that returns,
  panics or goes to sleep) with its total-correctness calculus \<open>wp\<close>.

  An array of bytes is a function from its index; a \<^verbatim>\<open>memmove\<close> that covers a whole array is an
  assignment of the function. Reads outside an array are excluded by the bounds the components prove.
\<close>

unbundle bit_operations_syntax

named_theorems wp_rules \<open>weakest preconditions of the kernel-program combinators and operations\<close>
named_theorems flag_simps \<open>tests and updates of flag words, as statements about single bits\<close>

section \<open>C integer types (types.h)\<close>

type_synonym uchar = "8 word"
type_synonym ushort = "16 word"
type_synonym uint = "32 word"
type_synonym bytes = "nat \<Rightarrow> uchar"

section \<open>Little-endian access to byte arrays\<close>

text \<open>
  How the x86 stores a \<^verbatim>\<open>short\<close> and an \<^verbatim>\<open>int\<close>: least significant byte first. The kernel overlays
  C structs on \<^verbatim>\<open>char\<close> arrays (\<^verbatim>\<open>(struct dinode*)bp->data\<close>, \<^verbatim>\<open>(uint*)bp->data\<close>); these
  accessors are those overlays.
\<close>

definition get16 :: "bytes \<Rightarrow> nat \<Rightarrow> ushort" where
  "get16 d i = ucast (d i) OR push_bit 8 (ucast (d (i + 1)))"

definition get32 :: "bytes \<Rightarrow> nat \<Rightarrow> uint" where
  "get32 d i = ucast (d i) OR push_bit 8 (ucast (d (i + 1)))
     OR push_bit 16 (ucast (d (i + 2))) OR push_bit 24 (ucast (d (i + 3)))"

definition put16 :: "bytes \<Rightarrow> nat \<Rightarrow> ushort \<Rightarrow> bytes" where
  "put16 d i v = d(i := ucast v, i + 1 := ucast (drop_bit 8 v))"

definition put32 :: "bytes \<Rightarrow> nat \<Rightarrow> uint \<Rightarrow> bytes" where
  "put32 d i v = d(i := ucast v, i + 1 := ucast (drop_bit 8 v),
     i + 2 := ucast (drop_bit 16 v), i + 3 := ucast (drop_bit 24 v))"

lemma split16: "(ucast (ucast v :: uchar) :: ushort) OR push_bit 8 (ucast (ucast (drop_bit 8 v) :: uchar)) = v"
  by (rule bit_word_eqI) (auto simp: bit_simps)

lemma split32:
  "(ucast (ucast v :: uchar) :: uint) OR push_bit 8 (ucast (ucast (drop_bit 8 v) :: uchar))
     OR push_bit 16 (ucast (ucast (drop_bit 16 v) :: uchar))
     OR push_bit 24 (ucast (ucast (drop_bit 24 v) :: uchar)) = v"
proof (rule bit_word_eqI)
  fix n assume "n < LENGTH(32)"
  then consider "n < 8" | "8 \<le> n" "n < 16" | "16 \<le> n" "n < 24" | "24 \<le> n" "n < 32" by force
  then show "bit ((ucast (ucast v :: uchar) :: uint) OR push_bit 8 (ucast (ucast (drop_bit 8 v) :: uchar))
     OR push_bit 16 (ucast (ucast (drop_bit 16 v) :: uchar))
     OR push_bit 24 (ucast (ucast (drop_bit 24 v) :: uchar))) n = bit v n"
    by cases (auto simp: bit_simps)
qed

lemma get16_put16 [simp]: "get16 (put16 d i v) i = v"
  by (simp add: get16_def put16_def split16)

lemma get32_put32 [simp]: "get32 (put32 d i v) i = v"
  by (simp add: get32_def put32_def split32)

lemma get16_cong: "(\<And>k. i \<le> k \<Longrightarrow> k < i + 2 \<Longrightarrow> d k = e k) \<Longrightarrow> get16 d i = get16 e i"
  by (simp add: get16_def)

lemma get32_cong: "(\<And>k. i \<le> k \<Longrightarrow> k < i + 4 \<Longrightarrow> d k = e k) \<Longrightarrow> get32 d i = get32 e i"
  by (simp add: get32_def)

lemma put16_apply: "put16 d i v k = (if k = i then ucast v else if k = i + 1 then ucast (drop_bit 8 v) else d k)"
  by (simp add: put16_def)

lemma put32_outside: "k < i \<or> i + 4 \<le> k \<Longrightarrow> put32 d i v k = d k"
  by (auto simp: put32_def)

lemma put16_outside: "k < i \<or> i + 2 \<le> k \<Longrightarrow> put16 d i v k = d k"
  by (auto simp: put16_def)

lemma get32_put32_other [simp]: "j + 4 \<le> i \<or> i + 4 \<le> j \<Longrightarrow> get32 (put32 d i v) j = get32 d j"
  by (rule get32_cong) (auto intro: put32_outside)

lemma get32_put16_other [simp]: "j + 4 \<le> i \<or> i + 2 \<le> j \<Longrightarrow> get32 (put16 d i v) j = get32 d j"
  by (rule get32_cong) (auto intro: put16_outside)

lemma get16_put32_other [simp]: "j + 2 \<le> i \<or> i + 4 \<le> j \<Longrightarrow> get16 (put32 d i v) j = get16 d j"
  by (rule get16_cong) (auto intro: put32_outside)

lemma get16_put16_other [simp]: "j + 2 \<le> i \<or> i + 2 \<le> j \<Longrightarrow> get16 (put16 d i v) j = get16 d j"
  by (rule get16_cong) (auto intro: put16_outside)

section \<open>Flag words\<close>

text \<open>
  A flag is a word with one bit set. Testing, setting and clearing a flag are statements about that
  bit; each component instantiates these rules for its own flag constants.
\<close>

lemma flag_test: "m = 2 ^ k \<Longrightarrow> (f :: uint) AND m = 0 \<longleftrightarrow> \<not> bit f k"
  by (simp add: and_exp_eq_0_iff_not_bit)

lemma flag_set: "m = 2 ^ k \<Longrightarrow> k < 32 \<Longrightarrow> bit ((f :: uint) OR m) n \<longleftrightarrow> bit f n \<or> n = k"
  by (auto simp: bit_or_iff bit_exp_iff)

lemma flag_clear: "m = 2 ^ k \<Longrightarrow> bit ((f :: uint) AND NOT m) n \<longleftrightarrow> bit f n \<and> n \<noteq> k"
  by (auto simp: bit_and_iff bit_not_iff bit_exp_iff dest: bit_imp_le_length)

lemma flag_only: "m = 2 ^ k \<Longrightarrow> k < 32 \<Longrightarrow> bit (m :: uint) n \<longleftrightarrow> n = k"
  by (auto simp: bit_exp_iff)

section \<open>Kernel programs\<close>

text \<open>
  Sleep channels: in C the address of the object waited for. The constructors name those objects
  (\<^verbatim>\<open>&log\<close>, a \<^verbatim>\<open>struct buf*\<close>, a \<^verbatim>\<open>struct inode*\<close>, \<^verbatim>\<open>&p->nread\<close>, \<^verbatim>\<open>&p->nwrite\<close>, a \<^verbatim>\<open>struct proc*\<close>,
  \<^verbatim>\<open>&ticks\<close>, \<^verbatim>\<open>&input.r\<close>). The last two are no channels: they mark the switches made by \<^verbatim>\<open>exit\<close> and \<^verbatim>\<open>yield\<close>.
\<close>

datatype chan = ChanLog | ChanBuf nat | ChanInode nat | ChanPipeRead uint | ChanPipeWrite uint
  | ChanProc nat | ChanTicks | ChanInput | SwitchExit | SwitchYield

text \<open>
  A kernel routine either returns, calls \<^verbatim>\<open>panic\<close>, or reaches \<^verbatim>\<open>sched()\<close> through \<^verbatim>\<open>sleep(chan, lk)\<close>, \<^verbatim>\<open>exit\<close> or \<^verbatim>\<open>yield\<close>: then the
  state is the one in which the process gives up the processor.
\<close>

datatype ('s, 'a) outcome = Ok 'a 's | Panic string | Sleeps chan 's

type_synonym ('s, 'a) kprog = "'s \<Rightarrow> ('s, 'a) outcome"

definition kret :: "'a \<Rightarrow> ('s, 'a) kprog" where
  "kret x s = Ok x s"

definition kbind :: "('s, 'a) kprog \<Rightarrow> ('a \<Rightarrow> ('s, 'b) kprog) \<Rightarrow> ('s, 'b) kprog" where
  "kbind m f s = (case m s of Ok x t \<Rightarrow> f x t | Panic e \<Rightarrow> Panic e | Sleeps c t \<Rightarrow> Sleeps c t)"

definition kpanic :: "string \<Rightarrow> ('s, 'a) kprog" where
  "kpanic e s = Panic e"

definition kget :: "('s \<Rightarrow> 'a) \<Rightarrow> ('s, 'a) kprog" where
  "kget f s = Ok (f s) s"

definition kmod :: "('s \<Rightarrow> 's) \<Rightarrow> ('s, unit) kprog" where
  "kmod f s = Ok () (f s)"

definition kseq :: "('s, unit) kprog \<Rightarrow> ('s, 'b) kprog \<Rightarrow> ('s, 'b) kprog" where
  "kseq m k = kbind m (\<lambda>_. k)"

text \<open>\<open>wp m Q s\<close>: from \<open>s\<close> the routine returns, and its result and final state satisfy \<open>Q\<close>.\<close>

definition wp :: "('s, 'a) kprog \<Rightarrow> ('a \<Rightarrow> 's \<Rightarrow> bool) \<Rightarrow> 's \<Rightarrow> bool" where
  "wp m Q s = (case m s of Ok x t \<Rightarrow> Q x t | Panic e \<Rightarrow> False | Sleeps c t \<Rightarrow> False)"

lemma wp_kret [wp_rules]: "wp (kret x) Q = Q x"
  by (simp add: wp_def kret_def fun_eq_iff)

lemma wp_kbind [wp_rules]: "wp (kbind m f) Q = wp m (\<lambda>x. wp (f x) Q)"
  by (simp add: wp_def kbind_def fun_eq_iff split: outcome.split)

lemma wp_kseq [wp_rules]: "wp (kseq m k) Q = wp m (\<lambda>_. wp k Q)"
  by (simp add: kseq_def wp_kbind)

lemma wp_kpanic [wp_rules]: "\<not> wp (kpanic e) Q s"
  by (simp add: wp_def kpanic_def)

lemma wp_kget [wp_rules]: "wp (kget f) Q = (\<lambda>s. Q (f s) s)"
  by (simp add: wp_def kget_def fun_eq_iff)

lemma wp_kmod [wp_rules]: "wp (kmod f) Q = (\<lambda>s. Q () (f s))"
  by (simp add: wp_def kmod_def fun_eq_iff)

lemma wp_if [wp_rules]: "wp (if c then m else k) Q = (if c then wp m Q else wp k Q)"
  by simp

lemma wp_mono: "wp m P s \<Longrightarrow> (\<And>x t. P x t \<Longrightarrow> Q x t) \<Longrightarrow> wp m Q s"
  by (auto simp: wp_def split: outcome.splits)

lemma wp_conj: "wp m (\<lambda>x t. P x t \<and> Q x t) s \<longleftrightarrow> wp m P s \<and> wp m Q s"
  by (auto simp: wp_def split: outcome.splits)

lemma wp_Ok: "wp m Q s \<longleftrightarrow> (\<exists>x t. m s = Ok x t \<and> Q x t)"
  by (auto simp: wp_def split: outcome.splits)

lemma wpI: "m s = Ok x t \<Longrightarrow> Q x t \<Longrightarrow> wp m Q s"
  by (simp add: wp_def)

lemma wpE: "wp m Q s \<Longrightarrow> (\<And>x t. m s = Ok x t \<Longrightarrow> Q x t \<Longrightarrow> R) \<Longrightarrow> R"
  by (auto simp: wp_Ok)

text \<open>A routine that returns runs to one final state, in which every postcondition is evaluated.\<close>

lemma wp_step: "m s = Ok x t \<Longrightarrow> wp m Q s = Q x t"
  by (simp add: wp_def)

lemma wp_resE:
  assumes "wp m P s"
  obtains x t where "\<And>Q. wp m Q s = Q x t" "P x t"
  using assms wp_step [of m s] by (auto simp: wp_Ok)

lemma wp_unitE:
  assumes "wp (m :: ('s, unit) kprog) (\<lambda>_. P) s"
  obtains t where "\<And>Q. wp m Q s = Q () t" "P t"
  using assms wp_step [of m s "()"] by (auto simp: wp_Ok)

lemma kbind_Ok [simp]: "m s = Ok x t \<Longrightarrow> kbind m f s = f x t"
  by (simp add: kbind_def)

lemma kbind_eq_Ok:
  "kbind m f s = Ok y u \<longleftrightarrow> (\<exists>x t. m s = Ok x t \<and> f x t = Ok y u)"
  by (auto simp: kbind_def split: outcome.splits)

lemma kseq_eq_Ok:
  "kseq m k s = Ok y u \<longleftrightarrow> (\<exists>t. m s = Ok () t \<and> k t = Ok y u)"
  by (auto simp: kseq_def kbind_eq_Ok)

end
