(* ===== verification/CString.thy ===== *)
theory CString
  imports Prelude
begin

text \<open>
  The C string and memory routines: \<^verbatim>\<open>string.c\<close> (kernel) and \<^verbatim>\<open>ulib.c\<close> (user library).
  Memory is a function from 32-bit addresses to bytes; \<open>memset\<close> and \<open>memmove\<close> work on it, with
  pointer arithmetic that wraps, so that overlap is part of the model. Routines that only read
  through a pointer take what can be read from it, a function from the index; \<open>inc\<close> is \<^verbatim>\<open>p++\<close>.
\<close>

type_synonym memory = "uint \<Rightarrow> uchar"

section \<open>Kernel routines (string.c)\<close>

definition inc :: "bytes \<Rightarrow> bytes" where
  "inc p = (\<lambda>i. p (Suc i))"

definition ptr_view :: "memory \<Rightarrow> uint \<Rightarrow> bytes" where
  "ptr_view m p = (\<lambda>i. m (p + of_nat i))"

fun stosb :: "uint \<Rightarrow> uchar \<Rightarrow> nat \<Rightarrow> memory \<Rightarrow> memory" where
  "stosb p c 0 m = m"
| "stosb p c (Suc n) m = stosb (p + 1) c n (m(p := c))"

definition store32 :: "memory \<Rightarrow> uint \<Rightarrow> uint \<Rightarrow> memory" where
  "store32 m p v = m(p := ucast v, p + 1 := ucast (drop_bit 8 v),
     p + 2 := ucast (drop_bit 16 v), p + 3 := ucast (drop_bit 24 v))"

definition load32 :: "memory \<Rightarrow> uint \<Rightarrow> uint" where
  "load32 m p = ucast (m p) OR push_bit 8 (ucast (m (p + 1)))
     OR push_bit 16 (ucast (m (p + 2))) OR push_bit 24 (ucast (m (p + 3)))"

fun stosl :: "uint \<Rightarrow> uint \<Rightarrow> nat \<Rightarrow> memory \<Rightarrow> memory" where
  "stosl p v 0 m = m"
| "stosl p v (Suc n) m = stosl (p + 4) v n (store32 m p v)"

definition memset :: "uint \<Rightarrow> uint \<Rightarrow> uint \<Rightarrow> memory \<Rightarrow> memory" where
  "memset dst c n m =
     (if dst mod 4 = 0 \<and> n mod 4 = 0 then
        (let c = c AND 0xFF in
         stosl dst (push_bit 24 c OR push_bit 16 c OR push_bit 8 c OR c) (unat (n div 4)) m)
      else stosb dst (ucast c) (unat n) m)"

fun memcmp :: "bytes \<Rightarrow> bytes \<Rightarrow> nat \<Rightarrow> int" where
  "memcmp s1 s2 0 = 0"
| "memcmp s1 s2 (Suc n) =
     (if s1 0 \<noteq> s2 0 then uint (s1 0) - uint (s2 0) else memcmp (inc s1) (inc s2) n)"

fun copy_down :: "uint \<Rightarrow> uint \<Rightarrow> nat \<Rightarrow> memory \<Rightarrow> memory" where
  "copy_down d s 0 m = m"
| "copy_down d s (Suc n) m = copy_down (d - 1) (s - 1) n (m(d - 1 := m (s - 1)))"

fun copy_up :: "uint \<Rightarrow> uint \<Rightarrow> nat \<Rightarrow> memory \<Rightarrow> memory" where
  "copy_up d s 0 m = m"
| "copy_up d s (Suc n) m = copy_up (d + 1) (s + 1) n (m(d := m s))"

definition memmove :: "uint \<Rightarrow> uint \<Rightarrow> uint \<Rightarrow> memory \<Rightarrow> memory" where
  "memmove dst src n m =
     (if src < dst \<and> src + n > dst then copy_down (dst + n) (src + n) (unat n) m
      else copy_up dst src (unat n) m)"

definition memcpy :: "uint \<Rightarrow> uint \<Rightarrow> uint \<Rightarrow> memory \<Rightarrow> memory" where
  "memcpy dst src n m = memmove dst src n m"

fun strncmp :: "bytes \<Rightarrow> bytes \<Rightarrow> nat \<Rightarrow> int" where
  "strncmp p q 0 = 0"
| "strncmp p q (Suc n) =
     (if p 0 \<noteq> 0 \<and> p 0 = q 0 then strncmp (inc p) (inc q) n else uint (p 0) - uint (q 0))"

fun zero_fill :: "bytes \<Rightarrow> nat \<Rightarrow> nat \<Rightarrow> bytes" where
  "zero_fill s i 0 = s"
| "zero_fill s i (Suc n) = zero_fill (s(i := 0)) (Suc i) n"

fun strncpy_at :: "bytes \<Rightarrow> bytes \<Rightarrow> nat \<Rightarrow> nat \<Rightarrow> bytes" where
  "strncpy_at s t i 0 = s"
| "strncpy_at s t i (Suc n) =
     (if t i \<noteq> 0 then strncpy_at (s(i := t i)) t (Suc i) n
      else zero_fill (s(i := t i)) (Suc i) n)"

definition strncpy :: "bytes \<Rightarrow> bytes \<Rightarrow> int \<Rightarrow> bytes" where
  "strncpy s t n = strncpy_at s t 0 (nat n)"

fun safestrcpy_at :: "bytes \<Rightarrow> bytes \<Rightarrow> nat \<Rightarrow> nat \<Rightarrow> bytes" where
  "safestrcpy_at s t i 0 = s(i := 0)"
| "safestrcpy_at s t i (Suc n) =
     (if t i \<noteq> 0 then safestrcpy_at (s(i := t i)) t (Suc i) n
      else (s(i := t i))(Suc i := 0))"

definition safestrcpy :: "bytes \<Rightarrow> bytes \<Rightarrow> int \<Rightarrow> bytes" where
  "safestrcpy s t n = (if n \<le> 0 then s else safestrcpy_at s t 0 (nat (n - 1)))"

partial_function (option) strlen_from :: "bytes \<Rightarrow> nat \<Rightarrow> nat option" where
  "strlen_from s n = (if s n = 0 then Some n else strlen_from s (Suc n))"

definition strlen :: "bytes \<Rightarrow> nat option" where
  "strlen s = strlen_from s 0"

section \<open>User library routines (ulib.c)\<close>

partial_function (option) strcpy_at :: "bytes \<Rightarrow> bytes \<Rightarrow> nat \<Rightarrow> bytes option" where
  "strcpy_at s t i = (if t i \<noteq> 0 then strcpy_at (s(i := t i)) t (Suc i) else Some (s(i := t i)))"

definition strcpy :: "bytes \<Rightarrow> bytes \<Rightarrow> bytes option" where
  "strcpy s t = strcpy_at s t 0"

partial_function (option) strcmp :: "bytes \<Rightarrow> bytes \<Rightarrow> int option" where
  "strcmp p q =
     (if p 0 \<noteq> 0 \<and> p 0 = q 0 then strcmp (inc p) (inc q) else Some (uint (p 0) - uint (q 0)))"

partial_function (option) strchr_from :: "bytes \<Rightarrow> uchar \<Rightarrow> nat \<Rightarrow> nat option option" where
  "strchr_from s c i =
     (if s i = 0 then Some None else if s i = c then Some (Some i) else strchr_from s c (Suc i))"

definition strchr :: "bytes \<Rightarrow> uchar \<Rightarrow> nat option option" where
  "strchr s c = strchr_from s c 0"

partial_function (option) atoi_from :: "bytes \<Rightarrow> nat \<Rightarrow> uint \<Rightarrow> uint option" where
  "atoi_from s i n =
     (if 48 \<le> s i \<and> s i \<le> 57 then atoi_from s (Suc i) (n * 10 + ucast (s i) - 48) else Some n)"

definition atoi :: "bytes \<Rightarrow> uint option" where
  "atoi s = atoi_from s 0 0"

definition user_memset :: "uint \<Rightarrow> uint \<Rightarrow> uint \<Rightarrow> memory \<Rightarrow> memory" where
  "user_memset dst c n m = stosb dst (ucast c) (unat n) m"

definition user_memmove :: "uint \<Rightarrow> uint \<Rightarrow> int \<Rightarrow> memory \<Rightarrow> memory" where
  "user_memmove dst src n m = copy_up dst src (nat n) m"

section \<open>Memory lemmas\<close>

lemma load32_store32 [simp]: "load32 (store32 m p v) p = v"
  by (simp add: load32_def store32_def split32)

lemma stosb_eq: "n \<le> 2 ^ 32 \<Longrightarrow> stosb p c n m = (\<lambda>a. if unat (a - p) < n then c else m a)"
proof (induction n arbitrary: p m)
  case 0
  then show ?case by auto
next
  case (Suc n)
  have "unat (a - p) < Suc n \<longleftrightarrow> a = p \<or> unat (a - (p + 1)) < n" for a
  proof (cases "a = p")
    case False
    then have "a - p \<noteq> 0" by simp
    then have "unat (a - p - 1) = unat (a - p) - 1" and "0 < unat (a - p)"
      by (simp_all add: unat_minus_one unat_gt_0)
    then show ?thesis using False by (auto simp: diff_diff_eq)
  qed auto
  moreover have "stosb (p + 1) c n (m(p := c)) = (\<lambda>a. if unat (a - (p + 1)) < n then c else (m(p := c)) a)"
    using Suc by auto
  ultimately show ?case by (auto simp: fun_eq_iff)
qed

lemma word_step: "a \<noteq> (p :: uint) \<Longrightarrow> unat (a - p) = Suc (unat (a - (p + 1)))"
proof -
  assume "a \<noteq> p"
  then have "a - p \<noteq> 0" by simp
  then have "unat (a - p - 1) = unat (a - p) - 1" and "0 < unat (a - p)"
    by (simp_all add: unat_minus_one unat_gt_0)
  then show ?thesis by (simp add: diff_diff_eq)
qed

lemma word_step_self: "unat (p - (p + 1) :: uint) = 2 ^ 32 - 1"
  by (simp add: unsigned_minus_1_eq_mask mask_eq_exp_minus_1)

lemma stosb_add: "stosb p c (n + k) m = stosb (p + of_nat n) c k (stosb p c n m)"
  by (induction n arbitrary: p m) (simp_all add: ac_simps)

lemma store32_replicated:
  "store32 m p (push_bit 24 (c AND 0xFF) OR push_bit 16 (c AND 0xFF) OR push_bit 8 (c AND 0xFF) OR (c AND 0xFF))
     = stosb p (ucast c) 4 m"
proof -
  let ?v = "push_bit 24 (c AND 0xFF) OR push_bit 16 (c AND 0xFF) OR push_bit 8 (c AND 0xFF) OR (c AND 0xFF)"
  have mask: "(0xFF :: uint) = mask 8" by (simp add: mask_eq_exp_minus_1)
  have "(ucast ?v :: uchar) = ucast c" "(ucast (drop_bit 8 ?v) :: uchar) = ucast c"
    "(ucast (drop_bit 16 ?v) :: uchar) = ucast c" "(ucast (drop_bit 24 ?v) :: uchar) = ucast c"
    unfolding mask by (rule bit_word_eqI; auto simp: bit_simps)+
  then show ?thesis by (simp add: store32_def numeral_eq_Suc ac_simps)
qed

lemma stosl_replicated:
  assumes "v = push_bit 24 (c AND 0xFF) OR push_bit 16 (c AND 0xFF) OR push_bit 8 (c AND 0xFF) OR (c AND 0xFF)"
  shows "stosl p v n m = stosb p (ucast c) (4 * n) m"
proof (induction n arbitrary: p m)
  case (Suc n)
  have "stosl p v (Suc n) m = stosb (p + 4) (ucast c) (4 * n) (stosb p (ucast c) 4 m)"
    using Suc.IH store32_replicated [of m p c] assms by simp
  also have "\<dots> = stosb p (ucast c) (4 + 4 * n) m"
    by (simp only: stosb_add of_nat_numeral)
  finally show ?case by simp
qed simp

lemma unat_minus_1_uint: "unat (- 1 :: uint) = 2 ^ 32 - 1"
  by (simp add: unsigned_minus_1_eq_mask mask_eq_exp_minus_1)

lemma word_reflect: "n - 1 - x < n \<longleftrightarrow> x < (n :: uint)"
  by uint_arith

lemma unat_le_2p32: "unat (n :: uint) \<le> 4294967296"
  using unsigned_less [of n, where 'a = nat] by simp

lemma word_unat_4: "unat (4 :: uint) = 4"
  by simp

text \<open>Both branches of \<open>memset\<close> (word stores and byte stores) fill exactly the \<open>n\<close> bytes at \<open>dst\<close>.\<close>

lemma memset_eq: "memset dst c n m = (\<lambda>a. if a - dst < n then ucast c else m a)"
proof (cases "dst mod 4 = 0 \<and> n mod 4 = 0")
  case True
  then have "4 * unat (n div 4) = unat n"
    by (metis mult_div_mod_eq add_0_right unat_0 unat_div unat_mod word_unat_4)
  moreover have "memset dst c n m = stosb dst (ucast c) (4 * unat (n div 4)) m"
    by (simp only: memset_def Let_def True if_True simp_thms stosl_replicated [OF refl])
  ultimately show ?thesis
    by (simp add: stosb_eq word_less_nat_alt unat_le_2p32)
next
  case False
  then show ?thesis
    by (auto simp: memset_def stosb_eq word_less_nat_alt unat_le_2p32)
qed

text \<open>
  \<open>copy_up\<close> and \<open>copy_down\<close> copy the original bytes as long as no byte is overwritten before it is
  read; that is what the direction test of \<open>memmove\<close> decides.
\<close>

lemma copy_up_eq:
  "n \<le> unat (d - s) \<or> d = s \<Longrightarrow> n \<le> 2 ^ 32 \<Longrightarrow>
     copy_up d s n m = (\<lambda>a. if unat (a - d) < n then m (s + (a - d)) else m a)"
proof (induction n arbitrary: d s m)
  case (Suc n)
  let ?m = "m(d := m s)"
  have "n \<le> unat (d + 1 - (s + 1)) \<or> d + 1 = s + 1" using Suc.prems by auto
  with Suc have IH: "copy_up (d + 1) (s + 1) n ?m =
      (\<lambda>a. if unat (a - (d + 1)) < n then ?m (s + 1 + (a - (d + 1))) else ?m a)"
    by (simp only: Suc.IH)
  show ?case
  proof (rule ext)
    fix a
    show "copy_up d s (Suc n) m a = (if unat (a - d) < Suc n then m (s + (a - d)) else m a)"
    proof (cases "a = d")
      case True
      then show ?thesis using IH Suc.prems(2) word_step_self [of d] by simp
    next
      case False
      have "s + (a - d) \<noteq> d" if "unat (a - d) < Suc n"
      proof
        assume "s + (a - d) = d"
        then have "a - d = d - s" by (simp add: algebra_simps)
        with that Suc.prems(1) False show False by auto
      qed
      then show ?thesis using IH False word_step [OF False]
        by (auto simp: algebra_simps)
    qed
  qed
qed auto

lemma copy_down_eq:
  "n \<le> unat (s - d) \<or> d = s \<Longrightarrow> n \<le> 2 ^ 32 \<Longrightarrow>
     copy_down d s n m = (\<lambda>a. if unat (d - 1 - a) < n then m (s - (d - a)) else m a)"
proof (induction n arbitrary: d s m)
  case (Suc n)
  let ?m = "m(d - 1 := m (s - 1))"
  have "n \<le> unat (s - 1 - (d - 1)) \<or> d - 1 = s - 1" using Suc.prems by auto
  with Suc have IH: "copy_down (d - 1) (s - 1) n ?m =
      (\<lambda>a. if unat (d - 1 - 1 - a) < n then ?m (s - 1 - (d - 1 - a)) else ?m a)"
    by (simp only: Suc.IH)
  show ?case
  proof (rule ext)
    fix a
    have step: "unat (d - 1 - a) = Suc (unat (d - 1 - 1 - a))" if "a \<noteq> d - 1"
      using word_step [of "d - 1" a] that by (simp add: algebra_simps)
    show "copy_down d s (Suc n) m a = (if unat (d - 1 - a) < Suc n then m (s - (d - a)) else m a)"
    proof (cases "a = d - 1")
      case True
      have eq: "d - 1 - 1 - a = - 1" using True by simp
      have "\<not> unat (d - 1 - 1 - a) < n"
        using Suc.prems(2) unat_minus_1_uint unfolding eq by linarith
      then have "copy_down d s (Suc n) m a = ?m a"
        using IH by (simp only: copy_down.simps if_False)
      then show ?thesis using True by simp
    next
      case False
      have "s - (d - a) \<noteq> d - 1" if "unat (d - 1 - a) < Suc n"
      proof
        assume "s - (d - a) = d - 1"
        then have "d - 1 - a = s - d" by (simp add: algebra_simps)
        with that Suc.prems(1) False show False by auto
      qed
      then show ?thesis using IH False step [OF False]
        by (auto simp: algebra_simps)
    qed
  qed
qed auto

definition copied :: "memory \<Rightarrow> uint \<Rightarrow> uint \<Rightarrow> uint \<Rightarrow> memory" where
  "copied m dst src n = (\<lambda>a. if a - dst < n then m (src + (a - dst)) else m a)"

lemma memmove_copied:
  assumes "unat src + unat n < 2 ^ 32" and "unat dst + unat n \<le> 2 ^ 32"
  shows "memmove dst src n m = copied m dst src n"
proof (cases "src < dst \<and> src + n > dst")
  case True
  have "unat (src - dst) = 2 ^ 32 - (unat dst - unat src)"
    using True by (simp add: unat_sub_if_size word_size word_less_nat_alt)
  then have "unat n \<le> unat (src + n - (dst + n))"
    using assms True by (simp add: word_less_nat_alt)
  then have "memmove dst src n m =
      (\<lambda>a. if unat (dst + n - 1 - a) < unat n then m (src + n - (dst + n - a)) else m a)"
    using True by (simp add: memmove_def copy_down_eq unat_le_2p32)
  moreover have "unat (dst + n - 1 - a) < unat n \<longleftrightarrow> a - dst < n" for a
  proof -
    have eq: "dst + n - 1 - a = n - 1 - (a - dst)" by (simp add: algebra_simps)
    show ?thesis unfolding eq word_less_nat_alt [symmetric] by (rule word_reflect)
  qed
  ultimately show ?thesis by (auto simp: copied_def algebra_simps)
next
  case False
  have "unat n \<le> unat (dst - src) \<or> dst = src"
  proof (cases "src < dst")
    case True
    with False have "src + n \<le> dst" by auto
    moreover have "unat (src + n) = unat src + unat n"
      using assms by (simp add: unat_add_lem [symmetric])
    ultimately have "unat n \<le> unat (dst - src)"
      using True by (simp add: word_le_nat_alt word_less_nat_alt unat_sub_if_size)
    then show ?thesis ..
  next
    case False
    then show ?thesis using assms
      by (cases "dst = src") (auto simp: unat_sub_if_size word_size word_less_nat_alt not_less word_unat_eq_iff)
  qed
  then show ?thesis
    using False by (auto simp: memmove_def copy_up_eq unat_le_2p32 copied_def word_less_nat_alt)
qed

section \<open>String lemmas\<close>

text \<open>A C string: the bytes before the first NUL.\<close>

definition cstr :: "bytes \<Rightarrow> uchar list \<Rightarrow> bool" where
  "cstr s xs \<longleftrightarrow> (\<forall>i < length xs. s i = xs ! i \<and> xs ! i \<noteq> 0) \<and> s (length xs) = 0"

lemma strlen_from_cstr: "cstr s xs \<Longrightarrow> n \<le> length xs \<Longrightarrow> strlen_from s n = Some (length xs)"
proof (induction "length xs - n" arbitrary: n)
  case 0
  then show ?case by (subst strlen_from.simps) (simp add: cstr_def)
next
  case (Suc k)
  then have "s n \<noteq> 0" by (auto simp: cstr_def)
  then show ?case using Suc.hyps(1) [of "Suc n"] Suc.hyps(2) Suc.prems
    by (subst strlen_from.simps) simp
qed

lemma strlen_cstr: "cstr s xs \<Longrightarrow> strlen s = Some (length xs)"
  by (simp add: strlen_def strlen_from_cstr)

lemma strncmp_eq_0:
  "strncmp p q n = 0 \<longleftrightarrow> (\<forall>i < n. (\<forall>j < i. p j \<noteq> 0) \<longrightarrow> p i = q i)"
proof (induction n arbitrary: p q)
  case (Suc n)
  show ?case
  proof (cases "p 0 \<noteq> 0 \<and> p 0 = q 0")
    case True
    then show ?thesis using Suc by (simp add: inc_def All_less_Suc2)
  next
    case False
    have "uint (p 0) - uint (q 0) = 0 \<longleftrightarrow> p 0 = q 0" by (simp add: word_uint_eq_iff)
    then show ?thesis using False by (auto simp: All_less_Suc2)
  qed
qed simp

lemma zero_fill_apply: "zero_fill s i n k = (if i \<le> k \<and> k < i + n then 0 else s k)"
  by (induction n arbitrary: s i) auto

lemma strncpy_at_apply:
  "strncpy_at s t i n k =
     (if i \<le> k \<and> k < i + n then (if \<exists>j. i \<le> j \<and> j < k \<and> t j = 0 then 0 else t k) else s k)"
proof (induction n arbitrary: s i)
  case (Suc n)
  show ?case
  proof (cases "t i = 0")
    case True
    then show ?thesis by (auto simp: zero_fill_apply not_less less_Suc_eq_le)
  next
    case False
    have "(\<exists>j\<ge>i. j < k \<and> t j = 0) \<longleftrightarrow> (\<exists>j\<ge>Suc i. j < k \<and> t j = 0)" if "i < k"
      using False by (metis Suc_leD le_antisym not_less_eq_eq)
    then show ?thesis using Suc False by (cases "i < k") auto
  qed
qed auto

lemma safestrcpy_at_prefix:
  "\<exists>k. i \<le> k \<and> k \<le> i + n \<and> safestrcpy_at s t i n k = 0 \<and>
     (\<forall>j. i \<le> j \<and> j < k \<longrightarrow> safestrcpy_at s t i n j = t j \<and> t j \<noteq> 0) \<and>
     (k < i + n \<longrightarrow> t k = 0) \<and> (\<forall>j. j < i \<or> i + n < j \<longrightarrow> safestrcpy_at s t i n j = s j)"
proof (induction n arbitrary: s i)
  case 0
  then show ?case by (intro exI [of _ i]) auto
next
  case (Suc n)
  show ?case
  proof (cases "t i = 0")
    case True
    then show ?thesis by (intro exI [of _ i]) auto
  next
    case False
    define r where "r = safestrcpy_at s t i (Suc n)"
    have r: "r = safestrcpy_at (s(i := t i)) t (Suc i) n" using False by (simp add: r_def)
    from Suc [of "Suc i" "s(i := t i)"] obtain k where k: "Suc i \<le> k" "k \<le> Suc i + n" "r k = 0"
      "\<forall>j. Suc i \<le> j \<and> j < k \<longrightarrow> r j = t j \<and> t j \<noteq> 0" "k < Suc i + n \<longrightarrow> t k = 0"
      "\<forall>j. j < Suc i \<or> Suc i + n < j \<longrightarrow> r j = (s(i := t i)) j"
      unfolding r by blast
    then have "r i = t i" by simp
    have mid: "r j = t j \<and> t j \<noteq> 0" if "i \<le> j" "j < k" for j
      using k(4) \<open>r i = t i\<close> False that by (cases "j = i") auto
    have out: "r j = s j" if "j < i \<or> i + Suc n < j" for j
      using k(6) that by auto
    show ?thesis unfolding r_def [symmetric]
      using k(1,2,3,5) mid out by (intro exI [of _ k]) auto
  qed
qed

section \<open>Properties\<close>

text \<open>
  C20: \<open>memmove\<close> copies the original \<open>n\<close> source bytes to the destination and changes nothing else, for
  every overlap of the two regions, as long as the regions do not wrap around the address space.
\<close>

theorem memmove_correct:
  assumes "unat src + unat n < 2 ^ 32" and "unat dst + unat n \<le> 2 ^ 32"
  shows "memmove dst src n m = (\<lambda>a. if a - dst < n then m (src + (a - dst)) else m a)"
  using memmove_copied [OF assms] by (simp add: copied_def)

theorem memmove_correct_witness:
  "memmove 2 1 3 (\<lambda>a. ucast a) 4 = 3 \<and> memmove 2 1 3 (\<lambda>a. ucast a) 1 = 1"
  using memmove_correct [of 1 3 2 "\<lambda>a. ucast a"] by simp

text \<open>
  The aligned fast path of \<open>memset\<close> (32-bit stores of the replicated byte) and the byte-wise path
  both set exactly the \<open>n\<close> bytes from \<open>dst\<close> to the low byte of \<open>c\<close>, for all arguments.
\<close>

theorem memset_correct: "memset dst c n m = (\<lambda>a. if a - dst < n then ucast c else m a)"
  by (rule memset_eq)

text \<open>
  \<open>safestrcpy\<close> into a buffer of \<open>n > 0\<close> bytes leaves a NUL-terminated prefix of the source there:
  some \<open>k < n\<close> holds the terminator, the \<open>k\<close> bytes before it are the source's and not NUL, the copy is
  cut short only when the buffer is full, and no byte outside the buffer changes.
\<close>

theorem safestrcpy_terminates_string:
  assumes "0 < n"
  shows "\<exists>k. int k < n \<and> safestrcpy s t n k = 0 \<and>
     (\<forall>j < k. safestrcpy s t n j = t j \<and> t j \<noteq> 0) \<and> (int k < n - 1 \<longrightarrow> t k = 0) \<and>
     (\<forall>j. n \<le> int j \<longrightarrow> safestrcpy s t n j = s j)"
proof -
  from safestrcpy_at_prefix [of 0 "nat (n - 1)" s t] obtain k where
    "k \<le> nat (n - 1)" "safestrcpy_at s t 0 (nat (n - 1)) k = 0"
    "\<forall>j < k. safestrcpy_at s t 0 (nat (n - 1)) j = t j \<and> t j \<noteq> 0"
    "k < nat (n - 1) \<longrightarrow> t k = 0"
    "\<forall>j. nat (n - 1) < j \<longrightarrow> safestrcpy_at s t 0 (nat (n - 1)) j = s j"
    by auto
  with assms show ?thesis
    by (intro exI [of _ k]) (auto simp: safestrcpy_def nat_less_iff)
qed

theorem safestrcpy_terminates_string_witness:
  "\<exists>k. int k < 3 \<and> safestrcpy (\<lambda>_. 9) (\<lambda>_. 7) 3 k = 0"
  using safestrcpy_terminates_string [of 3 "\<lambda>_. 9" "\<lambda>_. 7"] by auto

end
