(* ===== verification/Layout.thy ===== *)
theory Layout
  imports CString
begin

text \<open>
  Constants of \<^verbatim>\<open>param.h\<close>, \<^verbatim>\<open>memlayout.h\<close> and \<^verbatim>\<open>mmu.h\<close>, page rounding, and the arithmetic of page-aligned
  addresses that the memory components share.
\<close>

abbreviation (input) NPROC :: nat where "NPROC \<equiv> 64"
abbreviation (input) KSTACKSIZE :: uint where "KSTACKSIZE \<equiv> 4096"
abbreviation (input) NCPU :: nat where "NCPU \<equiv> 8"
abbreviation (input) NOFILE :: nat where "NOFILE \<equiv> 16"
abbreviation (input) NFILE :: nat where "NFILE \<equiv> 100"
abbreviation (input) NINODE :: nat where "NINODE \<equiv> 50"
abbreviation (input) NDEV :: nat where "NDEV \<equiv> 10"
abbreviation (input) ROOTDEV :: uint where "ROOTDEV \<equiv> 1"
abbreviation (input) MAXARG :: nat where "MAXARG \<equiv> 32"
abbreviation (input) MAXOPBLOCKS :: nat where "MAXOPBLOCKS \<equiv> 10"
abbreviation (input) LOGSIZE :: nat where "LOGSIZE \<equiv> 30"
abbreviation (input) NBUF :: nat where "NBUF \<equiv> 30"

definition EXTMEM :: uint where "EXTMEM = 0x100000"
definition PHYSTOP :: uint where "PHYSTOP = 0xE000000"
definition DEVSPACE :: uint where "DEVSPACE = 0xFE000000"
definition KERNBASE :: uint where "KERNBASE = 0x80000000"
definition KERNLINK :: uint where "KERNLINK = KERNBASE + EXTMEM"

definition v2p :: "uint \<Rightarrow> uint" where
  "v2p a = a - KERNBASE"

definition p2v :: "uint \<Rightarrow> uint" where
  "p2v a = a + KERNBASE"

abbreviation (input) PGSIZE :: uint where "PGSIZE \<equiv> 4096"

definition PGROUNDUP :: "uint \<Rightarrow> uint" where
  "PGROUNDUP sz = (sz + PGSIZE - 1) AND NOT (PGSIZE - 1)"

definition PGROUNDDOWN :: "uint \<Rightarrow> uint" where
  "PGROUNDDOWN a = a AND NOT (PGSIZE - 1)"

declare mod_0_imp_dvd [rule del]

lemma v2p_p2v [simp]: "v2p (p2v a) = a" "p2v (v2p a) = a"
  by (simp_all add: v2p_def p2v_def)

lemma and_not_mask_12: "(a :: uint) AND NOT (PGSIZE - 1) = PGSIZE * (a div PGSIZE)"
proof -
  have m: "PGSIZE - 1 = (mask 12 :: uint)" by (simp add: mask_eq_exp_minus_1)
  have "a AND NOT (mask 12) = push_bit 12 (drop_bit 12 a)"
    by (rule bit_word_eqI) (auto simp: bit_simps)
  also have "\<dots> = PGSIZE * (a div PGSIZE)"
    by (simp add: push_bit_eq_mult drop_bit_eq_div mult.commute)
  finally show ?thesis by (simp only: m)
qed

lemma unat_PGROUNDDOWN: "unat (PGROUNDDOWN a) = 4096 * (unat a div 4096)"
proof -
  have "unat (PGSIZE * (a div PGSIZE)) = 4096 * (unat a div 4096)"
    using unsigned_less [of a, where 'a = nat]
    by (simp add: unat_word_ariths unat_div)
  then show ?thesis by (simp only: PGROUNDDOWN_def and_not_mask_12)
qed

lemma PGROUNDUP_DOWN: "PGROUNDUP a = PGROUNDDOWN (a + (PGSIZE - 1))"
  by (simp add: PGROUNDUP_def PGROUNDDOWN_def add.commute)

lemma unat_PGROUNDUP:
  "unat a + 4095 < 2 ^ 32 \<Longrightarrow> unat (PGROUNDUP a) = 4096 * ((unat a + 4095) div 4096)"
  by (simp only: PGROUNDUP_DOWN unat_PGROUNDDOWN) (simp add: unat_word_ariths)

lemma round_up_ge: "(n :: nat) \<le> 4096 * ((n + 4095) div 4096)"
  using div_mult_mod_eq [of "n + 4095" 4096] mod_less_divisor [of 4096 "n + 4095"] by linarith

lemma round_up_le: "n \<le> 4096 * k \<Longrightarrow> 4096 * ((n + 4095) div 4096) \<le> 4096 * (k :: nat)"
proof -
  assume "n \<le> 4096 * k"
  then have "(n + 4095) div 4096 \<le> (4096 * k + 4095) div 4096" by (intro div_le_mono) simp
  then show ?thesis by simp
qed

lemma unat_mod_4096: "a mod PGSIZE = 0 \<longleftrightarrow> unat a mod 4096 = 0"
  by (simp add: word_unat_eq_iff unat_mod)

lemma PGROUNDDOWN_aligned [simp]: "PGROUNDDOWN a mod PGSIZE = 0"
  by (simp add: unat_mod_4096 unat_PGROUNDDOWN)

lemma PGROUNDUP_aligned [simp]: "PGROUNDUP a mod PGSIZE = 0"
  by (simp add: PGROUNDUP_DOWN)

lemma unat_page_offset: "a mod PGSIZE = 0 \<Longrightarrow> i < PGSIZE \<Longrightarrow> unat (a + i) = unat a + unat i"
proof -
  assume a: "a mod PGSIZE = 0" and i: "i < PGSIZE"
  obtain k where k: "unat a = 4096 * k" using a by (auto simp: unat_mod_4096 mod_eq_0_iff_dvd elim!: dvdE)
  moreover have "k < 1048576" using unsigned_less [of a, where 'a = nat] k by simp
  ultimately have "unat a + 4096 \<le> 2 ^ 32" by simp
  then show ?thesis using i by (simp add: unat_add_lem [symmetric] word_less_nat_alt)
qed

lemma page_offset_unique:
  assumes "a mod PGSIZE = 0" "v mod PGSIZE = 0" "i < PGSIZE" "j < PGSIZE" "a + i = v + j"
  shows "a = v"
proof -
  have "unat a + unat i = unat v + unat j" using unat_page_offset assms by metis
  moreover have "unat i < 4096" "unat j < 4096" using assms by (simp_all add: word_less_nat_alt)
  moreover obtain k l where "unat a = 4096 * k" "unat v = 4096 * l"
    using assms by (auto simp: unat_mod_4096 mod_eq_0_iff_dvd elim!: dvdE)
  ultimately have "unat a = unat v" by simp
  then show ?thesis by (simp add: word_unat_eq_iff)
qed

lemma other_page:
  assumes "a mod PGSIZE = 0" "v mod PGSIZE = 0" "a \<noteq> v" "i < PGSIZE"
  shows "\<not> a + i - v < PGSIZE"
proof
  assume "a + i - v < PGSIZE"
  then show False using page_offset_unique [of a v i "a + i - v"] assms by simp
qed

lemma load32_cong: "(\<And>i. i < 4 \<Longrightarrow> m (a + i) = n (a + i)) \<Longrightarrow> load32 m a = load32 n a"
proof -
  assume eq: "\<And>i. i < 4 \<Longrightarrow> m (a + i) = n (a + i)"
  have "m a = n a" "m (a + 1) = n (a + 1)" "m (a + 2) = n (a + 2)" "m (a + 3) = n (a + 3)"
    using eq [of 0] eq [of 1] eq [of 2] eq [of 3] by simp_all
  then show ?thesis by (simp add: load32_def)
qed

lemma store32_outside: "\<not> b - a < 4 \<Longrightarrow> store32 m a v b = m b"
  by (auto simp: store32_def)

lemma unat_neg: "x \<noteq> 0 \<Longrightarrow> unat (- x) = 2 ^ 32 - unat x" for x :: uint
proof -
  assume "x \<noteq> 0"
  then have "0 < unat x" by (simp add: unat_gt_0)
  moreover have "unat x < 2 ^ 32" "unat (- x) < 2 ^ 32" using unsigned_less [of x, where 'a = nat] unsigned_less [of "- x", where 'a = nat] by simp_all
  moreover have "(unat (- x) + unat x) mod 2 ^ 32 = 0" using unat_word_ariths(1) [of "- x" x] by simp
  then obtain k where "unat (- x) + unat x = 2 ^ 32 * k" by (auto simp: mod_eq_0_iff_dvd dvd_def)
  ultimately have k: "2 ^ 32 * k < 2 ^ 32 * (2 :: nat)" "0 < 2 ^ 32 * k" "unat (- x) + unat x = 2 ^ 32 * k" by linarith+
  then have "k = 1" by auto
  then show ?thesis using k(3) by simp
qed

lemma load32_store32_far: "4 \<le> q - p \<Longrightarrow> 4 \<le> p - q \<Longrightarrow> load32 (store32 m p v) q = load32 m q"
proof (rule load32_cong)
  fix i :: uint assume a: "4 \<le> q - p" "4 \<le> p - q" "i < 4"
  have "q - p \<noteq> 0" using a(1) by auto
  then have "unat (p - q) = 2 ^ 32 - unat (q - p)" using unat_neg [of "q - p"] by simp
  then have x: "4 \<le> unat (q - p)" "unat (q - p) + 4 \<le> 2 ^ 32" "unat i < 4" using a by (simp_all add: word_le_nat_alt word_less_nat_alt)
  then have "unat ((q - p) + i) = unat (q - p) + unat i" by (simp add: unat_word_ariths)
  moreover have "q + i - p = (q - p) + i" by simp
  ultimately have "unat (q + i - p) = unat (q - p) + unat i" by (simp only:)
  then have "\<not> q + i - p < 4" using x by (simp add: word_less_nat_alt)
  then show "store32 m p v (q + i) = m (q + i)" by (rule store32_outside)
qed

end
