(* ===== verification/Kalloc.thy ===== *)
theory Kalloc
  imports Layout
begin

text \<open>
  The physical page allocator, \<^verbatim>\<open>kalloc.c\<close>. The free pages form a list linked through their own first
  word, so the model keeps the machine's memory and the head pointer; \<open>flist\<close> relates them to the
  list of free pages. \<open>kend\<close> is the linker symbol \<^verbatim>\<open>end\<close>. The lock calls bracket the
  updates and are left out here (see theory Spinlock).
\<close>

record kmem_state =
  mem :: memory
  freelist :: uint
  use_lock :: bool
  kend :: uint

definition kfree :: "uint \<Rightarrow> ('a kmem_state_scheme, unit) kprog" where
  "kfree v s =
     (if v mod PGSIZE \<noteq> 0 \<or> v < kend s \<or> v2p v \<ge> PHYSTOP then Panic ''kfree''
      else Ok () (s\<lparr>mem := store32 (memset v 1 PGSIZE (mem s)) v (freelist s), freelist := v\<rparr>))"

definition kalloc :: "('a kmem_state_scheme, uint) kprog" where
  "kalloc s =
     (let r = freelist s in
      if r \<noteq> 0 then Ok r (s\<lparr>freelist := load32 (mem s) r\<rparr>) else Ok r s)"

lemma kfree_no_wrap: "kfree p s = Ok x t \<Longrightarrow> unat p + 4096 < 2 ^ 32"
proof -
  assume "kfree p s = Ok x t"
  then have "v2p p < PHYSTOP" by (auto simp: kfree_def split: if_splits)
  then have "unat (p - 0x80000000) < 0xE000000"
    by (simp add: v2p_def KERNBASE_def PHYSTOP_def word_less_nat_alt)
  then show ?thesis by (simp add: unat_sub_if_size word_size split: if_splits)
qed

function freerange_from :: "uint \<Rightarrow> uint \<Rightarrow> ('a kmem_state_scheme, unit) kprog" where
  "freerange_from p vend s =
     (if p + PGSIZE \<le> vend then
        (case kfree p s of
           Ok x t \<Rightarrow> freerange_from (p + PGSIZE) vend t
         | Panic e \<Rightarrow> Panic e
         | Sleeps c t \<Rightarrow> Sleeps c t)
      else Ok () s)"
  by pat_completeness auto
termination
  by (relation "measure (\<lambda>(p, vend, s). 2 ^ 32 - unat p)")
    (auto dest!: kfree_no_wrap simp: unat_word_ariths)

definition freerange :: "uint \<Rightarrow> uint \<Rightarrow> ('a kmem_state_scheme, unit) kprog" where
  "freerange vstart vend = freerange_from (PGROUNDUP vstart) vend"

definition kinit1 :: "uint \<Rightarrow> uint \<Rightarrow> ('a kmem_state_scheme, unit) kprog" where
  "kinit1 vstart vend = kseq (kmod (\<lambda>s. s\<lparr>use_lock := False\<rparr>)) (freerange vstart vend)"

definition kinit2 :: "uint \<Rightarrow> uint \<Rightarrow> ('a kmem_state_scheme, unit) kprog" where
  "kinit2 vstart vend = kseq (freerange vstart vend) (kmod (\<lambda>s. s\<lparr>use_lock := True\<rparr>))"

section \<open>The free list\<close>

primrec flist :: "memory \<Rightarrow> uint \<Rightarrow> uint list \<Rightarrow> bool" where
  "flist m p [] \<longleftrightarrow> p = 0"
| "flist m p (a # as) \<longleftrightarrow> p = a \<and> p \<noteq> 0 \<and> flist m (load32 m a) as"

definition page_ok :: "'a kmem_state_scheme \<Rightarrow> uint \<Rightarrow> bool" where
  "page_ok s v \<longleftrightarrow> v mod PGSIZE = 0 \<and> kend s \<le> v \<and> v2p v < PHYSTOP"

definition kmem_inv :: "'a kmem_state_scheme \<Rightarrow> uint list \<Rightarrow> bool" where
  "kmem_inv s xs \<longleftrightarrow> flist (mem s) (freelist s) xs \<and> distinct xs \<and> (\<forall>a \<in> set xs. page_ok s a)"

declare freerange_from.simps [simp del]

lemma page_ok_nonzero: "page_ok s v \<Longrightarrow> v \<noteq> 0"
  by (auto simp: page_ok_def v2p_def KERNBASE_def PHYSTOP_def)

lemma flist_cong:
  "\<forall>a \<in> set as. a mod PGSIZE = 0 \<and> (\<forall>i < PGSIZE. n (a + i) = m (a + i)) \<Longrightarrow>
     flist m p as = flist n p as"
proof (induction as arbitrary: p)
  case (Cons a as)
  have "load32 n a = load32 m a"
    using Cons.prems by (intro load32_cong) (auto simp: word_less_nat_alt)
  then show ?case using Cons by simp
qed simp

lemma kfree_mem_other:
  assumes "v mod PGSIZE = 0" "a mod PGSIZE = 0" "a \<noteq> v" "i < PGSIZE"
  shows "store32 (memset v 1 PGSIZE m) v x (a + i) = m (a + i)"
proof -
  have far: "\<not> a + i - v < PGSIZE" by (rule other_page) (use assms in auto)
  then have "\<not> a + i - v < 4" by (auto simp: word_less_nat_alt)
  then show ?thesis using far by (simp add: store32_outside memset_eq)
qed

lemma kfree_inv:
  assumes inv: "kmem_inv s xs" and ok: "page_ok s v" and new: "v \<notin> set xs"
  shows "wp (kfree v) (\<lambda>_ t. kmem_inv t (v # xs) \<and> kend t = kend s \<and>
     (\<forall>a. \<not> a - v < PGSIZE \<longrightarrow> mem t a = mem s a)) s"
proof -
  let ?m = "store32 (memset v 1 PGSIZE (mem s)) v (freelist s)"
  have al: "v mod PGSIZE = 0" "\<And>a. a \<in> set xs \<Longrightarrow> a mod PGSIZE = 0 \<and> a \<noteq> v"
    using inv ok new by (auto simp: kmem_inv_def page_ok_def)
  have "flist ?m (freelist s) xs = flist (mem s) (freelist s) xs"
    by (rule flist_cong [symmetric]) (use al kfree_mem_other [OF al(1)] in blast)
  moreover have "?m a = mem s a" if "\<not> a - v < PGSIZE" for a
  proof -
    have "\<not> a - v < 4" using that by (auto simp: word_less_nat_alt)
    then show ?thesis using that by (simp add: store32_outside memset_eq)
  qed
  ultimately show ?thesis
    using inv ok new page_ok_nonzero [OF ok]
    by (auto simp: wp_def kfree_def kmem_inv_def page_ok_def)
qed

lemma kalloc_Nil: "kmem_inv s [] \<Longrightarrow> kalloc s = Ok 0 s"
  by (simp add: kmem_inv_def kalloc_def)

lemma kalloc_Cons:
  "kmem_inv s (x # xs) \<Longrightarrow> kalloc s = Ok x (s\<lparr>freelist := load32 (mem s) x\<rparr>) \<and>
     kmem_inv (s\<lparr>freelist := load32 (mem s) x\<rparr>) xs"
  by (auto simp: kmem_inv_def kalloc_def page_ok_def)

lemma kmem_inv_frame:
  assumes "kmem_inv s xs" "freelist t = freelist s" "kend t = kend s"
    and "\<And>a i. a \<in> set xs \<Longrightarrow> i < PGSIZE \<Longrightarrow> mem t (a + i) = mem s (a + i)"
  shows "kmem_inv t xs"
proof -
  have "flist (mem s) (freelist s) xs = flist (mem t) (freelist s) xs"
    using assms by (intro flist_cong) (auto simp: kmem_inv_def page_ok_def)
  then show ?thesis using assms by (auto simp: kmem_inv_def page_ok_def)
qed

section \<open>The allocator's interface\<close>

text \<open>
  What users of the allocator (\<^verbatim>\<open>vm.c\<close>, \<^verbatim>\<open>proc.c\<close>, \<^verbatim>\<open>pipe.c\<close>) rely on: \<open>avail s A\<close> says that \<open>A\<close> is the
  set of pages the allocator owns. A page handed out leaves that set, a freed one joins it.
\<close>

locale page_allocator =
  fixes alloc :: "('s, uint) kprog"
    and free :: "uint \<Rightarrow> ('s, unit) kprog"
    and avail :: "'s \<Rightarrow> uint set \<Rightarrow> bool"
    and okp :: "'s \<Rightarrow> uint \<Rightarrow> bool"
  assumes avail_okp: "avail s A \<Longrightarrow> p \<in> A \<Longrightarrow> okp s p"
    and avail_finite: "avail s A \<Longrightarrow> finite A"
    and okp_nonzero: "okp s p \<Longrightarrow> p \<noteq> 0"
    and alloc_empty: "avail s {} \<Longrightarrow> alloc s = Ok 0 s"
    and alloc_some: "avail s A \<Longrightarrow> A \<noteq> {} \<Longrightarrow>
      wp alloc (\<lambda>p t. p \<in> A \<and> avail t (A - {p}) \<and> (\<forall>q. okp t q = okp s q)) s"
    and free_page: "avail s A \<Longrightarrow> okp s p \<Longrightarrow> p \<notin> A \<Longrightarrow>
      wp (free p) (\<lambda>_ t. avail t (insert p A) \<and> (\<forall>q. okp t q = okp s q)) s"
begin

primrec alloc_n :: "nat \<Rightarrow> ('s, uint list) kprog" where
  "alloc_n 0 = kret []"
| "alloc_n (Suc n) = kbind alloc (\<lambda>p. kbind (alloc_n n) (\<lambda>ps. kret (p # ps)))"

lemma alloc_n_distinct:
  "avail s A \<Longrightarrow> n \<le> card A \<Longrightarrow>
     wp (alloc_n n) (\<lambda>ps t. length ps = n \<and> distinct ps \<and> set ps \<subseteq> A \<and> avail t (A - set ps)) s"
proof (induction n arbitrary: s A)
  case 0
  then show ?case by (simp add: wp_rules)
next
  case (Suc n)
  then have "A \<noteq> {}" by auto
  with alloc_some Suc.prems have one: "wp alloc (\<lambda>p t. p \<in> A \<and> avail t (A - {p}) \<and> (\<forall>q. okp t q = okp s q)) s"
    by blast
  show ?case unfolding alloc_n.simps wp_kbind
  proof (rule wp_mono [OF one])
    fix p t assume p: "p \<in> A \<and> avail t (A - {p}) \<and> (\<forall>q. okp t q = okp s q)"
    then have "n \<le> card (A - {p})" using Suc.prems avail_finite by simp
    with Suc.IH p have "wp (alloc_n n) (\<lambda>ps u. length ps = n \<and> distinct ps \<and> set ps \<subseteq> A - {p} \<and>
        avail u (A - {p} - set ps)) t" by blast
    then show "wp (alloc_n n) (\<lambda>ps. wp (kret (p # ps)) (\<lambda>ps t. length ps = Suc n \<and> distinct ps \<and>
        set ps \<subseteq> A \<and> avail t (A - set ps))) t"
      by (rule wp_mono) (use p in \<open>auto simp: wp_kret Diff_insert2 [symmetric]\<close>)
  qed
qed

lemma alloc_free_restores:
  "avail s A \<Longrightarrow> A \<noteq> {} \<Longrightarrow> wp (kbind alloc free) (\<lambda>_ t. avail t A) s"
proof -
  assume s: "avail s A" "A \<noteq> {}"
  show ?thesis unfolding wp_kbind
  proof (rule wp_mono [OF alloc_some [OF s]])
    fix p t assume t: "p \<in> A \<and> avail t (A - {p}) \<and> (\<forall>q. okp t q = okp s q)"
    then have "okp t p" using s avail_okp by blast
    with t free_page [of t "A - {p}" p] show "wp (free p) (\<lambda>_ t. avail t A) t"
      by (auto elim!: wp_mono simp: insert_absorb)
  qed
qed

end

definition kmem_avail :: "'a kmem_state_scheme \<Rightarrow> uint set \<Rightarrow> bool" where
  "kmem_avail s A \<longleftrightarrow> (\<exists>xs. kmem_inv s xs \<and> set xs = A)"

interpretation km: page_allocator kalloc kfree kmem_avail page_ok
proof unfold_locales
  fix s :: "'a kmem_state_scheme" and A assume s: "kmem_avail s A" "A \<noteq> {}"
  then obtain ys where "kmem_inv s ys" "set ys = A" "ys \<noteq> []" by (auto simp: kmem_avail_def)
  then obtain x xs where xs: "kmem_inv s (x # xs)" "A = insert x (set xs)" by (cases ys) auto
  then have "x \<notin> set xs" by (simp add: kmem_inv_def)
  then have "A - {x} = set xs" using xs by auto
  then show "wp kalloc (\<lambda>p t. p \<in> A \<and> kmem_avail t (A - {p}) \<and> (\<forall>q. page_ok t q = page_ok s q)) s"
    using kalloc_Cons [OF xs(1)] xs(2) by (auto simp: wp_def kmem_avail_def page_ok_def)
next
  fix s :: "'a kmem_state_scheme" and A p assume s: "kmem_avail s A" "page_ok s p" "p \<notin> A"
  then obtain xs where xs: "kmem_inv s xs" "A = set xs" by (auto simp: kmem_avail_def)
  show "wp (kfree p) (\<lambda>_ t. kmem_avail t (insert p A) \<and> (\<forall>q. page_ok t q = page_ok s q)) s"
    using kfree_inv [OF xs(1) s(2)] s(3) xs(2)
    by (auto simp: kmem_avail_def page_ok_def elim!: wp_mono intro!: exI [of _ "p # xs"])
qed (auto simp: kmem_avail_def kmem_inv_def page_ok_nonzero kalloc_def)

section \<open>Building the free list\<close>

definition range_pages :: "uint \<Rightarrow> uint \<Rightarrow> uint list" where
  "range_pages p vend = map (\<lambda>i. p + PGSIZE * of_nat i) [0..<(unat vend - unat p) div 4096]"

lemma range_pages_Nil: "unat vend < unat p + 4096 \<Longrightarrow> range_pages p vend = []"
  by (simp add: range_pages_def div_less)

lemma range_pages_Cons:
  assumes "unat p + 4096 \<le> unat vend"
  shows "range_pages p vend = p # range_pages (p + PGSIZE) vend"
proof -
  have "unat p + 4096 < 2 ^ 32" using assms unsigned_less [of vend, where 'a = nat] by simp
  then have up: "unat (p + PGSIZE) = unat p + 4096" by (simp add: unat_word_ariths)
  have "(unat vend - unat p) div 4096 = Suc ((unat vend - (unat p + 4096)) div 4096)"
    using assms by (simp add: le_div_geq)
  then show ?thesis
    by (simp add: range_pages_def up upt_conv_Cons map_Suc_upt [symmetric] algebra_simps
        del: upt_Suc)
qed

lemma freerange_from_inv:
  assumes "kmem_inv s xs" "p mod PGSIZE = 0" "kend s \<le> p" "KERNBASE \<le> p" "unat p \<le> 0x8E000000"
    "unat vend \<le> 0x8E000000" "\<forall>a \<in> set xs. unat a < unat p \<or> unat vend \<le> unat a"
  shows "wp (freerange_from p vend) (\<lambda>_ t. kmem_inv t (rev (range_pages p vend) @ xs) \<and> kend t = kend s) s"
  using assms
proof (induction "(unat vend - unat p) div 4096" arbitrary: p s xs rule: less_induct)
  case less
  have up: "unat (p + PGSIZE) = unat p + 4096" using less.prems(5) by (simp add: unat_word_ariths)
  show ?case
  proof (cases "p + PGSIZE \<le> vend")
    case False
    then have "range_pages p vend = []" using up by (intro range_pages_Nil) (simp add: word_le_nat_alt)
    then show ?thesis using False less.prems(1)
      by (simp add: freerange_from.simps [of p vend s] wp_def)
  next
    case True
    then have le: "unat p + 4096 \<le> unat vend" using up by (simp add: word_le_nat_alt)
    have "unat (v2p p) = unat p - 0x80000000"
      using less.prems(4) by (simp add: v2p_def KERNBASE_def unat_sub_if_size word_le_nat_alt)
    then have "page_ok s p" using less.prems le by (simp add: page_ok_def PHYSTOP_def word_less_nat_alt)
    moreover have "p \<notin> set xs" using less.prems(7) le by auto
    ultimately obtain t where t: "kfree p s = Ok () t" "kmem_inv t (p # xs)" "kend t = kend s"
      using kfree_inv [OF less.prems(1), of p] by (auto simp: wp_Ok)
    have fewer: "(unat vend - unat (p + PGSIZE)) div 4096 < (unat vend - unat p) div 4096"
      using le up by (simp add: le_div_geq)
    have aligned: "(p + PGSIZE) mod PGSIZE = 0"
      using less.prems(2) up by (simp add: unat_mod_4096)
    have "wp (freerange_from (p + PGSIZE) vend)
        (\<lambda>_ u. kmem_inv u (rev (range_pages (p + PGSIZE) vend) @ p # xs) \<and> kend u = kend t) t"
      by (rule less.hyps [OF fewer t(2) aligned])
        (use less.prems le up t(3) in \<open>auto simp: word_le_nat_alt\<close>)
    then show ?thesis using True t
      by (simp add: freerange_from.simps [of p vend s] wp_def range_pages_Cons [OF le])
  qed
qed

section \<open>Properties\<close>

text \<open>
  C18: \<open>kalloc\<close> and \<open>kfree\<close> implement a page allocator. \<open>n\<close> calls of \<open>kalloc\<close> on a free list of at least
  \<open>n\<close> pages succeed and return \<open>n\<close> different free pages, none of which stays free; no page is handed
  out twice.
\<close>

theorem kalloc_distinct_pages:
  assumes "kmem_inv s xs" and "n \<le> length xs"
  shows "wp (km.alloc_n n) (\<lambda>ps t. length ps = n \<and> distinct ps \<and> set ps \<subseteq> set xs \<and>
     (\<exists>ys. kmem_inv t ys \<and> set ys = set xs - set ps)) s"
proof -
  have "kmem_avail s (set xs)" "n \<le> card (set xs)"
    using assms by (auto simp: kmem_avail_def kmem_inv_def distinct_card)
  then show ?thesis
    using km.alloc_n_distinct [of s "set xs" n] by (simp add: kmem_avail_def)
qed

definition one_page :: kmem_state where
  "one_page = \<lparr>mem = (\<lambda>_. 0), freelist = 0x80100000, use_lock = False, kend = 0x80100000\<rparr>"

lemma one_page_inv: "kmem_inv one_page [0x80100000]"
  by (simp add: kmem_inv_def one_page_def page_ok_def load32_def v2p_def KERNBASE_def PHYSTOP_def)

theorem kalloc_distinct_pages_witness:
  "kmem_inv one_page [0x80100000] \<and> wp (km.alloc_n 1) (\<lambda>ps t. length ps = 1 \<and> set ps \<subseteq> {0x80100000}) one_page"
  using one_page_inv kalloc_distinct_pages [OF one_page_inv, of 1] by (auto elim!: wp_mono)

text \<open>
  C19: freeing a page that the caller owns puts it at the head of the free list, so that the next
  \<open>kalloc\<close> returns this very page; memory outside the page is untouched. A misaligned address, one
  below the kernel's end or one beyond physical memory panics.
\<close>

theorem kfree_then_kalloc:
  assumes "kmem_inv s xs" and "v \<notin> set xs"
  shows "(\<not> page_ok s v \<longrightarrow> kfree v s = Panic ''kfree'') \<and>
     (page_ok s v \<longrightarrow> wp (kseq (kfree v) kalloc)
        (\<lambda>p t. p = v \<and> kmem_inv t xs \<and> (\<forall>a. \<not> a - v < PGSIZE \<longrightarrow> mem t a = mem s a)) s)"
proof (intro conjI impI)
  assume "\<not> page_ok s v"
  then show "kfree v s = Panic ''kfree''" by (auto simp: kfree_def page_ok_def)
next
  assume ok: "page_ok s v"
  show "wp (kseq (kfree v) kalloc)
      (\<lambda>p t. p = v \<and> kmem_inv t xs \<and> (\<forall>a. \<not> a - v < PGSIZE \<longrightarrow> mem t a = mem s a)) s"
    unfolding wp_kseq
    by (rule wp_mono [OF kfree_inv [OF assms(1) ok assms(2)]])
      (use kalloc_Cons in \<open>fastforce simp: wp_def\<close>)
qed

theorem kfree_then_kalloc_witness:
  "wp (kseq (kfree 0x80200000) kalloc) (\<lambda>p t. p = 0x80200000) one_page \<and> kfree 0x80200001 one_page = Panic ''kfree''"
proof -
  have ok: "page_ok one_page 0x80200000" "\<not> page_ok one_page 0x80200001"
    by (simp_all add: one_page_def page_ok_def v2p_def KERNBASE_def PHYSTOP_def)
  then show ?thesis
    using kfree_then_kalloc [OF one_page_inv, of "0x80200000"] kfree_then_kalloc [OF one_page_inv, of "0x80200001"]
    by (auto elim!: wp_mono)
qed

text \<open>
  \<open>freerange\<close> over an address range in the kernel's direct map adds exactly the whole pages of the
  range to the free list and keeps the list well formed; this is how \<open>kinit1\<close> and \<open>kinit2\<close> fill it.
\<close>

theorem freerange_frees_range:
  assumes "kmem_inv s xs" and "kend s \<le> vstart" and "KERNBASE \<le> vstart" and "unat vstart \<le> 0x8DFFF000"
    and "unat vend \<le> 0x8E000000" and "\<forall>a \<in> set xs. unat a < unat vstart \<or> unat vend \<le> unat a"
  shows "wp (freerange vstart vend)
     (\<lambda>_ t. kmem_inv t (rev (range_pages (PGROUNDUP vstart) vend) @ xs)) s"
proof -
  have up: "unat (PGROUNDUP vstart) = 4096 * ((unat vstart + 4095) div 4096)"
    using assms(4) by (intro unat_PGROUNDUP) simp
  then have "unat vstart \<le> unat (PGROUNDUP vstart)" using round_up_ge by simp
  moreover have "unat (PGROUNDUP vstart) \<le> 0x8E000000"
    using up assms(4) round_up_le [of "unat vstart" "0x8E000"] by simp
  ultimately show ?thesis unfolding freerange_def using assms
    by (intro wp_mono [OF freerange_from_inv [of s xs]]) (auto simp: word_le_nat_alt)
qed

theorem freerange_frees_range_witness:
  "wp (freerange 0x80200001 0x80203000) (\<lambda>_ t. kmem_inv t [0x80202000, 0x80201000, 0x80100000]) one_page"
proof -
  have r: "range_pages (PGROUNDUP 0x80200001) 0x80203000 = [0x80201000, 0x80202000]"
    by (simp add: range_pages_def PGROUNDUP_def upt_rec)
  show ?thesis
    using freerange_frees_range [OF one_page_inv, of "0x80200001" "0x80203000"]
    unfolding r by (simp add: one_page_def KERNBASE_def)
qed

end
