(* ===== verification/Proc_Base.thy ===== *)
theory Proc_Base
  imports Kalloc
begin

text \<open>
  The process table (\<^verbatim>\<open>proc.h\<close>, \<^verbatim>\<open>proc.c\<close>) and the routines on it that need no other component: sleeping,
  waking, killing and giving up the processor. A \<^verbatim>\<open>struct proc*\<close> is an index into the table; \<open>cur\<close> is
  the per-CPU variable \<^verbatim>\<open>proc\<close> of the processor that runs the code. The trap frame, which the C code
  reaches through \<^verbatim>\<open>p->tf\<close> on the process's kernel stack, is a field.
\<close>

record trapframe =
  edi :: uint
  esi :: uint
  ebp :: uint
  oesp :: uint
  ebx :: uint
  edx :: uint
  ecx :: uint
  eax :: uint
  tf_gs :: ushort
  tf_fs :: ushort
  tf_es :: ushort
  tf_ds :: ushort
  trapno :: uint
  tf_err :: uint
  eip :: uint
  tf_cs :: ushort
  eflags :: uint
  esp :: uint
  tf_ss :: ushort

datatype procstate = UNUSED | EMBRYO | SLEEPING | RUNNABLE | RUNNING | ZOMBIE

record proc =
  p_sz :: uint
  p_pgdir :: uint
  p_kstack :: uint
  p_state :: procstate
  p_pid :: int
  p_parent :: "nat option"
  p_tf :: trapframe
  p_context :: uint
  p_chan :: "chan option"
  p_killed :: bool
  p_ofile :: "nat \<Rightarrow> nat option"
  p_cwd :: "nat option"
  p_name :: bytes
  p_handler :: "nat \<Rightarrow> uint"

record ptable_state = kmem_state +
  ptab :: "nat \<Rightarrow> proc"
  cur :: "nat option"
  initproc :: "nat option"
  nextpid :: int

definition upd_proc :: "nat \<Rightarrow> (proc \<Rightarrow> proc) \<Rightarrow> 'a ptable_state_scheme \<Rightarrow> 'a ptable_state_scheme" where
  "upd_proc p f s = s\<lparr>ptab := (ptab s)(p := f (ptab s p))\<rparr>"

definition wakeup1 :: "chan \<Rightarrow> 'a ptable_state_scheme \<Rightarrow> 'a ptable_state_scheme" where
  "wakeup1 c s = s\<lparr>ptab := (\<lambda>p. if p < NPROC \<and> p_state (ptab s p) = SLEEPING \<and> p_chan (ptab s p) = Some c
     then (ptab s p)\<lparr>p_state := RUNNABLE\<rparr> else ptab s p)\<rparr>"

definition wakeup :: "chan \<Rightarrow> ('a ptable_state_scheme, unit) kprog" where
  "wakeup c = kmod (wakeup1 c)"

text \<open>
  \<open>sleep\<close> up to the call of \<^verbatim>\<open>sched()\<close>; when the process runs again it executes \<open>sleep_resume\<close>.
\<close>

definition sleep :: "chan \<Rightarrow> ('a ptable_state_scheme, 'b) kprog" where
  "sleep c s = (case cur s of
      None \<Rightarrow> Panic ''sleep''
    | Some p \<Rightarrow> Sleeps c (upd_proc p (\<lambda>q. q\<lparr>p_chan := Some c, p_state := SLEEPING\<rparr>) s))"

definition sleep_resume :: "nat \<Rightarrow> ('a ptable_state_scheme, unit) kprog" where
  "sleep_resume p = kmod (upd_proc p (\<lambda>q. q\<lparr>p_chan := None\<rparr>))"

definition kill_proc :: "nat \<Rightarrow> 'a ptable_state_scheme \<Rightarrow> 'a ptable_state_scheme" where
  "kill_proc p = upd_proc p (\<lambda>q. q\<lparr>p_killed := True,
     p_state := (if p_state q = SLEEPING then RUNNABLE else p_state q)\<rparr>)"

fun kill_from :: "nat list \<Rightarrow> int \<Rightarrow> ('a ptable_state_scheme, int) kprog" where
  "kill_from [] pid s = Ok (- 1) s"
| "kill_from (p # ps) pid s =
     (if p_pid (ptab s p) = pid then Ok 0 (kill_proc p s) else kill_from ps pid s)"

definition kill :: "int \<Rightarrow> ('a ptable_state_scheme, int) kprog" where
  "kill pid = kill_from [0..<NPROC] pid"

section \<open>Frame lemmas\<close>

lemma wakeup1_frame [simp]:
  "mem (wakeup1 c s) = mem s" "freelist (wakeup1 c s) = freelist s" "kend (wakeup1 c s) = kend s"
  "cur (wakeup1 c s) = cur s" "initproc (wakeup1 c s) = initproc s" "nextpid (wakeup1 c s) = nextpid s"
  by (simp_all add: wakeup1_def)

lemma upd_proc_frame [simp]:
  "mem (upd_proc p f s) = mem s" "freelist (upd_proc p f s) = freelist s" "kend (upd_proc p f s) = kend s"
  "cur (upd_proc p f s) = cur s" "initproc (upd_proc p f s) = initproc s" "nextpid (upd_proc p f s) = nextpid s"
  by (simp_all add: upd_proc_def)

lemma wakeup_Ok [simp]: "wakeup c s = Ok () (wakeup1 c s)"
  by (simp add: wakeup_def kmod_def)

lemma wp_wakeup [wp_rules]: "wp (wakeup c) Q = (\<lambda>s. Q () (wakeup1 c s))"
  by (simp add: wp_def fun_eq_iff)

lemma wp_sleep [wp_rules]: "\<not> wp (sleep c) Q s"
  by (simp add: wp_def sleep_def split: option.splits)

end
