(* ===== verification/Disk.thy ===== *)
theory Disk
  imports Proc_Base
begin

text \<open>
  Buffers (\<^verbatim>\<open>buf.h\<close>) and the memory-disk driver \<^verbatim>\<open>memide.c\<close>. The disk is a function from sector
  numbers to sector contents. \<open>wtrace\<close> is a history variable: the sector writes the driver has performed,
  in order; nothing reads it but the crash theorems of theory Log_Crash.
\<close>

record buf =
  b_flags :: uint
  b_dev :: uint
  b_sector :: uint
  b_data :: bytes

definition B_BUSY :: uint where "B_BUSY = 0x1"
definition B_VALID :: uint where "B_VALID = 0x2"
definition B_DIRTY :: uint where "B_DIRTY = 0x4"

record disk_state = ptable_state +
  disk :: "uint \<Rightarrow> bytes"
  disksize :: uint
  wtrace :: "(uint \<times> bytes) list"

definition ideinit :: "(uint \<Rightarrow> bytes) \<Rightarrow> uint \<Rightarrow> ('a disk_state_scheme, unit) kprog" where
  "ideinit img img_size = kmod (\<lambda>s. s\<lparr>disk := img, disksize := img_size div 512\<rparr>)"

definition ideintr :: "('a disk_state_scheme, unit) kprog" where
  "ideintr = kret ()"

definition iderw :: "buf \<Rightarrow> ('a disk_state_scheme, buf) kprog" where
  "iderw b s =
     (if b_flags b AND B_BUSY = 0 then Panic ''iderw: buf not busy''
      else if b_flags b AND (B_VALID OR B_DIRTY) = B_VALID then Panic ''iderw: nothing to do''
      else if b_dev b \<noteq> 1 then Panic ''iderw: request not for disk 1''
      else if b_sector b \<ge> disksize s then Panic ''iderw: sector out of range''
      else if b_flags b AND B_DIRTY \<noteq> 0 then
        Ok (b\<lparr>b_flags := (b_flags b AND NOT B_DIRTY) OR B_VALID\<rparr>)
           (s\<lparr>disk := (disk s)(b_sector b := b_data b), wtrace := wtrace s @ [(b_sector b, b_data b)]\<rparr>)
      else
        Ok (b\<lparr>b_data := disk s (b_sector b), b_flags := b_flags b OR B_VALID\<rparr>) s)"

section \<open>Flags as bits\<close>

abbreviation busy :: "buf \<Rightarrow> bool" where "busy b \<equiv> bit (b_flags b) 0"
abbreviation valid :: "buf \<Rightarrow> bool" where "valid b \<equiv> bit (b_flags b) 1"
abbreviation dirty :: "buf \<Rightarrow> bool" where "dirty b \<equiv> bit (b_flags b) 2"

lemma B_masks: "B_BUSY = 2 ^ 0" "B_VALID = 2 ^ 1" "B_DIRTY = 2 ^ 2"
  by (simp_all add: B_BUSY_def B_VALID_def B_DIRTY_def)

lemmas B_flags [flag_simps] =
  flag_test [OF B_masks(1)] flag_test [OF B_masks(2)] flag_test [OF B_masks(3)]
  flag_set [OF B_masks(1), simplified] flag_set [OF B_masks(2), simplified] flag_set [OF B_masks(3), simplified]
  flag_clear [OF B_masks(1)] flag_clear [OF B_masks(2)] flag_clear [OF B_masks(3)]
  flag_only [OF B_masks(1), simplified] flag_only [OF B_masks(2), simplified] flag_only [OF B_masks(3), simplified]

lemma valid_clean_test [flag_simps]: "(f :: uint) AND (B_VALID OR B_DIRTY) = B_VALID \<longleftrightarrow> bit f 1 \<and> \<not> bit f 2"
proof
  assume "f AND (B_VALID OR B_DIRTY) = B_VALID"
  then have "bit (f AND (B_VALID OR B_DIRTY)) 1 = bit B_VALID 1" "bit (f AND (B_VALID OR B_DIRTY)) 2 = bit B_VALID 2"
    by simp_all
  then show "bit f 1 \<and> \<not> bit f 2" by (simp add: bit_and_iff bit_or_iff flag_simps)
next
  assume "bit f 1 \<and> \<not> bit f 2"
  then show "f AND (B_VALID OR B_DIRTY) = B_VALID"
    by (intro bit_word_eqI) (auto simp: bit_and_iff bit_or_iff flag_simps)
qed

lemma iderw_write:
  "busy b \<Longrightarrow> dirty b \<Longrightarrow> b_dev b = 1 \<Longrightarrow> b_sector b < disksize s \<Longrightarrow>
     iderw b s = Ok (b\<lparr>b_flags := (b_flags b AND NOT B_DIRTY) OR B_VALID\<rparr>)
       (s\<lparr>disk := (disk s)(b_sector b := b_data b), wtrace := wtrace s @ [(b_sector b, b_data b)]\<rparr>)"
  by (simp add: iderw_def flag_simps not_le)

lemma iderw_read:
  "busy b \<Longrightarrow> \<not> dirty b \<Longrightarrow> \<not> valid b \<Longrightarrow> b_dev b = 1 \<Longrightarrow> b_sector b < disksize s \<Longrightarrow>
     iderw b s = Ok (b\<lparr>b_data := disk s (b_sector b), b_flags := b_flags b OR B_VALID\<rparr>) s"
  by (simp add: iderw_def flag_simps not_le)

section \<open>The driver's contract\<close>

text \<open>
  What \<^verbatim>\<open>bio.c\<close> relies on, for whichever driver is linked in: a request for a dirty buffer stores its
  data in its sector, a request for an invalid clean one loads the sector, and afterwards the buffer is
  valid, clean and still owned by the caller.
\<close>

locale disk_driver =
  fixes rw :: "buf \<Rightarrow> ('s, buf) kprog"
    and content :: "'s \<Rightarrow> uint \<Rightarrow> bytes"
    and serves :: "'s \<Rightarrow> buf \<Rightarrow> bool"
  assumes rw_dirty: "serves s b \<Longrightarrow> busy b \<Longrightarrow> dirty b \<Longrightarrow>
      wp (rw b) (\<lambda>c t. valid c \<and> \<not> dirty c \<and> busy c \<and> b_data c = b_data b \<and> b_sector c = b_sector b \<and>
        b_dev c = b_dev b \<and> content t = (content s)(b_sector b := b_data b) \<and> (\<forall>x. serves t x = serves s x)) s"
    and rw_invalid: "serves s b \<Longrightarrow> busy b \<Longrightarrow> \<not> dirty b \<Longrightarrow> \<not> valid b \<Longrightarrow>
      wp (rw b) (\<lambda>c t. valid c \<and> \<not> dirty c \<and> busy c \<and> b_data c = content s (b_sector b) \<and>
        b_sector c = b_sector b \<and> b_dev c = b_dev b \<and> content t = content s \<and> (\<forall>x. serves t x = serves s x)) s"
    and serves_place: "serves s b \<Longrightarrow> b_dev c = b_dev b \<Longrightarrow> b_sector c = b_sector b \<Longrightarrow> serves s c"
begin

text \<open>A sector written through one buffer and read back through another holds the data written.\<close>

lemma write_then_read:
  assumes "serves s b" "busy b" "dirty b" "busy c" "\<not> dirty c" "\<not> valid c"
    and "b_dev c = b_dev b" "b_sector c = b_sector b"
  shows "wp (kbind (rw b) (\<lambda>_. rw c)) (\<lambda>d t. valid d \<and> b_data d = b_data b) s"
  unfolding wp_kbind
proof (rule wp_mono [OF rw_dirty [OF assms(1-3)]])
  fix x t assume t: "valid x \<and> \<not> dirty x \<and> busy x \<and> b_data x = b_data b \<and> b_sector x = b_sector b \<and>
      b_dev x = b_dev b \<and> content t = (content s)(b_sector b := b_data b) \<and> (\<forall>x. serves t x = serves s x)"
  then have "serves t c" using serves_place [OF assms(1)] assms by blast
  from rw_invalid [OF this assms(4-6)] show "wp (rw c) (\<lambda>d t. valid d \<and> b_data d = b_data b) t"
    by (rule wp_mono) (use t assms in auto)
qed

end

definition memide_serves :: "'a disk_state_scheme \<Rightarrow> buf \<Rightarrow> bool" where
  "memide_serves s b \<longleftrightarrow> b_dev b = 1 \<and> b_sector b < disksize s"

interpretation memide: disk_driver iderw disk memide_serves
  by unfold_locales (auto simp: memide_serves_def wp_def iderw_write iderw_read flag_simps)

end
