(* ===== verification/Bio.thy ===== *)
theory Bio
  imports Disk
begin

text \<open>
  The buffer cache, \<^verbatim>\<open>bio.c\<close>. A \<^verbatim>\<open>struct buf*\<close> is an index into the buffer array; the doubly linked
  list through \<^verbatim>\<open>prev\<close> and \<^verbatim>\<open>next\<close> is the list \<open>lru\<close> of the indices, most recently used first
  (\<^verbatim>\<open>head.next\<close> is its head, \<^verbatim>\<open>head.prev\<close> its last element).
\<close>

record bcache_state = disk_state +
  bufs :: "nat \<Rightarrow> buf"
  lru :: "nat list"

definition set_buf :: "nat \<Rightarrow> buf \<Rightarrow> ('a bcache_state_scheme, unit) kprog" where
  "set_buf i b = kmod (\<lambda>s. s\<lparr>bufs := (bufs s)(i := b)\<rparr>)"

definition get_buf :: "nat \<Rightarrow> ('a bcache_state_scheme, buf) kprog" where
  "get_buf i = kget (\<lambda>s. bufs s i)"

fun binit_from :: "nat list \<Rightarrow> 'a bcache_state_scheme \<Rightarrow> 'a bcache_state_scheme" where
  "binit_from [] s = s"
| "binit_from (i # is) s =
     binit_from is (s\<lparr>bufs := (bufs s)(i := (bufs s i)\<lparr>b_dev := - 1\<rparr>), lru := i # lru s\<rparr>)"

definition binit :: "('a bcache_state_scheme, unit) kprog" where
  "binit = kmod (\<lambda>s. binit_from [0..<NBUF] (s\<lparr>lru := []\<rparr>))"

definition bget :: "uint \<Rightarrow> uint \<Rightarrow> ('a bcache_state_scheme, nat) kprog" where
  "bget dev sector s =
     (case find (\<lambda>i. b_dev (bufs s i) = dev \<and> b_sector (bufs s i) = sector) (lru s) of
        Some i \<Rightarrow>
          if b_flags (bufs s i) AND B_BUSY = 0
          then Ok i (s\<lparr>bufs := (bufs s)(i := (bufs s i)\<lparr>b_flags := b_flags (bufs s i) OR B_BUSY\<rparr>)\<rparr>)
          else sleep (ChanBuf i) s
      | None \<Rightarrow>
          (case find (\<lambda>i. b_flags (bufs s i) AND B_BUSY = 0 \<and> b_flags (bufs s i) AND B_DIRTY = 0) (rev (lru s)) of
             Some i \<Rightarrow> Ok i (s\<lparr>bufs := (bufs s)(i := (bufs s i)\<lparr>b_dev := dev, b_sector := sector, b_flags := B_BUSY\<rparr>)\<rparr>)
           | None \<Rightarrow> Panic ''bget: no buffers''))"

definition bread :: "uint \<Rightarrow> uint \<Rightarrow> ('a bcache_state_scheme, nat) kprog" where
  "bread dev sector =
     kbind (bget dev sector) (\<lambda>i.
     kbind (get_buf i) (\<lambda>b.
     if b_flags b AND B_VALID = 0
     then kbind (iderw b) (\<lambda>c. kseq (set_buf i c) (kret i))
     else kret i))"

definition bwrite :: "nat \<Rightarrow> ('a bcache_state_scheme, unit) kprog" where
  "bwrite i =
     kbind (get_buf i) (\<lambda>b.
     if b_flags b AND B_BUSY = 0 then kpanic ''bwrite''
     else kbind (iderw (b\<lparr>b_flags := b_flags b OR B_DIRTY\<rparr>)) (set_buf i))"

definition brelse :: "nat \<Rightarrow> ('a bcache_state_scheme, unit) kprog" where
  "brelse i =
     kbind (get_buf i) (\<lambda>b.
     if b_flags b AND B_BUSY = 0 then kpanic ''brelse''
     else kseq (kmod (\<lambda>s. s\<lparr>lru := i # remove1 i (lru s)\<rparr>))
         (kseq (set_buf i (b\<lparr>b_flags := b_flags b AND NOT B_BUSY\<rparr>))
         (wakeup (ChanBuf i))))"

section \<open>Invariant and abstraction\<close>

text \<open>
  The list holds every buffer once; no two buffers hold the same block of a real device (a buffer that
  never held a block has device \<^verbatim>\<open>-1\<close>); a buffer of the disk that nobody owns, is valid and clean
  agrees with the disk.
\<close>

definition bcache_inv :: "'a bcache_state_scheme \<Rightarrow> bool" where
  "bcache_inv s \<longleftrightarrow> distinct (lru s) \<and> set (lru s) = {..<NBUF} \<and>
     (\<forall>i j. i < NBUF \<and> j < NBUF \<and> b_dev (bufs s i) = b_dev (bufs s j) \<and>
        b_sector (bufs s i) = b_sector (bufs s j) \<and> b_dev (bufs s i) \<noteq> - 1 \<longrightarrow> i = j) \<and>
     (\<forall>i < NBUF. b_dev (bufs s i) = 1 \<and> valid (bufs s i) \<and> \<not> dirty (bufs s i) \<and> \<not> busy (bufs s i) \<longrightarrow>
        b_data (bufs s i) = disk s (b_sector (bufs s i))) \<and>
     (\<forall>i < NBUF. dirty (bufs s i) \<longrightarrow> valid (bufs s i))"

definition caches :: "'a bcache_state_scheme \<Rightarrow> uint \<Rightarrow> nat \<Rightarrow> bool" where
  "caches s sec i \<longleftrightarrow> i < NBUF \<and> b_dev (bufs s i) = 1 \<and> b_sector (bufs s i) = sec"

text \<open>What a reader of a sector sees: the cached copy if there is a valid one, else the disk.\<close>

definition view :: "'a bcache_state_scheme \<Rightarrow> uint \<Rightarrow> bytes" where
  "view s sec = (case find (\<lambda>i. caches s sec i \<and> valid (bufs s i)) [0..<NBUF] of
      Some i \<Rightarrow> b_data (bufs s i) | None \<Rightarrow> disk s sec)"

definition pinned :: "'a bcache_state_scheme \<Rightarrow> nat set" where
  "pinned s = {i. i < NBUF \<and> (busy (bufs s i) \<or> dirty (bufs s i))}"

lemma find_Some_P: "find P xs = Some x \<Longrightarrow> P x \<and> x \<in> set xs"
  by (auto simp: find_Some_iff)

lemma bcache_inv_unique:
  "bcache_inv s \<Longrightarrow> caches s sec i \<Longrightarrow> caches s sec j \<Longrightarrow> i = j"
  by (auto simp: bcache_inv_def caches_def)

lemma view_cached:
  assumes "bcache_inv s" "caches s sec i" "valid (bufs s i)"
  shows "view s sec = b_data (bufs s i)"
proof -
  have "find (\<lambda>i. caches s sec i \<and> valid (bufs s i)) [0..<NBUF] = Some i"
  proof (cases "find (\<lambda>i. caches s sec i \<and> valid (bufs s i)) [0..<NBUF]")
    case None
    then show ?thesis using assms by (auto simp: find_None_iff caches_def)
  next
    case (Some j)
    then show ?thesis using assms bcache_inv_unique by (auto dest!: find_Some_P)
  qed
  then show ?thesis by (simp add: view_def)
qed

lemma view_uncached:
  "(\<And>i. caches s sec i \<Longrightarrow> \<not> valid (bufs s i)) \<Longrightarrow> view s sec = disk s sec"
  by (auto simp: view_def split: option.splits dest!: find_Some_P)

lemma view_upd_same:
  assumes "\<And>sec i. caches t sec i \<and> valid (bufs t i) \<longleftrightarrow> caches s sec i \<and> valid (bufs s i)"
    "\<And>i. i < NBUF \<Longrightarrow> b_dev (bufs s i) = 1 \<Longrightarrow> valid (bufs s i) \<Longrightarrow> b_data (bufs t i) = b_data (bufs s i)" "disk t = disk s"
  shows "view t = view s"
proof
  fix sec
  have "find (\<lambda>i. caches t sec i \<and> valid (bufs t i)) [0..<NBUF] = find (\<lambda>i. caches s sec i \<and> valid (bufs s i)) [0..<NBUF]"
    using assms(1) by simp
  then show "view t sec = view s sec"
    using assms(2,3) by (auto simp: view_def caches_def split: option.splits dest!: find_Some_P)
qed

section \<open>bread\<close>

text \<open>\<open>owns s i sec\<close>: the caller holds buffer \<open>i\<close>, which holds the valid contents of sector \<open>sec\<close>.\<close>

definition owns :: "'a bcache_state_scheme \<Rightarrow> nat \<Rightarrow> uint \<Rightarrow> bool" where
  "owns s i sec \<longleftrightarrow> caches s sec i \<and> busy (bufs s i) \<and> valid (bufs s i)"

lemma bget_cached:
  assumes "bcache_inv s" "caches s sec i" "\<not> busy (bufs s i)"
  shows "bget 1 sec s = Ok i (s\<lparr>bufs := (bufs s)(i := (bufs s i)\<lparr>b_flags := b_flags (bufs s i) OR B_BUSY\<rparr>)\<rparr>)"
proof -
  have "find (\<lambda>i. b_dev (bufs s i) = 1 \<and> b_sector (bufs s i) = sec) (lru s) = Some i"
  proof (cases "find (\<lambda>i. b_dev (bufs s i) = 1 \<and> b_sector (bufs s i) = sec) (lru s)")
    case None
    then show ?thesis using assms by (auto simp: find_None_iff caches_def bcache_inv_def)
  next
    case (Some j)
    then have "caches s sec j" using assms by (auto dest!: find_Some_P simp: caches_def bcache_inv_def)
    then show ?thesis using Some assms bcache_inv_unique by blast
  qed
  then show ?thesis using assms(3) by (simp add: bget_def flag_simps)
qed

lemma bget_recycle:
  assumes inv: "bcache_inv s" and new: "\<And>i. \<not> caches s sec i" and room: "pinned s \<noteq> {..<NBUF}"
  shows "\<exists>i < NBUF. \<not> busy (bufs s i) \<and> \<not> dirty (bufs s i) \<and>
     bget 1 sec s = Ok i (s\<lparr>bufs := (bufs s)(i := (bufs s i)\<lparr>b_dev := 1, b_sector := sec, b_flags := B_BUSY\<rparr>)\<rparr>)"
proof -
  have "find (\<lambda>i. b_dev (bufs s i) = 1 \<and> b_sector (bufs s i) = sec) (lru s) = None"
    using new inv by (auto simp: find_None_iff caches_def bcache_inv_def)
  moreover obtain k where "k < NBUF" "\<not> busy (bufs s k)" "\<not> dirty (bufs s k)"
    using room by (auto simp: pinned_def)
  moreover from this inv obtain i where
    i: "find (\<lambda>i. \<not> busy (bufs s i) \<and> \<not> dirty (bufs s i)) (rev (lru s)) = Some i"
    by (cases "find (\<lambda>i. \<not> busy (bufs s i) \<and> \<not> dirty (bufs s i)) (rev (lru s))")
      (auto simp: find_None_iff bcache_inv_def)
  ultimately show ?thesis using find_Some_P [OF i] inv
    by (intro exI [of _ i]) (auto simp: bget_def flag_simps bcache_inv_def)
qed

lemma bread_fills:
  assumes "bget 1 sec s = Ok i (s\<lparr>bufs := (bufs s)(i := b)\<rparr>)" "busy b" "b_dev b = 1" "b_sector b = sec"
    "valid b \<or> \<not> dirty b" "sec < disksize s"
  shows "\<exists>c. bread 1 sec s = Ok i (s\<lparr>bufs := (bufs s)(i := c)\<rparr>) \<and> busy c \<and> valid c \<and> b_dev c = 1 \<and> b_sector c = sec \<and>
     (dirty c \<longleftrightarrow> dirty b) \<and> b_data c = (if valid b then b_data b else disk s sec)"
proof (cases "valid b")
  case True
  then show ?thesis using assms
    by (intro exI [of _ b]) (simp add: bread_def get_buf_def kget_def kret_def flag_simps)
next
  case False
  then show ?thesis using assms
    by (intro exI [of _ "b\<lparr>b_data := disk s sec, b_flags := b_flags b OR B_VALID\<rparr>"])
      (simp add: bread_def get_buf_def set_buf_def kget_def kmod_def kseq_def kret_def iderw_read flag_simps)
qed

lemma bread_ok:
  assumes inv: "bcache_inv s" and rng: "sec < disksize s"
    and free: "\<And>i. caches s sec i \<Longrightarrow> \<not> busy (bufs s i)"
    and room: "(\<And>i. \<not> caches s sec i) \<Longrightarrow> pinned s \<noteq> {..<NBUF}"
  shows "\<exists>i b. bread 1 sec s = Ok i (s\<lparr>bufs := (bufs s)(i := b)\<rparr>) \<and> i < NBUF \<and> \<not> busy (bufs s i) \<and>
     busy b \<and> valid b \<and> b_dev b = 1 \<and> b_sector b = sec \<and> b_data b = view s sec \<and>
     (caches s sec i \<and> (dirty b \<longleftrightarrow> dirty (bufs s i)) \<or>
      (\<forall>j. \<not> caches s sec j) \<and> \<not> dirty b \<and> \<not> dirty (bufs s i))"
proof (cases "\<exists>i. caches s sec i")
  case True
  then obtain i where i: "caches s sec i" by blast
  then have i': "i < NBUF" "b_dev (bufs s i) = 1" "b_sector (bufs s i) = sec" by (auto simp: caches_def)
  have dv: "dirty (bufs s i) \<longrightarrow> valid (bufs s i)" using inv i' by (simp add: bcache_inv_def)
  have "view s sec = (if valid (bufs s i) then b_data (bufs s i) else disk s sec)"
    using view_cached [OF inv i] view_uncached [of s sec] bcache_inv_unique [OF inv i] by auto
  moreover let ?b = "(bufs s i)\<lparr>b_flags := b_flags (bufs s i) OR B_BUSY\<rparr>"
  have b: "busy ?b" "b_dev ?b = 1" "b_sector ?b = sec" "valid ?b \<or> \<not> dirty ?b" "valid ?b = valid (bufs s i)"
      "dirty ?b = dirty (bufs s i)"
    using i' dv by (auto simp: flag_simps)
  moreover obtain c where "bread 1 sec s = Ok i (s\<lparr>bufs := (bufs s)(i := c)\<rparr>)" "busy c" "valid c" "b_dev c = 1"
      "b_sector c = sec" "dirty c \<longleftrightarrow> dirty ?b" "b_data c = (if valid ?b then b_data ?b else disk s sec)"
    using bread_fills [OF bget_cached [OF inv i free [OF i]] b(1-4) rng] by blast
  ultimately show ?thesis using i i'(1) free [OF i] by (intro exI [of _ i] exI [of _ c]) simp
next
  case False
  then have new: "\<And>i. \<not> caches s sec i" by blast
  obtain i where i: "i < NBUF" "\<not> busy (bufs s i)" "\<not> dirty (bufs s i)"
    "bget 1 sec s = Ok i (s\<lparr>bufs := (bufs s)(i := (bufs s i)\<lparr>b_dev := 1, b_sector := sec, b_flags := B_BUSY\<rparr>)\<rparr>)"
    using bget_recycle [OF inv new room] new by auto
  have "view s sec = disk s sec" using view_uncached new by blast
  moreover let ?b = "(bufs s i)\<lparr>b_dev := 1, b_sector := sec, b_flags := B_BUSY\<rparr>"
  have b: "busy ?b" "b_dev ?b = 1" "b_sector ?b = sec" "valid ?b \<or> \<not> dirty ?b" "\<not> valid ?b" "\<not> dirty ?b"
    by (simp_all add: flag_simps)
  moreover obtain c where "bread 1 sec s = Ok i (s\<lparr>bufs := (bufs s)(i := c)\<rparr>)" "busy c" "valid c" "b_dev c = 1"
      "b_sector c = sec" "dirty c \<longleftrightarrow> dirty ?b" "b_data c = (if valid ?b then b_data ?b else disk s sec)"
    using bread_fills [OF i(4) b(1-4) rng] by blast
  ultimately show ?thesis using i(1-3) new by (intro exI [of _ i] exI [of _ c]) simp
qed

lemma bcache_frame [simp]:
  "disk (wakeup1 c s) = disk s" "disksize (wakeup1 c s) = disksize s" "wtrace (wakeup1 c s) = wtrace s"
  "bufs (wakeup1 c s) = bufs s" "lru (wakeup1 c s) = lru s"
  by (simp_all add: wakeup1_def)

lemma caches_cong: "bufs t = bufs s \<Longrightarrow> caches t = caches s"
  by (auto simp: caches_def fun_eq_iff)

lemma view_cong: "bufs t = bufs s \<Longrightarrow> disk t = disk s \<Longrightarrow> view t = view s"
  by (rule view_upd_same) (auto simp: caches_def)

lemma bcache_inv_cong:
  "bufs t = bufs s \<Longrightarrow> disk t = disk s \<Longrightarrow> lru t = lru s \<Longrightarrow> bcache_inv t = bcache_inv s"
  by (simp add: bcache_inv_def)

lemma owns_cong: "bufs t = bufs s \<Longrightarrow> owns t = owns s"
  by (auto simp: owns_def caches_def fun_eq_iff)

section \<open>What the operations do to the invariant and the view\<close>

text \<open>
  A buffer whose old contents may be dropped (it holds the same sector, or it is clean and the
  sector is not cached) is replaced by a valid buffer that the caller owns.
\<close>

lemma replace_buf_inv:
  assumes inv: "bcache_inv s" and i: "i < NBUF"
    and b: "busy b" "valid b" "b_dev b = 1" "b_sector b = sec"
    and old: "caches s sec i \<or> (\<forall>j. \<not> caches s sec j)"
  shows "bcache_inv (s\<lparr>bufs := (bufs s)(i := b)\<rparr>)" (is "bcache_inv ?t")
proof -
  have "j = i" if "j < NBUF" "b_dev (bufs s j) = 1" "b_sector (bufs s j) = sec" for j
    using old that bcache_inv_unique [OF inv] unfolding caches_def by blast
  then show ?thesis using inv i b unfolding bcache_inv_def by (auto split: if_splits)
qed

lemma replace_buf_view:
  assumes inv: "bcache_inv s" and i: "i < NBUF"
    and b: "busy b" "valid b" "b_dev b = 1" "b_sector b = sec"
    and old: "caches s sec i \<or> (\<forall>j. \<not> caches s sec j) \<and> \<not> dirty (bufs s i) \<and> \<not> busy (bufs s i)"
  shows "view (s\<lparr>bufs := (bufs s)(i := b)\<rparr>) = (view s)(sec := b_data b)" (is "view ?t = _")
proof
  fix x
  have invt: "bcache_inv ?t" using replace_buf_inv [OF inv i b] old by blast
  have ci: "caches ?t sec i" using i b by (simp add: caches_def)
  have other: "caches ?t x j \<longleftrightarrow> caches s x j" if "j \<noteq> i" for j using that by (simp add: caches_def)
  show "view ?t x = ((view s)(sec := b_data b)) x"
  proof (cases "x = sec")
    case True
    then show ?thesis using view_cached [OF invt ci] b by simp
  next
    case False
    then have nti: "\<not> caches ?t x i" using b by (simp add: caches_def)
    show ?thesis
    proof (cases "\<exists>j. j \<noteq> i \<and> caches s x j \<and> valid (bufs s j)")
      case True
      then obtain j where "j \<noteq> i" "caches s x j" "valid (bufs s j)" by blast
      then show ?thesis using view_cached [OF inv, of x j] view_cached [OF invt, of x j] other False by simp
    next
      case none: False
      then have "view ?t x = disk s x" using nti other by (subst view_uncached) auto
      moreover have "view s x = disk s x"
      proof (cases "caches s x i \<and> valid (bufs s i)")
        case True
        then have "\<not> caches s sec i" using False by (auto simp: caches_def)
        then have "\<not> dirty (bufs s i)" "\<not> busy (bufs s i)" using old by auto
        then have "b_data (bufs s i) = disk s x" using True inv by (auto simp: bcache_inv_def caches_def)
        then show ?thesis using view_cached [OF inv, of x i] True by simp
      next
        case False
        then show ?thesis using none by (intro view_uncached) metis
      qed
      ultimately show ?thesis using False by simp
    qed
  qed
qed

lemma bread_inv:
  assumes inv: "bcache_inv s" and rng: "sec < disksize s"
    and free: "\<And>i. caches s sec i \<Longrightarrow> \<not> busy (bufs s i)"
    and room: "(\<And>i. \<not> caches s sec i) \<Longrightarrow> pinned s \<noteq> {..<NBUF}"
  obtains i b where "bread 1 sec s = Ok i (s\<lparr>bufs := (bufs s)(i := b)\<rparr>)" "i < NBUF" "\<not> busy (bufs s i)"
    "bcache_inv (s\<lparr>bufs := (bufs s)(i := b)\<rparr>)" "view (s\<lparr>bufs := (bufs s)(i := b)\<rparr>) = view s"
    "owns (s\<lparr>bufs := (bufs s)(i := b)\<rparr>) i sec" "b_data b = view s sec" "b_dev b = 1" "b_sector b = sec"
    "busy b" "valid b"
    "dirty b \<longleftrightarrow> (\<exists>j. caches s sec j \<and> dirty (bufs s j))" "dirty (bufs s i) \<longrightarrow> caches s sec i"
proof -
  obtain i b where r: "bread 1 sec s = Ok i (s\<lparr>bufs := (bufs s)(i := b)\<rparr>)" "i < NBUF" "\<not> busy (bufs s i)"
      and b: "busy b" "valid b" "b_dev b = 1" "b_sector b = sec" "b_data b = view s sec"
      and old: "caches s sec i \<and> (dirty b \<longleftrightarrow> dirty (bufs s i)) \<or>
        (\<forall>j. \<not> caches s sec j) \<and> \<not> dirty b \<and> \<not> dirty (bufs s i)"
    using bread_ok [OF assms] by blast
  have old1: "caches s sec i \<or> (\<forall>j. \<not> caches s sec j)"
    and old2: "caches s sec i \<or> (\<forall>j. \<not> caches s sec j) \<and> \<not> dirty (bufs s i) \<and> \<not> busy (bufs s i)"
    using old r by blast+
  have "view (s\<lparr>bufs := (bufs s)(i := b)\<rparr>) = view s"
    using replace_buf_view [OF inv r(2) b(1-4) old2] b by simp
  moreover have "owns (s\<lparr>bufs := (bufs s)(i := b)\<rparr>) i sec" using r b by (simp add: owns_def caches_def)
  moreover have "dirty b \<longleftrightarrow> (\<exists>j. caches s sec j \<and> dirty (bufs s j))"
    using old bcache_inv_unique [OF inv] by blast
  ultimately show thesis using that r b old replace_buf_inv [OF inv r(2) b(1-4) old1] by blast
qed

lemma own_upd:
  assumes "bcache_inv s" "owns s i sec" "busy c" "valid c" "b_dev c = 1" "b_sector c = sec"
  shows "bcache_inv (s\<lparr>bufs := (bufs s)(i := c)\<rparr>)"
    "view (s\<lparr>bufs := (bufs s)(i := c)\<rparr>) = (view s)(sec := b_data c)"
    "owns (s\<lparr>bufs := (bufs s)(i := c)\<rparr>) i sec"
  using assms replace_buf_inv [of s i c sec] replace_buf_view [of s i c sec] by (auto simp: owns_def caches_def)

lemma view_cong_at: "bufs t = bufs s \<Longrightarrow> disk t x = disk s x \<Longrightarrow> view t x = view s x"
  by (simp add: view_def caches_def cong: option.case_cong)

lemma bcache_inv_disk:
  assumes "bcache_inv s" and "bufs t = bufs s" "lru t = lru s" "disk t = (disk s)(sec := d)"
    and "\<And>j. caches s sec j \<Longrightarrow> busy (bufs s j)"
  shows "bcache_inv t"
  using assms unfolding bcache_inv_def caches_def by auto

lemma bwrite_ok:
  assumes "owns s i sec" "sec < disksize s"
  shows "bwrite i s = Ok () (s\<lparr>bufs := (bufs s)(i := (bufs s i)\<lparr>b_flags := (b_flags (bufs s i) OR B_DIRTY) AND NOT B_DIRTY OR B_VALID\<rparr>),
     disk := (disk s)(sec := b_data (bufs s i)), wtrace := wtrace s @ [(sec, b_data (bufs s i))]\<rparr>)"
  using assms
  by (simp add: bwrite_def get_buf_def kget_def set_buf_def kmod_def iderw_write owns_def caches_def flag_simps)

lemma bwrite_inv:
  assumes inv: "bcache_inv s" and own: "owns s i sec" and rng: "sec < disksize s"
  obtains c t where "bwrite i s = Ok () t"
    "t = s\<lparr>bufs := (bufs s)(i := c), disk := (disk s)(sec := b_data (bufs s i)),
      wtrace := wtrace s @ [(sec, b_data (bufs s i))]\<rparr>"
    "busy c" "valid c" "\<not> dirty c" "b_dev c = 1" "b_sector c = sec" "b_data c = b_data (bufs s i)"
    "bcache_inv t" "view t = view s" "owns t i sec"
proof -
  let ?c = "(bufs s i)\<lparr>b_flags := (b_flags (bufs s i) OR B_DIRTY) AND NOT B_DIRTY OR B_VALID\<rparr>"
  let ?t = "s\<lparr>bufs := (bufs s)(i := ?c), disk := (disk s)(sec := b_data (bufs s i)),
      wtrace := wtrace s @ [(sec, b_data (bufs s i))]\<rparr>"
  have c: "busy ?c" "valid ?c" "\<not> dirty ?c" "b_dev ?c = 1" "b_sector ?c = sec" "b_data ?c = b_data (bufs s i)"
    using own by (simp_all add: owns_def caches_def flag_simps)
  note upd = own_upd [OF inv own c(1,2,4,5)]
  have i: "caches s sec i" using own by (simp add: owns_def)
  have invt: "bcache_inv ?t"
  proof (rule bcache_inv_disk [OF upd(1)])
    fix j assume "caches (s\<lparr>bufs := (bufs s)(i := ?c)\<rparr>) sec j"
    then have "j = i" using bcache_inv_unique [OF upd(1)] upd(3) by (auto simp: owns_def)
    then show "busy (bufs (s\<lparr>bufs := (bufs s)(i := ?c)\<rparr>) j)" using c(1) by simp
  qed simp_all
  have ownt: "owns ?t i sec" using upd(3) by (simp add: owns_def caches_def)
  have "view ?t x = view s x" for x
  proof (cases "x = sec")
    case True
    then show ?thesis
      using view_cached [OF invt, of sec i] view_cached [OF inv, of sec i] ownt own by (simp add: owns_def)
  next
    case False
    then have "view ?t x = view (s\<lparr>bufs := (bufs s)(i := ?c)\<rparr>) x" by (intro view_cong_at) simp_all
    then show ?thesis using upd(2) False by simp
  qed
  then have "view ?t = view s" by blast
  from that [OF bwrite_ok [OF own rng] refl c invt this ownt] show thesis .
qed

lemma brelse_inv:
  assumes inv: "bcache_inv s" and own: "owns s i sec" and keep: "dirty (bufs s i) \<or> b_data (bufs s i) = disk s sec"
  obtains c t where "brelse i s = Ok () t"
    "t = wakeup1 (ChanBuf i) (s\<lparr>lru := i # remove1 i (lru s), bufs := (bufs s)(i := c)\<rparr>)"
    "\<not> busy c" "valid c" "dirty c \<longleftrightarrow> dirty (bufs s i)" "b_dev c = 1" "b_sector c = sec"
    "b_data c = b_data (bufs s i)" "bcache_inv t" "view t = view s"
proof -
  let ?c = "(bufs s i)\<lparr>b_flags := b_flags (bufs s i) AND NOT B_BUSY\<rparr>"
  let ?t = "wakeup1 (ChanBuf i) (s\<lparr>lru := i # remove1 i (lru s), bufs := (bufs s)(i := ?c)\<rparr>)"
  have i: "caches s sec i" "i < NBUF" "busy (bufs s i)" "valid (bufs s i)" "b_dev (bufs s i) = 1" "b_sector (bufs s i) = sec"
    using own by (auto simp: owns_def caches_def)
  have c: "\<not> busy ?c" "valid ?c" "dirty ?c \<longleftrightarrow> dirty (bufs s i)" "b_dev ?c = 1" "b_sector ?c = sec"
    "b_data ?c = b_data (bufs s i)" using i by (simp_all add: flag_simps)
  have run: "brelse i s = Ok () ?t"
    using i(3) by (simp add: brelse_def get_buf_def kget_def set_buf_def kmod_def kseq_def flag_simps)
  have same: "b_dev (bufs ?t j) = b_dev (bufs s j)" "b_sector (bufs ?t j) = b_sector (bufs s j)"
    "b_data (bufs ?t j) = b_data (bufs s j)" "valid (bufs ?t j) = valid (bufs s j)" "dirty (bufs ?t j) = dirty (bufs s j)"
    "busy (bufs ?t j) \<longleftrightarrow> busy (bufs s j) \<and> j \<noteq> i" for j
    using c i by auto
  have lru: "distinct (lru ?t)" "set (lru ?t) = {..<NBUF}"
    using inv i(2) by (auto simp: bcache_inv_def)
  have "bcache_inv ?t"
    unfolding bcache_inv_def same using inv i keep lru by (auto simp: bcache_inv_def)
  moreover have "view ?t = view s"
    by (rule view_upd_same) (use c i in \<open>auto simp: caches_def\<close>)
  ultimately show thesis using that [OF run refl c] by blast
qed

lemma binit_from_eq:
  "binit_from is s = s\<lparr>bufs := (\<lambda>i. if i \<in> set is then (bufs s i)\<lparr>b_dev := - 1\<rparr> else bufs s i), lru := rev is @ lru s\<rparr>"
  by (induction "is" arbitrary: s) (auto intro!: arg_cong2 [where f = "\<lambda>a b. s\<lparr>bufs := a, lru := b\<rparr>" for s])

lemma binit_inv: "wp binit (\<lambda>_ t. bcache_inv t \<and> pinned t = {i. i < NBUF \<and> (busy (bufs s i) \<or> dirty (bufs s i))} \<and>
    view t = disk s) (s :: 'a bcache_state_scheme)"
  if "\<forall>i < NBUF. dirty (bufs s i) \<longrightarrow> valid (bufs s i)"
proof -
  have "view (binit_from [0..<NBUF] (s\<lparr>lru := []\<rparr>)) = disk s"
    by (rule ext, subst view_uncached) (auto simp: binit_from_eq caches_def)
  then show ?thesis using that
    by (auto simp: binit_def wp_kmod binit_from_eq bcache_inv_def pinned_def atLeast0LessThan)
qed

section \<open>Properties\<close>

text \<open>
  C16: \<open>bread\<close> on a sector that no one else holds returns a buffer that the caller now owns and that holds
  exactly what any reader of that sector should see (the latest cached contents, or the disk's);
  nothing another reader can see changes, a buffer with uncommitted changes is never recycled for another sector,
  and the cache invariant (one buffer per sector, clean unowned buffers agree with the disk) is kept.
\<close>

theorem bread_returns_view:
  assumes "bcache_inv s" and "sec < disksize s"
    and "\<forall>i. caches s sec i \<longrightarrow> \<not> busy (bufs s i)" and "(\<exists>i. caches s sec i) \<or> pinned s \<noteq> {..<NBUF}"
  shows "wp (bread 1 sec) (\<lambda>i t. owns t i sec \<and> b_data (bufs t i) = view s sec \<and> view t = view s \<and> bcache_inv t \<and>
     disk t = disk s \<and> (\<forall>j. j \<noteq> i \<longrightarrow> bufs t j = bufs s j) \<and> (dirty (bufs s i) \<longrightarrow> caches s sec i)) s"
proof -
  obtain i b where "bread 1 sec s = Ok i (s\<lparr>bufs := (bufs s)(i := b)\<rparr>)"
    "bcache_inv (s\<lparr>bufs := (bufs s)(i := b)\<rparr>)" "view (s\<lparr>bufs := (bufs s)(i := b)\<rparr>) = view s"
    "owns (s\<lparr>bufs := (bufs s)(i := b)\<rparr>) i sec" "b_data b = view s sec" "dirty (bufs s i) \<longrightarrow> caches s sec i"
    using bread_inv [of s sec] assms by metis
  then show ?thesis by (simp add: wp_def)
qed

definition fresh_cache :: "uint \<Rightarrow> bcache_state" where
  "fresh_cache n = \<lparr>mem = (\<lambda>_. 0), freelist = 0, use_lock = False, kend = 0, ptab = (\<lambda>_. undefined), cur = None,
     initproc = None, nextpid = 1, disk = (\<lambda>sec i. ucast sec), disksize = n, wtrace = [],
     bufs = (\<lambda>_. \<lparr>b_flags = 0, b_dev = - 1, b_sector = 0, b_data = (\<lambda>_. 0)\<rparr>), lru = rev [0..<NBUF]\<rparr>"

lemma fresh_cache_inv:
  "bcache_inv (fresh_cache n)" "\<not> caches (fresh_cache n) sec i" "pinned (fresh_cache n) = {}"
  "disksize (fresh_cache n) = n" "pinned (fresh_cache n) \<noteq> {..<NBUF}"
proof -
  show p: "pinned (fresh_cache n) = {}" by (auto simp: fresh_cache_def pinned_def)
  have "0 \<in> {..<30::nat}" by simp
  then show "pinned (fresh_cache n) \<noteq> {..<NBUF}" unfolding p by blast
qed (auto simp: fresh_cache_def bcache_inv_def caches_def pinned_def atLeast0LessThan)

theorem bread_returns_view_witness:
  "wp (bread 1 7) (\<lambda>i t. owns t i 7 \<and> b_data (bufs t i) = view (fresh_cache 100) 7) (fresh_cache 100)"
  by (rule wp_mono [OF bread_returns_view]) (use fresh_cache_inv [of 100] in auto)

text \<open>
  C17: writing through the cache is durable and visible. The owner of a buffer who changes its data to \<open>d\<close>,
  writes it and releases it leaves \<open>d\<close> in the sector on disk and in what every later reader sees, and
  changes no other sector; the buffer is unowned again and the invariant holds.
\<close>

theorem bwrite_brelse_durable:
  assumes "bcache_inv s" and "owns s i sec" and "sec < disksize s"
  shows "wp (kseq (set_buf i ((bufs s i)\<lparr>b_data := d\<rparr>)) (kseq (bwrite i) (brelse i)))
     (\<lambda>_ t. disk t = (disk s)(sec := d) \<and> view t = (view s)(sec := d) \<and> bcache_inv t \<and>
        \<not> busy (bufs t i) \<and> \<not> dirty (bufs t i) \<and> lru t = i # remove1 i (lru s)) s"
proof -
  let ?b = "(bufs s i)\<lparr>b_data := d\<rparr>"
  let ?u = "s\<lparr>bufs := (bufs s)(i := ?b)\<rparr>"
  have "busy ?b" "valid ?b" "b_dev ?b = 1" "b_sector ?b = sec"
    using assms(2) by (simp_all add: owns_def caches_def)
  note u = own_upd [OF assms(1,2) this]
  have rng: "sec < disksize ?u" using assms(3) by simp
  obtain c v where w: "bwrite i ?u = Ok () v" "v = ?u\<lparr>bufs := (bufs ?u)(i := c),
      disk := (disk ?u)(sec := b_data (bufs ?u i)), wtrace := wtrace ?u @ [(sec, b_data (bufs ?u i))]\<rparr>"
      "\<not> dirty c" "b_data c = b_data (bufs ?u i)" "bcache_inv v" "view v = view ?u" "owns v i sec"
    using bwrite_inv [OF u(1,3) rng] by blast
  have "dirty (bufs v i) \<or> b_data (bufs v i) = disk v sec" using w by simp
  then obtain e x where r: "brelse i v = Ok () x"
      "x = wakeup1 (ChanBuf i) (v\<lparr>lru := i # remove1 i (lru v), bufs := (bufs v)(i := e)\<rparr>)"
      "\<not> busy e" "dirty e \<longleftrightarrow> dirty (bufs v i)" "bcache_inv x" "view x = view v"
    using brelse_inv [OF w(5,7)] by metis
  have "bwrite i (s\<lparr>bufs := (bufs s)(i := ?b)\<rparr>) = Ok () v" using w(1) .
  then show ?thesis using r w u(2)
    by (simp add: wp_rules set_buf_def) (simp add: wp_def)
qed

theorem bwrite_brelse_durable_witness:
  "\<exists>i t. bread 1 7 (fresh_cache 100) = Ok i t \<and>
     wp (kseq (set_buf i ((bufs t i)\<lparr>b_data := (\<lambda>_. 5)\<rparr>)) (kseq (bwrite i) (brelse i)))
       (\<lambda>_ u. disk u = (disk t)(7 := (\<lambda>_. 5))) t"
proof -
  have nb: "\<And>i. caches (fresh_cache 100) 7 i \<Longrightarrow> \<not> busy (bufs (fresh_cache 100) i)"
    and room: "pinned (fresh_cache 100) \<noteq> {..<NBUF}" and rng: "7 < disksize (fresh_cache 100)"
    using fresh_cache_inv [of 100] by simp_all
  obtain i b where r: "bread 1 7 (fresh_cache 100) = Ok i (fresh_cache 100\<lparr>bufs := (bufs (fresh_cache 100))(i := b)\<rparr>)"
    "bcache_inv (fresh_cache 100\<lparr>bufs := (bufs (fresh_cache 100))(i := b)\<rparr>)"
    "owns (fresh_cache 100\<lparr>bufs := (bufs (fresh_cache 100))(i := b)\<rparr>) i 7"
    using bread_inv [OF fresh_cache_inv(1) rng nb room] by blast
  show ?thesis
    using r bwrite_brelse_durable [OF r(2,3), of "\<lambda>_. 5"] rng
    by (intro exI [of _ i] exI conjI) (auto elim!: wp_mono)
qed

end
