(* ===== verification/Bio_Own.thy ===== *)
theory Bio_Own
  imports Bio
begin

text \<open>
  The ownership discipline of the buffer cache, as rules for the programs that use it (\<^verbatim>\<open>log.c\<close>, \<^verbatim>\<open>fs.c\<close>).
  \<open>bc s H D\<close>: the cache invariant holds, \<open>H\<close> maps the buffers that are held to their sectors, and
  \<open>D\<close> is the set of sectors whose buffer has uncommitted changes (\<^verbatim>\<open>B_DIRTY\<close>). Together with \<open>view\<close> and \<open>disk\<close>
  this is all a client has to know: each rule gives the weakest precondition of a cache operation in these terms.
\<close>

definition bc :: "'a bcache_state_scheme \<Rightarrow> (nat \<rightharpoonup> uint) \<Rightarrow> uint set \<Rightarrow> bool" where
  "bc s H D \<longleftrightarrow> bcache_inv s \<and> (\<forall>i < NBUF. busy (bufs s i) \<longrightarrow> i \<in> dom H) \<and> (\<forall>i sec. H i = Some sec \<longrightarrow> owns s i sec) \<and>
     (\<forall>i < NBUF. dirty (bufs s i) \<longrightarrow> b_dev (bufs s i) = 1) \<and> D = {sec. \<exists>i. caches s sec i \<and> dirty (bufs s i)}"

text \<open>
  What the cache operations leave alone: every component of the state but the cache, the disk and the process table,
  where they can only make sleeping processes runnable.
\<close>

definition woken :: "(nat \<Rightarrow> proc) \<Rightarrow> (nat \<Rightarrow> proc) \<Rightarrow> bool" where
  "woken P Q \<longleftrightarrow> (\<forall>i. Q i = P i \<or> p_state (P i) = SLEEPING \<and> Q i = (P i)\<lparr>p_state := RUNNABLE\<rparr>)"

definition bio_frame :: "'a bcache_state_scheme \<Rightarrow> 'a bcache_state_scheme \<Rightarrow> bool" where
  "bio_frame s t \<longleftrightarrow> t = s\<lparr>ptab := ptab t, disk := disk t, wtrace := wtrace t, bufs := bufs t, lru := lru t\<rparr> \<and>
     woken (ptab s) (ptab t)"

lemma woken_refl [simp]: "woken P P"
  by (simp add: woken_def)

lemma woken_trans: "woken P Q \<Longrightarrow> woken Q R \<Longrightarrow> woken P R"
  unfolding woken_def by (metis proc.select_convs(4) proc.update_convs(4) proc.surjective)

lemma woken_wakeup1: "woken (ptab s) (ptab (wakeup1 c s))"
  by (auto simp: woken_def wakeup1_def)

lemma bio_frameE:
  assumes "bio_frame s t"
  obtains p d w b l where "t = s\<lparr>ptab := p, disk := d, wtrace := w, bufs := b, lru := l\<rparr>" "woken (ptab s) p"
  using assms unfolding bio_frame_def by blast

lemma bio_frameI:
  "t = s\<lparr>ptab := p, disk := d, wtrace := w, bufs := b, lru := l\<rparr> \<Longrightarrow> woken (ptab s) p \<Longrightarrow> bio_frame s t"
  by (simp add: bio_frame_def)

lemma bio_frame_refl [simp]: "bio_frame s s"
  by (simp add: bio_frame_def)

lemma bio_frame_trans: "bio_frame s t \<Longrightarrow> bio_frame t u \<Longrightarrow> bio_frame s u"
  by (auto elim!: bio_frameE intro!: bio_frameI [OF refl] intro: woken_trans)

lemma bio_frame_fields:
  assumes "bio_frame s t"
  shows "disksize t = disksize s" "mem t = mem s" "freelist t = freelist s" "use_lock t = use_lock s" "kend t = kend s"
    "cur t = cur s" "initproc t = initproc s" "nextpid t = nextpid s"
  using assms by (auto elim!: bio_frameE)

section \<open>Held buffers\<close>

lemma bc_own: "bc s H D \<Longrightarrow> H i = Some sec \<Longrightarrow> owns s i sec"
  by (simp add: bc_def)

lemma bc_inv: "bc s H D \<Longrightarrow> bcache_inv s"
  by (simp add: bc_def)

lemma bc_data: "bc s H D \<Longrightarrow> H i = Some sec \<Longrightarrow> b_data (bufs s i) = view s sec"
  using view_cached [of s sec i] by (auto simp: bc_def owns_def)

lemma bc_sector: "bc s H D \<Longrightarrow> H i = Some sec \<Longrightarrow> b_sector (bufs s i) = sec"
  by (auto simp: bc_def owns_def caches_def)

lemma bc_busy: "bc s H D \<Longrightarrow> H i = Some sec \<Longrightarrow> busy (bufs s i)"
  by (auto simp: bc_def owns_def)

lemma bc_dirty: "bc s H D \<Longrightarrow> H i = Some sec \<Longrightarrow> dirty (bufs s i) \<longleftrightarrow> sec \<in> D"
  using bcache_inv_unique [of s sec i] by (auto simp: bc_def owns_def)

lemma bc_dom: "bc s H D \<Longrightarrow> dom H \<subseteq> {..<NBUF}"
  by (fastforce simp: bc_def owns_def caches_def)

lemma bc_inj: "bc s H D \<Longrightarrow> H i = Some sec \<Longrightarrow> H j = Some sec \<Longrightarrow> i = j"
  using bcache_inv_unique [of s sec i j] by (auto simp: bc_def owns_def)

lemma bc_finite: "bc s H D \<Longrightarrow> finite (ran H \<union> D)"
proof -
  assume bc: "bc s H D"
  have "ran H \<union> D \<subseteq> (\<lambda>i. b_sector (bufs s i)) ` {..<NBUF}"
    using bc by (fastforce simp: bc_def owns_def caches_def ran_def)
  then show ?thesis by (rule finite_subset) simp
qed

lemma bc_room:
  assumes bc: "bc s H D" and room: "card (ran H \<union> D) < NBUF"
  shows "pinned s \<noteq> {..<NBUF}"
proof
  assume p: "pinned s = {..<NBUF}"
  have cached: "caches s (b_sector (bufs s i)) i" "b_sector (bufs s i) \<in> ran H \<union> D" if "i < NBUF" for i
  proof -
    have "busy (bufs s i) \<or> dirty (bufs s i)" using p that by (auto simp: pinned_def)
    moreover have "busy (bufs s i) \<longrightarrow> i \<in> dom H" using bc that by (simp add: bc_def)
    ultimately consider sec where "H i = Some sec" | "dirty (bufs s i)" by blast
    then show "caches s (b_sector (bufs s i)) i" "b_sector (bufs s i) \<in> ran H \<union> D"
      using bc that by (cases; auto simp: bc_def owns_def caches_def intro: ranI)+
  qed
  have "inj_on (\<lambda>i. b_sector (bufs s i)) {..<NBUF}"
    by (rule inj_onI) (metis bc_inv [OF bc] bcache_inv_unique cached(1) lessThan_iff)
  then have "card {..<NBUF} \<le> card (ran H \<union> D)"
    using cached(2) bc_finite [OF bc] by (intro card_inj_on_le) auto
  then show False using room by simp
qed

lemma bc_free:
  assumes "bc s H D" "sec \<notin> ran H" "caches s sec i"
  shows "\<not> busy (bufs s i)"
proof
  assume "busy (bufs s i)"
  then obtain x where x: "H i = Some x" using assms by (auto simp: bc_def caches_def)
  then have "x = sec" using bc_sector [OF assms(1) x] assms(3) by (simp add: caches_def)
  then show False using x assms(2) by (auto intro: ranI)
qed

lemma bc_intro:
  assumes "bcache_inv s" "\<And>i. i < NBUF \<Longrightarrow> busy (bufs s i) \<Longrightarrow> i \<in> dom H" "\<And>i sec. H i = Some sec \<Longrightarrow> owns s i sec"
    "\<And>i. i < NBUF \<Longrightarrow> dirty (bufs s i) \<Longrightarrow> b_dev (bufs s i) = 1"
    "\<And>sec. sec \<in> D \<longleftrightarrow> (\<exists>i. caches s sec i \<and> dirty (bufs s i))"
  shows "bc s H D"
  using assms unfolding bc_def by blast

lemma bc_mem: "bc s H D \<Longrightarrow> sec \<in> D \<longleftrightarrow> (\<exists>i. caches s sec i \<and> dirty (bufs s i))"
  by (simp add: bc_def)

lemma bc_update:
  assumes bc: "bc s H D" and inv: "bcache_inv t" and b: "bufs t = (bufs s)(i := b)"
    and i: "i < NBUF" "valid b" "b_dev b = 1" "b_sector b = sec"
    and old: "caches s sec i \<or> \<not> dirty (bufs s i) \<and> i \<notin> dom H"
  shows "bc t (if busy b then H(i \<mapsto> sec) else H(i := None)) (if dirty b then insert sec D else D - {sec})"
proof (rule bc_intro [OF inv])
  let ?H = "if busy b then H(i \<mapsto> sec) else H(i := None)"
  have c: "caches t x j \<longleftrightarrow> (if j = i then x = sec else caches s x j)" for x j
    using b i by (auto simp: caches_def)
  fix j x
  show "owns t j x" if "?H j = Some x"
  proof (cases "j = i")
    case True
    then show ?thesis using that b i c [of x i] by (simp add: owns_def split: if_splits)
  next
    case False
    then have "H j = Some x" using that by (simp split: if_splits)
    then show ?thesis using False bc_own [OF bc] b c [of x j] by (simp add: owns_def)
  qed
  show "j \<in> dom ?H" if "j < NBUF" "busy (bufs t j)"
  proof (cases "j = i")
    case False
    then have "j \<in> dom H" using that bc b by (simp add: bc_def)
    then show ?thesis using False by auto
  qed (use that b in auto)
  show "b_dev (bufs t j) = 1" if "j < NBUF" "dirty (bufs t j)"
  proof (cases "j = i")
    case False
    then show ?thesis using that bc b by (simp add: bc_def)
  qed (use i b in auto)
  show "x \<in> (if dirty b then insert sec D else D - {sec}) \<longleftrightarrow> (\<exists>j. caches t x j \<and> dirty (bufs t j))"
  proof (cases "x = sec")
    case True
    have "caches t sec j \<Longrightarrow> j = i" for j
      using bcache_inv_unique [OF inv, of sec i j] c [of sec i] by simp
    then have "(\<exists>j. caches t sec j \<and> dirty (bufs t j)) \<longleftrightarrow> dirty b" using b c [of sec i] by (metis fun_upd_same)
    then show ?thesis using True by simp
  next
    case False
    then have "\<not> (caches s x i \<and> dirty (bufs s i))" using old by (auto simp: caches_def)
    then have "x \<in> D \<longleftrightarrow> (\<exists>j. j \<noteq> i \<and> caches s x j \<and> dirty (bufs s j))" using bc_mem [OF bc] by metis
    also have "\<dots> \<longleftrightarrow> (\<exists>j. caches t x j \<and> dirty (bufs t j))"
      using False b c by (metis fun_upd_other)
    finally show ?thesis using False by simp
  qed
qed

section \<open>Rules for the cache operations\<close>

lemma bread_rule:
  assumes bc: "bc s H D" and new: "sec \<notin> ran H" and rng: "sec < disksize s"
    and room: "card (ran H \<union> D) < NBUF \<or> sec \<in> D"
    and post: "\<And>i t. H i = None \<Longrightarrow> bc t (H(i \<mapsto> sec)) D \<Longrightarrow> view t = view s \<Longrightarrow> disk t = disk s \<Longrightarrow>
        wtrace t = wtrace s \<Longrightarrow> bio_frame s t \<Longrightarrow> Q i t"
  shows "wp (bread 1 sec) Q s"
proof -
  have room': "(\<And>i. \<not> caches s sec i) \<Longrightarrow> pinned s \<noteq> {..<NBUF}"
    using room bc_room [OF bc] bc by (auto simp: bc_def)
  obtain i b where r: "bread 1 sec s = Ok i (s\<lparr>bufs := (bufs s)(i := b)\<rparr>)" "i < NBUF" "\<not> busy (bufs s i)"
    and inv: "bcache_inv (s\<lparr>bufs := (bufs s)(i := b)\<rparr>)" and v: "view (s\<lparr>bufs := (bufs s)(i := b)\<rparr>) = view s"
    and b: "b_dev b = 1" "b_sector b = sec" "busy b" "valid b"
    and d: "dirty b \<longleftrightarrow> (\<exists>j. caches s sec j \<and> dirty (bufs s j))" "dirty (bufs s i) \<longrightarrow> caches s sec i"
    by (rule bread_inv [OF bc_inv [OF bc] rng bc_free [OF bc new] room'])
  have Hi: "H i = None" using r(3) bc_busy [OF bc, of i] by (cases "H i") auto
  let ?t = "s\<lparr>bufs := (bufs s)(i := b)\<rparr>"
  have "bc ?t (H(i \<mapsto> sec)) (if dirty b then insert sec D else D - {sec})"
    using bc_update [OF bc inv _ r(2) b(4,1,2)] d(2) b(3) Hi by (auto simp: domIff split del: if_split)
  moreover have "(if dirty b then insert sec D else D - {sec}) = D" using d(1) bc by (auto simp: bc_def)
  moreover have "bio_frame s ?t" by (simp add: bio_frame_def)
  ultimately show ?thesis using post [OF Hi, of ?t] v unfolding wp_def r(1) by simp
qed

text \<open>The owner of a buffer replaces its contents.\<close>

lemma set_data_rule:
  assumes bc: "bc s H D" and own: "H i = Some sec"
    and post: "\<And>t. bc t H D \<Longrightarrow> view t = (view s)(sec := d) \<Longrightarrow> disk t = disk s \<Longrightarrow> wtrace t = wtrace s \<Longrightarrow>
        bio_frame s t \<Longrightarrow> Q () t"
  shows "wp (set_buf i ((bufs s i)\<lparr>b_data := d\<rparr>)) Q s"
proof -
  let ?b = "(bufs s i)\<lparr>b_data := d\<rparr>"
  let ?t = "s\<lparr>bufs := (bufs s)(i := ?b)\<rparr>"
  have o: "owns s i sec" using bc_own [OF bc own] .
  then have b: "busy ?b" "valid ?b" "b_dev ?b = 1" "b_sector ?b = sec" "i < NBUF" "caches s sec i"
    by (auto simp: owns_def caches_def)
  note u = own_upd [OF bc_inv [OF bc] o b(1-4)]
  have "bc ?t (H(i \<mapsto> sec)) (if dirty ?b then insert sec D else D - {sec})"
    using bc_update [OF bc u(1), of i ?b sec] b by auto
  moreover have "(if dirty ?b then insert sec D else D - {sec}) = D" using bc_dirty [OF bc own] by auto
  moreover have "H(i \<mapsto> sec) = H" using own by auto
  moreover have "bio_frame s ?t" by (simp add: bio_frame_def)
  ultimately show ?thesis using post [of ?t] u(2) by (simp add: set_buf_def wp_rules)
qed

lemma bwrite_rule:
  assumes bc: "bc s H D" and own: "H i = Some sec" and rng: "sec < disksize s"
    and post: "\<And>t. bc t H (D - {sec}) \<Longrightarrow> view t = view s \<Longrightarrow> disk t = (disk s)(sec := view s sec) \<Longrightarrow>
        wtrace t = wtrace s @ [(sec, view s sec)] \<Longrightarrow> bio_frame s t \<Longrightarrow> Q () t"
  shows "wp (bwrite i) Q s"
proof -
  have o: "owns s i sec" using bc_own [OF bc own] .
  obtain c t where r: "bwrite i s = Ok () t"
    "t = s\<lparr>bufs := (bufs s)(i := c), disk := (disk s)(sec := b_data (bufs s i)),
      wtrace := wtrace s @ [(sec, b_data (bufs s i))]\<rparr>"
    "busy c" "valid c" "\<not> dirty c" "b_dev c = 1" "b_sector c = sec" "bcache_inv t" "view t = view s"
    by (rule bwrite_inv [OF bc_inv [OF bc] o rng])
  have "bc t (H(i \<mapsto> sec)) (D - {sec})"
    using bc_update [OF bc r(8), of i c sec] r(2-7) o by (auto simp: owns_def caches_def)
  moreover have "H(i \<mapsto> sec) = H" using own by auto
  moreover have "bio_frame s t" unfolding r(2) by (simp add: bio_frame_def)
  ultimately show ?thesis using post [of t] r(2,9) bc_data [OF bc own] unfolding wp_def r(1) by simp
qed

lemma brelse_rule:
  assumes bc: "bc s H D" and own: "H i = Some sec" and keep: "sec \<in> D \<or> view s sec = disk s sec"
    and post: "\<And>t. bc t (H(i := None)) D \<Longrightarrow> view t = view s \<Longrightarrow> disk t = disk s \<Longrightarrow>
        wtrace t = wtrace s \<Longrightarrow> bio_frame s t \<Longrightarrow> Q () t"
  shows "wp (brelse i) Q s"
proof -
  have o: "owns s i sec" using bc_own [OF bc own] .
  have k: "dirty (bufs s i) \<or> b_data (bufs s i) = disk s sec"
    using keep bc_data [OF bc own] bc_dirty [OF bc own] by auto
  obtain c t where r: "brelse i s = Ok () t"
    "t = wakeup1 (ChanBuf i) (s\<lparr>lru := i # remove1 i (lru s), bufs := (bufs s)(i := c)\<rparr>)"
    "\<not> busy c" "valid c" "dirty c \<longleftrightarrow> dirty (bufs s i)" "b_dev c = 1" "b_sector c = sec" "bcache_inv t" "view t = view s"
    using brelse_inv [OF bc_inv [OF bc] o k] by metis
  have b: "bufs t = (bufs s)(i := c)" using r(2) by simp
  have "bc t (H(i := None)) (if dirty c then insert sec D else D - {sec})"
    using bc_update [OF bc r(8) b] r(3-7) o by (auto simp: owns_def caches_def)
  moreover have "(if dirty c then insert sec D else D - {sec}) = D" using bc_dirty [OF bc own] r(5) by auto
  moreover have "bio_frame s t"
    unfolding r(2) bio_frame_def using woken_wakeup1 [of "s\<lparr>lru := i # remove1 i (lru s), bufs := (bufs s)(i := c)\<rparr>"]
    by (simp add: wakeup1_def)
  ultimately show ?thesis using post [of t] r(2,9) unfolding wp_def r(1) by simp
qed

text \<open>The owner pins a buffer in the cache: \<^verbatim>\<open>b->flags |= B_DIRTY\<close>.\<close>

lemma pin_rule:
  assumes bc: "bc s H D" and own: "H i = Some sec"
    and post: "\<And>t. bc t H (insert sec D) \<Longrightarrow> view t = view s \<Longrightarrow> disk t = disk s \<Longrightarrow> wtrace t = wtrace s \<Longrightarrow>
        bio_frame s t \<Longrightarrow> Q () t"
  shows "wp (set_buf i ((bufs s i)\<lparr>b_flags := b_flags (bufs s i) OR B_DIRTY\<rparr>)) Q s"
proof -
  let ?b = "(bufs s i)\<lparr>b_flags := b_flags (bufs s i) OR B_DIRTY\<rparr>"
  let ?t = "s\<lparr>bufs := (bufs s)(i := ?b)\<rparr>"
  have o: "owns s i sec" using bc_own [OF bc own] .
  then have b: "busy ?b" "valid ?b" "b_dev ?b = 1" "b_sector ?b = sec" "dirty ?b" "i < NBUF" "caches s sec i"
    by (auto simp: owns_def caches_def flag_simps)
  note u = own_upd [OF bc_inv [OF bc] o b(1-4)]
  have "bc ?t (H(i \<mapsto> sec)) (insert sec D)"
    using bc_update [OF bc u(1), of i ?b sec] b by auto
  moreover have "H(i \<mapsto> sec) = H" using own by auto
  moreover have "view ?t = view s" using u(2) bc_data [OF bc own] by auto
  moreover have "bio_frame s ?t" by (simp add: bio_frame_def)
  ultimately show ?thesis using post [of ?t] by (simp add: set_buf_def wp_rules)
qed

text \<open>Every buffer is free in the state the kernel boots with.\<close>

lemma bc_start:
  assumes "bcache_inv s" "\<And>i. i < NBUF \<Longrightarrow> \<not> busy (bufs s i) \<and> \<not> dirty (bufs s i)"
  shows "bc s Map.empty {}"
  using assms by (auto simp: bc_def caches_def)

lemma bc_cong:
  "bufs t = bufs s \<Longrightarrow> lru t = lru s \<Longrightarrow> disk t = disk s \<Longrightarrow> bc t H D = bc s H D"
  by (simp add: bc_def bcache_inv_def owns_def caches_def)

section \<open>The rules in forward form\<close>

lemma breadE:
  assumes "bc s H D" "sec \<notin> ran H" "sec < disksize s" "card (ran H \<union> D) < NBUF \<or> sec \<in> D"
  obtains i t where "\<And>Q. wp (bread 1 sec) Q s = Q i t" "H i = None" "bc t (H(i \<mapsto> sec)) D" "view t = view s"
    "disk t = disk s" "wtrace t = wtrace s" "bio_frame s t"
proof -
  have "wp (bread 1 sec) (\<lambda>i t. H i = None \<and> bc t (H(i \<mapsto> sec)) D \<and> view t = view s \<and> disk t = disk s \<and>
      wtrace t = wtrace s \<and> bio_frame s t) s"
    by (rule bread_rule [OF assms]) blast
  then show thesis by (elim wp_resE) (elim conjE, rule that)
qed

lemma set_dataE:
  assumes "bc s H D" "H i = Some sec"
  obtains t where "\<And>Q. wp (set_buf i ((bufs s i)\<lparr>b_data := d\<rparr>)) Q s = Q () t" "bc t H D" "view t = (view s)(sec := d)"
    "disk t = disk s" "wtrace t = wtrace s" "bio_frame s t"
proof -
  have "wp (set_buf i ((bufs s i)\<lparr>b_data := d\<rparr>)) (\<lambda>_ t. bc t H D \<and> view t = (view s)(sec := d) \<and> disk t = disk s \<and>
      wtrace t = wtrace s \<and> bio_frame s t) s"
    by (rule set_data_rule [OF assms]) blast
  then show thesis by (elim wp_unitE) (elim conjE, rule that)
qed

lemma bwriteE:
  assumes "bc s H D" "H i = Some sec" "sec < disksize s"
  obtains t where "\<And>Q. wp (bwrite i) Q s = Q () t" "bc t H (D - {sec})" "view t = view s"
    "disk t = (disk s)(sec := view s sec)" "wtrace t = wtrace s @ [(sec, view s sec)]" "bio_frame s t"
proof -
  have "wp (bwrite i) (\<lambda>_ t. bc t H (D - {sec}) \<and> view t = view s \<and> disk t = (disk s)(sec := view s sec) \<and>
      wtrace t = wtrace s @ [(sec, view s sec)] \<and> bio_frame s t) s"
    by (rule bwrite_rule [OF assms]) blast
  then show thesis by (elim wp_unitE) (elim conjE, rule that)
qed

lemma brelseE:
  assumes "bc s H D" "H i = Some sec" "sec \<in> D \<or> view s sec = disk s sec"
  obtains t where "\<And>Q. wp (brelse i) Q s = Q () t" "bc t (H(i := None)) D" "view t = view s"
    "disk t = disk s" "wtrace t = wtrace s" "bio_frame s t"
proof -
  have "wp (brelse i) (\<lambda>_ t. bc t (H(i := None)) D \<and> view t = view s \<and> disk t = disk s \<and> wtrace t = wtrace s \<and>
      bio_frame s t) s"
    by (rule brelse_rule [OF assms]) blast
  then show thesis by (elim wp_unitE) (elim conjE, rule that)
qed

lemma pinE:
  assumes "bc s H D" "H i = Some sec"
  obtains t where "\<And>Q. wp (set_buf i ((bufs s i)\<lparr>b_flags := b_flags (bufs s i) OR B_DIRTY\<rparr>)) Q s = Q () t"
    "bc t H (insert sec D)" "view t = view s" "disk t = disk s" "wtrace t = wtrace s" "bio_frame s t"
proof -
  have "wp (set_buf i ((bufs s i)\<lparr>b_flags := b_flags (bufs s i) OR B_DIRTY\<rparr>)) (\<lambda>_ t. bc t H (insert sec D) \<and>
      view t = view s \<and> disk t = disk s \<and> wtrace t = wtrace s \<and> bio_frame s t) s"
    by (rule pin_rule [OF assms]) blast
  then show thesis by (elim wp_unitE) (elim conjE, rule that)
qed

lemma wp_get_buf [wp_rules]: "wp (get_buf i) Q = (\<lambda>s. Q (bufs s i) s)"
  by (simp add: get_buf_def wp_rules)

end
