(* ===== verification/Fs_Layout.thy ===== *)
theory Fs_Layout
  imports Bio_Own
begin

text \<open>
  The on-disk format, \<^verbatim>\<open>fs.h\<close>, and \<^verbatim>\<open>readsb\<close> of \<^verbatim>\<open>fs.c\<close>. A block is an array of bytes; \<open>get_dinode\<close> and
  \<open>put_dinode\<close> are the struct overlay that the kernel gets by casting a pointer into the block.
\<close>

abbreviation (input) BSIZE :: nat where "BSIZE \<equiv> 512"
abbreviation (input) NDIRECT :: nat where "NDIRECT \<equiv> 12"
abbreviation (input) NINDIRECT :: nat where "NINDIRECT \<equiv> 128"
abbreviation (input) MAXFILE :: nat where "MAXFILE \<equiv> 140"
abbreviation (input) IPB :: uint where "IPB \<equiv> 8"
abbreviation (input) BPB :: uint where "BPB \<equiv> 4096"
abbreviation (input) DIRSIZ :: nat where "DIRSIZ \<equiv> 14"
abbreviation (input) ROOTINO :: uint where "ROOTINO \<equiv> 1"

record superblock =
  sb_size :: uint
  sb_nblocks :: uint
  sb_ninodes :: uint
  sb_nlog :: uint

record dinode =
  d_type :: ushort
  d_major :: ushort
  d_minor :: ushort
  d_nlink :: ushort
  d_size :: uint
  d_addrs :: "nat \<Rightarrow> uint"

record dirent =
  de_inum :: ushort
  de_name :: bytes

definition IBLOCK :: "uint \<Rightarrow> uint" where
  "IBLOCK i = i div IPB + 2"

definition BBLOCK :: "uint \<Rightarrow> uint \<Rightarrow> uint" where
  "BBLOCK b ninodes = b div BPB + ninodes div IPB + 3"

definition get_superblock :: "bytes \<Rightarrow> superblock" where
  "get_superblock d = \<lparr>sb_size = get32 d 0, sb_nblocks = get32 d 4, sb_ninodes = get32 d 8, sb_nlog = get32 d 12\<rparr>"

definition get_dinode :: "bytes \<Rightarrow> nat \<Rightarrow> dinode" where
  "get_dinode d o' = \<lparr>d_type = get16 d o', d_major = get16 d (o' + 2), d_minor = get16 d (o' + 4),
     d_nlink = get16 d (o' + 6), d_size = get32 d (o' + 8), d_addrs = (\<lambda>k. get32 d (o' + 12 + 4 * k))\<rparr>"

primrec put_addrs :: "(nat \<Rightarrow> uint) \<Rightarrow> bytes \<Rightarrow> nat \<Rightarrow> nat \<Rightarrow> bytes" where
  "put_addrs a d o' 0 = d"
| "put_addrs a d o' (Suc k) = put32 (put_addrs a d o' k) (o' + 4 * k) (a k)"

definition put_dinode :: "bytes \<Rightarrow> nat \<Rightarrow> dinode \<Rightarrow> bytes" where
  "put_dinode d o' di =
     put_addrs (d_addrs di)
       (put32 (put16 (put16 (put16 (put16 d o' (d_type di)) (o' + 2) (d_major di)) (o' + 4) (d_minor di))
          (o' + 6) (d_nlink di)) (o' + 8) (d_size di)) (o' + 12) (NDIRECT + 1)"

definition get_dirent :: "bytes \<Rightarrow> dirent" where
  "get_dirent d = \<lparr>de_inum = get16 d 0, de_name = (\<lambda>i. d (2 + i))\<rparr>"

definition put_dirent :: "dirent \<Rightarrow> bytes" where
  "put_dirent de = (\<lambda>i. if i < 2 then put16 (\<lambda>_. 0) 0 (de_inum de) i else de_name de (i - 2))"

definition readsb :: "uint \<Rightarrow> ('a bcache_state_scheme, superblock) kprog" where
  "readsb dev =
     kbind (bread dev 1) (\<lambda>i.
     kbind (get_buf i) (\<lambda>b.
     kseq (brelse i) (kret (get_superblock (b_data b)))))"

section \<open>Reading back what was stored\<close>

lemma put_addrs_outside: "i < o' \<or> o' + 4 * n \<le> i \<Longrightarrow> put_addrs a d o' n i = d i"
  by (induction n) (auto simp: put32_outside)

lemma get32_put_addrs: "k < n \<Longrightarrow> get32 (put_addrs a d o' n) (o' + 4 * k) = a k"
proof (induction n)
  case (Suc n)
  then show ?case by (cases "k = n") (auto simp: get32_put32_other)
qed simp

lemma get16_put_addrs [simp]: "i + 2 \<le> o' \<Longrightarrow> get16 (put_addrs a d o' n) i = get16 d i"
  by (rule get16_cong) (auto intro: put_addrs_outside)

lemma get32_put_addrs_before [simp]: "i + 4 \<le> o' \<Longrightarrow> get32 (put_addrs a d o' n) i = get32 d i"
  by (rule get32_cong) (auto intro: put_addrs_outside)

lemma put_dinode_outside:
  "i < o' \<or> o' + 64 \<le> i \<Longrightarrow> put_dinode d o' di i = d i"
  by (auto simp: put_dinode_def put_addrs_outside put32_outside put16_outside simp del: put_addrs.simps)

lemma get_put_dinode:
  "get_dinode (put_dinode d o' di) o' =
     di\<lparr>d_addrs := (\<lambda>k. if k < 13 then d_addrs di k else get32 d (o' + 12 + 4 * k))\<rparr>"
proof -
  have "get32 (put_dinode d o' di) (o' + 12 + 4 * k) = (if k < 13 then d_addrs di k else get32 d (o' + 12 + 4 * k))" for k
  proof (cases "k < 13")
    case True
    then show ?thesis by (simp add: put_dinode_def get32_put_addrs del: put_addrs.simps)
  next
    case False
    then show ?thesis by (auto intro!: get32_cong put_dinode_outside)
  qed
  then show ?thesis
    by (simp add: get_dinode_def) (simp add: put_dinode_def del: put_addrs.simps)
qed

lemma get_put_dinode_other:
  assumes "o' + 64 \<le> p \<or> p + 64 \<le> o'"
  shows "d_type (get_dinode (put_dinode d o' di) p) = d_type (get_dinode d p)"
    "d_nlink (get_dinode (put_dinode d o' di) p) = d_nlink (get_dinode d p)"
    "d_size (get_dinode (put_dinode d o' di) p) = d_size (get_dinode d p)"
    "k < 13 \<Longrightarrow> d_addrs (get_dinode (put_dinode d o' di) p) k = d_addrs (get_dinode d p) k"
  using assms by (auto simp: get_dinode_def intro!: get16_cong get32_cong put_dinode_outside)

lemma get_put_dirent: "get_dirent (put_dirent de) = de"
proof -
  have "get16 (put_dirent de) 0 = get16 (put16 (\<lambda>_. 0) 0 (de_inum de)) 0"
    by (rule get16_cong) (simp add: put_dirent_def)
  then show ?thesis by (simp add: get_dirent_def put_dirent_def)
qed

section \<open>The superblock\<close>

lemma readsb_rule:
  assumes bc: "bc s H D" and new: "1 \<notin> ran H" and rng: "1 < disksize s" and room: "card (ran H \<union> D) < NBUF \<or> 1 \<in> D"
    and keep: "1 \<in> D \<or> view s 1 = disk s 1"
    and post: "\<And>t. bc t H D \<Longrightarrow> view t = view s \<Longrightarrow> disk t = disk s \<Longrightarrow> wtrace t = wtrace s \<Longrightarrow> bio_frame s t \<Longrightarrow>
        Q (get_superblock (view s 1)) t"
  shows "wp (readsb 1) Q s"
  unfolding readsb_def wp_rules
proof (rule bread_rule [OF bc new rng room])
  fix i t
  assume a: "H i = None" "bc t (H(i \<mapsto> 1)) D" "view t = view s" "disk t = disk s" "wtrace t = wtrace s" "bio_frame s t"
  have d: "b_data (bufs t i) = view s 1" using bc_data [OF a(2), of i] a(3) by simp
  show "wp (brelse i) (\<lambda>_. Q (get_superblock (b_data (bufs t i)))) t"
  proof (rule brelse_rule [OF a(2)])
    fix u assume u: "bc u ((H(i \<mapsto> 1))(i := None)) D" "view u = view t" "disk u = disk t" "wtrace u = wtrace t" "bio_frame t u"
    then show "Q (get_superblock (b_data (bufs t i))) u"
      using post a d bio_frame_trans [OF a(6) u(5)] by (simp add: fun_upd_idem)
  qed (use keep a in auto)
qed

lemma readsbE:
  assumes "bc s H D" "1 \<notin> ran H" "1 < disksize s" "card (ran H \<union> D) < NBUF \<or> 1 \<in> D" "1 \<in> D \<or> view s 1 = disk s 1"
  obtains t where "\<And>Q. wp (readsb 1) Q s = Q (get_superblock (view s 1)) t" "bc t H D" "view t = view s" "disk t = disk s"
    "wtrace t = wtrace s" "bio_frame s t"
proof -
  have "wp (readsb 1) (\<lambda>x t. x = get_superblock (view s 1) \<and> bc t H D \<and> view t = view s \<and> disk t = disk s \<and>
      wtrace t = wtrace s \<and> bio_frame s t) s"
    by (rule readsb_rule [OF assms]) blast
  then show thesis by (elim wp_resE) (elim conjE, rule that, simp_all)
qed

end
