(* ===== verification/Log.thy ===== *)
theory Log
  imports Fs_Layout
begin

text \<open>
  The write-ahead log, \<^verbatim>\<open>log.c\<close>. \<open>l_sector\<close> is the array \<^verbatim>\<open>log.lh.sector\<close>; a transaction is the list
  \<open>logged\<close> of the sectors recorded in it. \<open>begin_op\<close> is one turn of its waiting loop: it returns, or sleeps
  on \<^verbatim>\<open>&log\<close> and is run again when woken.
\<close>

record log_state = bcache_state +
  l_start :: uint
  l_size :: int
  l_outstanding :: int
  l_committing :: bool
  l_dev :: uint
  l_n :: int
  l_sector :: "nat \<Rightarrow> uint"

fun install_from :: "nat list \<Rightarrow> ('a log_state_scheme, unit) kprog" where
  "install_from [] = kret ()"
| "install_from (tail # ts) =
     kbind (kget (\<lambda>s. (l_dev s, l_start s, l_sector s))) (\<lambda>(dev, start, sector).
     kbind (bread dev (start + of_nat tail + 1)) (\<lambda>lbuf.
     kbind (bread dev (sector tail)) (\<lambda>dbuf.
     kbind (get_buf lbuf) (\<lambda>lb.
     kbind (get_buf dbuf) (\<lambda>db.
     kseq (set_buf dbuf (db\<lparr>b_data := b_data lb\<rparr>))
     (kseq (bwrite dbuf)
     (kseq (brelse lbuf)
     (kseq (brelse dbuf)
     (install_from ts)))))))))"

definition install_trans :: "('a log_state_scheme, unit) kprog" where
  "install_trans = kbind (kget l_n) (\<lambda>n. install_from [0..<nat n])"

definition read_sectors :: "bytes \<Rightarrow> int \<Rightarrow> (nat \<Rightarrow> uint) \<Rightarrow> nat \<Rightarrow> uint" where
  "read_sectors d n f = fold (\<lambda>i f. f(i := get32 d (4 + 4 * i))) [0..<nat n] f"

definition read_head :: "('a log_state_scheme, unit) kprog" where
  "read_head =
     kbind (kget (\<lambda>s. (l_dev s, l_start s))) (\<lambda>(dev, start).
     kbind (bread dev start) (\<lambda>i.
     kbind (get_buf i) (\<lambda>b.
     kseq (kmod (\<lambda>s. s\<lparr>l_n := sint (get32 (b_data b) 0)\<rparr>))
     (kseq (kmod (\<lambda>s. s\<lparr>l_sector := read_sectors (b_data b) (l_n s) (l_sector s)\<rparr>))
     (brelse i)))))"

definition put_head :: "int \<Rightarrow> (nat \<Rightarrow> uint) \<Rightarrow> bytes \<Rightarrow> bytes" where
  "put_head n f d = fold (\<lambda>i d. put32 d (4 + 4 * i) (f i)) [0..<nat n] (put32 d 0 (of_int n))"

definition write_head :: "('a log_state_scheme, unit) kprog" where
  "write_head =
     kbind (kget (\<lambda>s. (l_dev s, l_start s, l_n s, l_sector s))) (\<lambda>(dev, start, n, sector).
     kbind (bread dev start) (\<lambda>i.
     kbind (get_buf i) (\<lambda>b.
     kseq (set_buf i (b\<lparr>b_data := put_head n sector (b_data b)\<rparr>))
     (kseq (bwrite i)
     (brelse i)))))"

definition recover_from_log :: "('a log_state_scheme, unit) kprog" where
  "recover_from_log =
     kseq read_head
     (kseq install_trans
     (kseq (kmod (\<lambda>s. s\<lparr>l_n := 0\<rparr>))
     write_head))"

definition initlog :: "('a log_state_scheme, unit) kprog" where
  "initlog =
     (if 4 + 4 * LOGSIZE \<ge> BSIZE then kpanic ''initlog: too big logheader''
      else kbind (readsb ROOTDEV) (\<lambda>sb.
        kseq (kmod (\<lambda>s. s\<lparr>l_start := sb_size sb - sb_nlog sb, l_size := sint (sb_nlog sb), l_dev := ROOTDEV\<rparr>))
        recover_from_log))"

definition begin_op :: "('a log_state_scheme, unit) kprog" where
  "begin_op s =
     (if l_committing s then sleep ChanLog s
      else if l_n s + (l_outstanding s + 1) * int MAXOPBLOCKS > int LOGSIZE then sleep ChanLog s
      else Ok () (s\<lparr>l_outstanding := l_outstanding s + 1\<rparr>))"

fun write_log_from :: "nat list \<Rightarrow> ('a log_state_scheme, unit) kprog" where
  "write_log_from [] = kret ()"
| "write_log_from (tail # ts) =
     kbind (kget (\<lambda>s. (l_dev s, l_start s, l_sector s))) (\<lambda>(dev, start, sector).
     kbind (bread dev (start + of_nat tail + 1)) (\<lambda>to.
     kbind (bread dev (sector tail)) (\<lambda>from.
     kbind (get_buf from) (\<lambda>fb.
     kbind (get_buf to) (\<lambda>tb.
     kseq (set_buf to (tb\<lparr>b_data := b_data fb\<rparr>))
     (kseq (bwrite to)
     (kseq (brelse from)
     (kseq (brelse to)
     (write_log_from ts)))))))))"

definition write_log :: "('a log_state_scheme, unit) kprog" where
  "write_log = kbind (kget l_n) (\<lambda>n. write_log_from [0..<nat n])"

definition commit :: "('a log_state_scheme, unit) kprog" where
  "commit =
     kbind (kget l_n) (\<lambda>n.
     if n > 0 then
       kseq write_log
       (kseq write_head
       (kseq install_trans
       (kseq (kmod (\<lambda>s. s\<lparr>l_n := 0\<rparr>))
       write_head)))
     else kret ())"

definition end_op :: "('a log_state_scheme, unit) kprog" where
  "end_op =
     kseq (kmod (\<lambda>s. s\<lparr>l_outstanding := l_outstanding s - 1\<rparr>))
     (kbind (kget (\<lambda>s. (l_committing s, l_outstanding s))) (\<lambda>(committing, outstanding).
     if committing then kpanic ''log.committing''
     else if outstanding = 0 then
       kseq (kmod (\<lambda>s. s\<lparr>l_committing := True\<rparr>))
       (kseq commit
       (kseq (kmod (\<lambda>s. s\<lparr>l_committing := False\<rparr>))
       (wakeup ChanLog)))
     else wakeup ChanLog))"

fun log_find :: "(nat \<Rightarrow> uint) \<Rightarrow> uint \<Rightarrow> nat \<Rightarrow> nat \<Rightarrow> nat" where
  "log_find f sec i 0 = i"
| "log_find f sec i (Suc k) = (if f i = sec then i else log_find f sec (Suc i) k)"

definition log_write :: "nat \<Rightarrow> ('a log_state_scheme, unit) kprog" where
  "log_write bi =
     kbind (kget (\<lambda>s. (l_n s, l_size s, l_outstanding s, l_sector s, bufs s bi))) (\<lambda>(n, size, outstanding, sector, b).
     if n \<ge> int LOGSIZE \<or> n \<ge> size - 1 then kpanic ''too big a transaction''
     else if outstanding < 1 then kpanic ''log_write outside of trans''
     else
       (let i = log_find sector (b_sector b) 0 (nat n) in
        kseq (kmod (\<lambda>s. s\<lparr>l_sector := (l_sector s)(i := b_sector b)\<rparr>))
        (kseq (if int i = n then kmod (\<lambda>s. s\<lparr>l_n := l_n s + 1\<rparr>) else kret ())
        (set_buf bi (b\<lparr>b_flags := b_flags b OR B_DIRTY\<rparr>)))))"

section \<open>The transaction\<close>

definition logged :: "'a log_state_scheme \<Rightarrow> uint list" where
  "logged s = map (l_sector s) [0..<nat (l_n s)]"

text \<open>The home sectors: those of the disk outside the log region.\<close>

definition home :: "'a log_state_scheme \<Rightarrow> uint set" where
  "home s = {sec. sec < disksize s \<and> (unat sec < unat (l_start s) \<or> unat (l_start s) + nat (l_size s) \<le> unat sec)}"

definition log_geom :: "'a log_state_scheme \<Rightarrow> bool" where
  "log_geom s \<longleftrightarrow> l_dev s = 1 \<and> 0 \<le> l_n s \<and> l_n s < l_size s \<and> l_size s \<le> int LOGSIZE \<and>
     unat (l_start s) + nat (l_size s) \<le> unat (disksize s)"

definition log_wf :: "'a log_state_scheme \<Rightarrow> bool" where
  "log_wf s \<longleftrightarrow> log_geom s \<and> distinct (logged s) \<and> set (logged s) \<subseteq> home s"

definition logblk :: "'a log_state_scheme \<Rightarrow> nat \<Rightarrow> uint" where
  "logblk s i = l_start s + of_nat i + 1"

definition log_same :: "'a log_state_scheme \<Rightarrow> 'a log_state_scheme \<Rightarrow> bool" where
  "log_same s t \<longleftrightarrow> l_start t = l_start s \<and> l_size t = l_size s \<and> l_outstanding t = l_outstanding s \<and>
     l_committing t = l_committing s \<and> l_dev t = l_dev s \<and> l_n t = l_n s \<and> l_sector t = l_sector s \<and> disksize t = disksize s"

lemma bio_frame_log: "bio_frame s t \<Longrightarrow> log_same s t" for s :: "'a log_state_scheme"
  by (auto elim!: bio_frameE simp: log_same_def)

lemma bio_frame_log_upd:
  "bio_frame s t \<Longrightarrow> bio_frame (s\<lparr>l_n := n\<rparr>) (t\<lparr>l_n := n\<rparr>)"
  "bio_frame s t \<Longrightarrow> bio_frame (s\<lparr>l_n := n, l_sector := f\<rparr>) (t\<lparr>l_n := n, l_sector := f\<rparr>)"
  "bio_frame s t \<Longrightarrow> bio_frame (s\<lparr>l_committing := c\<rparr>) (t\<lparr>l_committing := c\<rparr>)"
  "bio_frame s t \<Longrightarrow> bio_frame (s\<lparr>l_sector := f\<rparr>) (t\<lparr>l_sector := f\<rparr>)"
  for s :: "'a log_state_scheme"
  by (erule bio_frameE, simp add: bio_frame_def)+

lemma log_same_refl [simp]: "log_same s s"
  by (simp add: log_same_def)

lemma log_same_trans: "log_same s t \<Longrightarrow> log_same t u \<Longrightarrow> log_same s u"
  by (simp add: log_same_def)

lemma log_same_eqs:
  assumes "log_same s t"
  shows "logged t = logged s" "home t = home s" "log_geom t = log_geom s" "log_wf t = log_wf s" "logblk t = logblk s"
proof -
  show l: "logged t = logged s" and h: "home t = home s" and b: "logblk t = logblk s" and g: "log_geom t = log_geom s"
    using assms by (simp_all add: log_same_def logged_def home_def logblk_def log_geom_def fun_eq_iff)
  show "log_wf t = log_wf s" unfolding log_wf_def l h g ..
qed

section \<open>Sequences of sector writes\<close>

definition apply_writes :: "(uint \<times> bytes) list \<Rightarrow> (uint \<Rightarrow> bytes) \<Rightarrow> uint \<Rightarrow> bytes" where
  "apply_writes ws d = fold (\<lambda>(sec, b) d. d(sec := b)) ws d"

lemma apply_writes_simps [simp]:
  "apply_writes [] d = d" "apply_writes ((sec, b) # ws) d = apply_writes ws (d(sec := b))"
  "apply_writes (vs @ ws) d = apply_writes ws (apply_writes vs d)"
  by (simp_all add: apply_writes_def)

lemma apply_writes_other: "sec \<notin> fst ` set ws \<Longrightarrow> apply_writes ws d sec = d sec"
  by (induction ws arbitrary: d) auto

lemma apply_writes_distinct:
  assumes "distinct (map fst ws)" "(sec, b) \<in> set ws"
  shows "apply_writes ws d sec = b"
  using assms
proof (induction ws arbitrary: d)
  case (Cons w ws)
  then show ?case using apply_writes_other [of sec ws] by (cases w) (force simp: image_iff)
qed simp

lemma view_disk:
  assumes bc: "bc s Map.empty D" and "sec \<notin> D"
  shows "view s sec = disk s sec"
proof (cases "\<exists>i. caches s sec i \<and> valid (bufs s i)")
  case True
  then obtain i where i: "caches s sec i" "valid (bufs s i)" by blast
  then have "\<not> dirty (bufs s i)" using assms bc_mem [OF bc] by blast
  moreover have "\<not> busy (bufs s i)" using bc i by (auto simp: bc_def caches_def)
  ultimately have "b_data (bufs s i) = disk s sec"
    using i bc_inv [OF bc] by (auto simp: bcache_inv_def caches_def)
  then show ?thesis using view_cached [OF bc_inv [OF bc] i] by simp
qed (auto intro: view_uncached)

section \<open>Copying blocks between the log and their homes\<close>

text \<open>One turn of the loop of \<^verbatim>\<open>write_log\<close>: block \<open>a\<close> of the log receives what the cache holds for sector \<open>b\<close>.\<close>

lemma write_log_turn:
  assumes bc: "bc s Map.empty D" and card: "card D < NBUF" and ab: "a \<noteq> b" "a \<notin> D" "b \<in> D"
    and rng: "a < disksize s" "b < disksize s"
    and post: "\<And>t. bc t Map.empty D \<Longrightarrow> view t = (view s)(a := view s b) \<Longrightarrow> disk t = (disk s)(a := view s b) \<Longrightarrow> wtrace t = wtrace s @ [(a, view s b)] \<Longrightarrow> bio_frame s t \<Longrightarrow> wp k Q t"
  shows "wp (kbind (bread 1 a) (\<lambda>to. kbind (bread 1 b) (\<lambda>from. kbind (get_buf from) (\<lambda>fb. kbind (get_buf to) (\<lambda>tb.
       kseq (set_buf to (tb\<lparr>b_data := b_data fb\<rparr>)) (kseq (bwrite to) (kseq (brelse from) (kseq (brelse to) k)))))))) Q s"
proof -
  obtain i s1 where r1: "\<And>Q. wp (bread 1 a) Q s = Q i s1" and bc1: "bc s1 [i \<mapsto> a] D"
    and s1: "view s1 = view s" "disk s1 = disk s" "wtrace s1 = wtrace s" "bio_frame s s1"
    by (rule breadE [OF bc, of a]) (use card rng in auto)
  have b1: "b < disksize s1" using bio_frame_fields(1) [OF s1(4)] rng by simp
  obtain j s2 where r2: "\<And>Q. wp (bread 1 b) Q s1 = Q j s2" and ij: "[i \<mapsto> a] j = None" and bc2: "bc s2 [i \<mapsto> a, j \<mapsto> b] D"
    and s2: "view s2 = view s1" "disk s2 = disk s1" "wtrace s2 = wtrace s1" "bio_frame s1 s2"
    by (rule breadE [OF bc1 _ b1]) (use ab in auto)
  have ne: "i \<noteq> j" using ij by auto
  have fb: "b_data (bufs s2 j) = view s b" using bc_data [OF bc2, of j b] s1 s2 by simp
  obtain s3 where r3: "\<And>Q. wp (set_buf i ((bufs s2 i)\<lparr>b_data := b_data (bufs s2 j)\<rparr>)) Q s2 = Q () s3" and bc3: "bc s3 [i \<mapsto> a, j \<mapsto> b] D"
    and s3: "view s3 = (view s2)(a := b_data (bufs s2 j))" "disk s3 = disk s2" "wtrace s3 = wtrace s2" "bio_frame s2 s3"
    by (rule set_dataE [OF bc2, of i a "b_data (bufs s2 j)"]) (use ne in auto)
  have a3: "a < disksize s3" using bio_frame_fields(1) [OF bio_frame_trans [OF bio_frame_trans [OF s1(4) s2(4)] s3(4)]] rng by simp
  obtain s4 where r4: "\<And>Q. wp (bwrite i) Q s3 = Q () s4" and bc4: "bc s4 [i \<mapsto> a, j \<mapsto> b] (D - {a})"
    and s4: "view s4 = view s3" "disk s4 = (disk s3)(a := view s3 a)" "wtrace s4 = wtrace s3 @ [(a, view s3 a)]" "bio_frame s3 s4"
    by (rule bwriteE [OF bc3 _ a3]) (use ne in auto)
  have D: "D - {a} = D" using ab by auto
  obtain s5 where r5: "\<And>Q. wp (brelse j) Q s4 = Q () s5" and bc5: "bc s5 ([i \<mapsto> a, j \<mapsto> b](j := None)) D"
    and s5: "view s5 = view s4" "disk s5 = disk s4" "wtrace s5 = wtrace s4" "bio_frame s4 s5"
    by (rule brelseE [OF bc4 [unfolded D], of j b]) (use ab in auto)
  obtain s6 where r6: "\<And>Q. wp (brelse i) Q s5 = Q () s6" and bc6: "bc s6 ([i \<mapsto> a, j \<mapsto> b](j := None, i := None)) D"
    and s6: "view s6 = view s5" "disk s6 = disk s5" "wtrace s6 = wtrace s5" "bio_frame s5 s6"
    by (rule brelseE [OF bc5, of i a]) (use ne s3 s4 s5 in auto)
  have H: "[i \<mapsto> a, j \<mapsto> b](j := None, i := None) = Map.empty" by auto
  have "bio_frame s s6" using s1(4) s2(4) s3(4) s4(4) s5(4) s6(4) bio_frame_trans by blast
  then have "wp k Q s6" using s1 s2 s3 s4 s5 s6 bc6 [unfolded H] fb by (intro post) simp_all
  then show ?thesis by (simp add: wp_rules r1 r2 r3 r4 r5 r6)
qed

text \<open>One turn of the loop of \<^verbatim>\<open>install_trans\<close>: the home sector \<open>b\<close> receives block \<open>a\<close> of the log.\<close>

lemma install_turn:
  assumes bc: "bc s Map.empty D" and card: "card D < NBUF" "b \<in> D \<or> card D + 1 < NBUF" and ab: "a \<noteq> b" "a \<notin> D"
    and rng: "a < disksize s" "b < disksize s"
    and post: "\<And>t. bc t Map.empty (D - {b}) \<Longrightarrow> view t = (view s)(b := view s a) \<Longrightarrow> disk t = (disk s)(b := view s a) \<Longrightarrow> wtrace t = wtrace s @ [(b, view s a)] \<Longrightarrow> bio_frame s t \<Longrightarrow> wp k Q t"
  shows "wp (kbind (bread 1 a) (\<lambda>lbuf. kbind (bread 1 b) (\<lambda>dbuf. kbind (get_buf lbuf) (\<lambda>lb. kbind (get_buf dbuf) (\<lambda>db.
       kseq (set_buf dbuf (db\<lparr>b_data := b_data lb\<rparr>)) (kseq (bwrite dbuf) (kseq (brelse lbuf) (kseq (brelse dbuf) k)))))))) Q s"
proof -
  obtain i s1 where r1: "\<And>Q. wp (bread 1 a) Q s = Q i s1" and bc1: "bc s1 [i \<mapsto> a] D"
    and s1: "view s1 = view s" "disk s1 = disk s" "wtrace s1 = wtrace s" "bio_frame s s1"
    by (rule breadE [OF bc, of a]) (use card rng in auto)
  have b1: "b < disksize s1" using bio_frame_fields(1) [OF s1(4)] rng by simp
  have "card (insert a D) \<le> card D + 1" by (simp add: card_insert_le_m1)
  then have room: "card (ran [i \<mapsto> a] \<union> D) < NBUF \<or> b \<in> D" using card by auto
  obtain j s2 where r2: "\<And>Q. wp (bread 1 b) Q s1 = Q j s2" and ij: "[i \<mapsto> a] j = None" and bc2: "bc s2 [i \<mapsto> a, j \<mapsto> b] D"
    and s2: "view s2 = view s1" "disk s2 = disk s1" "wtrace s2 = wtrace s1" "bio_frame s1 s2"
    by (rule breadE [OF bc1 _ b1 room]) (use ab in auto)
  have ne: "i \<noteq> j" using ij by auto
  have fa: "b_data (bufs s2 i) = view s a" using bc_data [OF bc2, of i a] s1 s2 ne by simp
  obtain s3 where r3: "\<And>Q. wp (set_buf j ((bufs s2 j)\<lparr>b_data := b_data (bufs s2 i)\<rparr>)) Q s2 = Q () s3" and bc3: "bc s3 [i \<mapsto> a, j \<mapsto> b] D"
    and s3: "view s3 = (view s2)(b := b_data (bufs s2 i))" "disk s3 = disk s2" "wtrace s3 = wtrace s2" "bio_frame s2 s3"
    by (rule set_dataE [OF bc2, of j b "b_data (bufs s2 i)"]) auto
  have b3: "b < disksize s3" using bio_frame_fields(1) [OF bio_frame_trans [OF bio_frame_trans [OF s1(4) s2(4)] s3(4)]] rng by simp
  obtain s4 where r4: "\<And>Q. wp (bwrite j) Q s3 = Q () s4" and bc4: "bc s4 [i \<mapsto> a, j \<mapsto> b] (D - {b})"
    and s4: "view s4 = view s3" "disk s4 = (disk s3)(b := view s3 b)" "wtrace s4 = wtrace s3 @ [(b, view s3 b)]" "bio_frame s3 s4"
    by (rule bwriteE [OF bc3 _ b3]) auto
  have va: "view s a = disk s a" using view_disk [OF bc] ab by simp
  obtain s5 where r5: "\<And>Q. wp (brelse i) Q s4 = Q () s5" and bc5: "bc s5 ([i \<mapsto> a, j \<mapsto> b](i := None)) (D - {b})"
    and s5: "view s5 = view s4" "disk s5 = disk s4" "wtrace s5 = wtrace s4" "bio_frame s4 s5"
    by (rule brelseE [OF bc4, of i a]) (use ab ne va s1 s2 s3 s4 in auto)
  obtain s6 where r6: "\<And>Q. wp (brelse j) Q s5 = Q () s6" and bc6: "bc s6 ([i \<mapsto> a, j \<mapsto> b](i := None, j := None)) (D - {b})"
    and s6: "view s6 = view s5" "disk s6 = disk s5" "wtrace s6 = wtrace s5" "bio_frame s5 s6"
    by (rule brelseE [OF bc5, of j b]) (use ne s3 s4 s5 in auto)
  have H: "[i \<mapsto> a, j \<mapsto> b](i := None, j := None) = Map.empty" by auto
  have "bio_frame s s6" using s1(4) s2(4) s3(4) s4(4) s5(4) s6(4) bio_frame_trans by blast
  then have "wp k Q s6" using s1 s2 s3 s4 s5 s6 bc6 [unfolded H] fa by (intro post) simp_all
  then show ?thesis by (simp add: wp_rules r1 r2 r3 r4 r5 r6)
qed

section \<open>The log region\<close>

lemma log_geomD:
  "log_geom s \<Longrightarrow> nat (l_n s) < nat (l_size s) \<and> nat (l_size s) \<le> LOGSIZE \<and> unat (l_start s) + nat (l_size s) \<le> unat (disksize s) \<and> l_dev s = 1"
  by (auto simp: log_geom_def)

lemma logblk_unat:
  assumes "log_geom s" "i < nat (l_n s)"
  shows "unat (logblk s i) = unat (l_start s) + i + 1"
proof -
  have "unat (l_start s) + i + 1 < unat (disksize s)" using assms log_geomD [OF assms(1)] by linarith
  also have "\<dots> < 2 ^ 32" using unsigned_less [of "disksize s", where 'a = nat] by simp
  finally show ?thesis by (simp add: logblk_def unat_word_ariths unat_of_nat)
qed

lemma logblk_rng: "log_geom s \<Longrightarrow> i < nat (l_n s) \<Longrightarrow> logblk s i < disksize s"
  using log_geomD [of s] by (auto simp: word_less_nat_alt logblk_unat)

lemma logblk_not_home: "log_geom s \<Longrightarrow> i < nat (l_n s) \<Longrightarrow> logblk s i \<notin> home s"
  using log_geomD [of s] by (auto simp: home_def logblk_unat)

lemma logblk_inj: "log_geom s \<Longrightarrow> i < nat (l_n s) \<Longrightarrow> j < nat (l_n s) \<Longrightarrow> logblk s i = logblk s j \<Longrightarrow> i = j"
  by (metis add_left_cancel add_right_cancel logblk_unat)

lemma logblk_start: "log_geom s \<Longrightarrow> i < nat (l_n s) \<Longrightarrow> logblk s i \<noteq> l_start s"
  by (metis logblk_unat less_irrefl less_add_Suc1 add.assoc Suc_eq_plus1 add_Suc_right)

lemma start_not_home: "log_geom s \<Longrightarrow> l_start s \<notin> home s"
  using log_geomD [of s] by (auto simp: home_def)

lemma start_rng: "log_geom s \<Longrightarrow> l_start s < disksize s"
  using log_geomD [of s] by (auto simp: word_less_nat_alt)

lemma home_rng: "sec \<in> home s \<Longrightarrow> sec < disksize s"
  by (simp add: home_def)

section \<open>The loops\<close>

definition log_writes :: "'a log_state_scheme \<Rightarrow> nat list \<Rightarrow> (uint \<times> bytes) list" where
  "log_writes s ts = map (\<lambda>i. (logblk s i, view s (l_sector s i))) ts"

definition home_writes :: "'a log_state_scheme \<Rightarrow> nat list \<Rightarrow> (uint \<times> bytes) list" where
  "home_writes s ts = map (\<lambda>i. (l_sector s i, view s (logblk s i))) ts"

lemma write_log_fromE:
  assumes "bc s Map.empty D" "card D < NBUF" "log_geom s" "D \<subseteq> home s" "set ts \<subseteq> {..<nat (l_n s)}" "l_sector s ` set ts \<subseteq> D"
  shows "wp (write_log_from ts) (\<lambda>_ t. bc t Map.empty D \<and> view t = apply_writes (log_writes s ts) (view s) \<and>
     disk t = apply_writes (log_writes s ts) (disk s) \<and> wtrace t = wtrace s @ log_writes s ts \<and> bio_frame s t) s"
  using assms
proof (induction ts arbitrary: s)
  case Nil
  then show ?case by (simp add: wp_rules log_writes_def)
next
  case (Cons i ts)
  let ?a = "logblk s i" and ?b = "l_sector s i"
  have i: "i < nat (l_n s)" using Cons.prems by simp
  have b: "?b \<in> D" "?b \<in> home s" "?a \<notin> D" "?a \<noteq> ?b" "?a < disksize s" "?b < disksize s"
    using Cons.prems logblk_not_home [OF _ i] logblk_rng [OF _ i] home_rng by auto
  have dev: "l_dev s = 1" using log_geomD [OF Cons.prems(3)] by simp
  have l: "log_writes s (i # ts) = (?a, view s ?b) # log_writes s ts" by (simp add: log_writes_def)
  show ?case unfolding write_log_from.simps wp_kbind [of "kget _"] wp_kget prod.case dev logblk_def [symmetric]
  proof (rule write_log_turn [OF Cons.prems(1,2) b(4,3,1,5,6)])
    fix t assume t: "bc t Map.empty D" "view t = (view s)(?a := view s ?b)" "disk t = (disk s)(?a := view s ?b)"
      "wtrace t = wtrace s @ [(?a, view s ?b)]" "bio_frame s t"
    note same = bio_frame_log [OF t(5)]
    have sec: "l_sector t = l_sector s" "l_n t = l_n s" using same by (simp_all add: log_same_def)
    have "l_sector s j \<noteq> ?a" if "j \<in> set ts" for j using that Cons.prems(6) b(3) by auto
    then have ws: "log_writes t ts = log_writes s ts"
      using t(2) log_same_eqs(5) [OF same] sec by (auto simp: log_writes_def)
    have "wp (write_log_from ts) (\<lambda>_ u. bc u Map.empty D \<and> view u = apply_writes (log_writes t ts) (view t) \<and>
       disk u = apply_writes (log_writes t ts) (disk t) \<and> wtrace u = wtrace t @ log_writes t ts \<and> bio_frame t u) t"
      by (rule Cons.IH) (use t(1) Cons.prems log_same_eqs [OF same] sec in auto)
    then show "wp (write_log_from ts) (\<lambda>_ u. bc u Map.empty D \<and> view u = apply_writes (log_writes s (i # ts)) (view s) \<and>
       disk u = apply_writes (log_writes s (i # ts)) (disk s) \<and> wtrace u = wtrace s @ log_writes s (i # ts) \<and> bio_frame s u) t"
      by (rule wp_mono) (simp add: ws l t bio_frame_trans [OF t(5)])
  qed
qed

lemma install_fromE:
  assumes "bc s Map.empty D" "card D < NBUF" "ts = [] \<or> l_sector s (hd ts) \<in> D \<or> card D + 1 < NBUF"
    and "log_geom s" "D \<subseteq> home s" "set ts \<subseteq> {..<nat (l_n s)}" "l_sector s ` set ts \<subseteq> home s"
  shows "wp (install_from ts) (\<lambda>_ t. bc t Map.empty (D - l_sector s ` set ts) \<and> view t = apply_writes (home_writes s ts) (view s) \<and>
     disk t = apply_writes (home_writes s ts) (disk s) \<and> wtrace t = wtrace s @ home_writes s ts \<and> bio_frame s t) s"
  using assms
proof (induction ts arbitrary: s D)
  case Nil
  then show ?case by (simp add: wp_rules home_writes_def)
next
  case (Cons i ts)
  let ?a = "logblk s i" and ?b = "l_sector s i"
  have i: "i < nat (l_n s)" using Cons.prems by simp
  have b: "?b \<in> home s" "?a \<notin> D" "?a \<noteq> ?b" "?a < disksize s" "?b < disksize s" "?b \<in> D \<or> card D + 1 < NBUF"
    using Cons.prems logblk_not_home [OF _ i] logblk_rng [OF _ i] home_rng by auto
  have dev: "l_dev s = 1" using log_geomD [OF Cons.prems(4)] by simp
  have l: "home_writes s (i # ts) = (?b, view s ?a) # home_writes s ts" by (simp add: home_writes_def)
  have fin: "finite D" using bc_finite [OF Cons.prems(1)] by simp
  have room: "card (D - {?b}) + 1 < NBUF"
  proof (cases "?b \<in> D")
    case True
    then have "card (D - {?b}) < card D" using fin by (intro psubset_card_mono) auto
    then show ?thesis using Cons.prems(2) by simp
  next
    case False
    then show ?thesis using b(6) by simp
  qed
  show ?case unfolding install_from.simps wp_kbind [of "kget _"] wp_kget prod.case dev logblk_def [symmetric]
  proof (rule install_turn [OF Cons.prems(1,2) b(6,3,2,4,5)])
    fix t assume t: "bc t Map.empty (D - {?b})" "view t = (view s)(?b := view s ?a)" "disk t = (disk s)(?b := view s ?a)"
      "wtrace t = wtrace s @ [(?b, view s ?a)]" "bio_frame s t"
    note same = bio_frame_log [OF t(5)]
    have sec: "l_sector t = l_sector s" "l_n t = l_n s" using same by (simp_all add: log_same_def)
    have "logblk s j \<noteq> ?b" if "j \<in> set ts" for j
      using logblk_not_home [OF Cons.prems(4), of j] that Cons.prems(6) b(1) by auto
    then have ws: "home_writes t ts = home_writes s ts"
      using t(2) log_same_eqs(5) [OF same] sec by (auto simp: home_writes_def)
    have D: "D - {?b} - l_sector t ` set ts = D - l_sector s ` set (i # ts)" using sec by auto
    have "wp (install_from ts) (\<lambda>_ u. bc u Map.empty (D - {?b} - l_sector t ` set ts) \<and>
       view u = apply_writes (home_writes t ts) (view t) \<and>
       disk u = apply_writes (home_writes t ts) (disk t) \<and> wtrace u = wtrace t @ home_writes t ts \<and> bio_frame t u) t"
      by (rule Cons.IH) (use t(1) Cons.prems log_same_eqs [OF same] sec room in auto)
    then show "wp (install_from ts) (\<lambda>_ u. bc u Map.empty (D - l_sector s ` set (i # ts)) \<and>
       view u = apply_writes (home_writes s (i # ts)) (view s) \<and>
       disk u = apply_writes (home_writes s (i # ts)) (disk s) \<and> wtrace u = wtrace s @ home_writes s (i # ts) \<and> bio_frame s u) t"
      unfolding D by (rule wp_mono) (simp add: ws l t bio_frame_trans [OF t(5)])
  qed
qed

section \<open>The header block\<close>

lemma put_heads_outside:
  "k < 4 \<Longrightarrow> fold (\<lambda>i d. put32 d (4 + 4 * i) (f i)) [0..<n] d k = d k"
  by (induction n) (auto simp: put32_outside)

lemma get32_put_head: "get32 (put_head n f d) 0 = of_int n"
proof -
  have "get32 (put_head n f d) 0 = get32 (put32 d 0 (of_int n)) 0"
    unfolding put_head_def by (rule get32_cong) (simp add: put_heads_outside)
  then show ?thesis by simp
qed

lemma get32_put_heads:
  "i < n \<Longrightarrow> get32 (fold (\<lambda>i d. put32 d (4 + 4 * i) (f i)) [0..<n] d) (4 + 4 * i) = f i"
proof (induction n)
  case (Suc n)
  then show ?case by (cases "i = n") auto
qed simp

lemma get32_put_head_sector: "i < nat n \<Longrightarrow> get32 (put_head n f d) (4 + 4 * i) = f i"
  by (simp add: put_head_def get32_put_heads)

lemma put_head_0: "put_head 0 f d = put32 d 0 0"
  by (simp add: put_head_def)

lemma read_sectors_apply: "read_sectors d n f i = (if i < nat n then get32 d (4 + 4 * i) else f i)"
proof -
  have "fold (\<lambda>i f. f(i := get32 d (4 + 4 * i))) [0..<m] f i = (if i < m then get32 d (4 + 4 * i) else f i)" for m
    by (induction m) auto
  then show ?thesis by (simp add: read_sectors_def)
qed

lemma write_headE:
  fixes s :: "'a log_state_scheme"
  defines "h \<equiv> put_head (l_n s) (l_sector s) (view s (l_start s))"
  assumes bc: "bc s Map.empty D" and card: "card D < NBUF" and st: "l_start s \<notin> D" "l_start s < disksize s" "l_dev s = 1"
  shows "wp write_head (\<lambda>_ t. bc t Map.empty D \<and> view t = (view s)(l_start s := h) \<and> disk t = (disk s)(l_start s := h) \<and>
     wtrace t = wtrace s @ [(l_start s, h)] \<and> bio_frame s t) s"
proof -
  let ?a = "l_start s"
  obtain i s1 where r1: "\<And>Q. wp (bread 1 ?a) Q s = Q i s1" and bc1: "bc s1 [i \<mapsto> ?a] D"
    and s1: "view s1 = view s" "disk s1 = disk s" "wtrace s1 = wtrace s" "bio_frame s s1"
    by (rule breadE [OF bc, of ?a]) (use card st in auto)
  have fa: "b_data (bufs s1 i) = view s ?a" using bc_data [OF bc1, of i ?a] s1 by simp
  obtain s2 where r2: "\<And>Q. wp (set_buf i ((bufs s1 i)\<lparr>b_data := h\<rparr>)) Q s1 = Q () s2" and bc2: "bc s2 [i \<mapsto> ?a] D"
    and s2: "view s2 = (view s1)(?a := h)" "disk s2 = disk s1" "wtrace s2 = wtrace s1" "bio_frame s1 s2"
    by (rule set_dataE [OF bc1, of i ?a h]) auto
  have a2: "?a < disksize s2" using bio_frame_fields(1) [OF bio_frame_trans [OF s1(4) s2(4)]] st by simp
  obtain s3 where r3: "\<And>Q. wp (bwrite i) Q s2 = Q () s3" and bc3: "bc s3 [i \<mapsto> ?a] (D - {?a})"
    and s3: "view s3 = view s2" "disk s3 = (disk s2)(?a := view s2 ?a)" "wtrace s3 = wtrace s2 @ [(?a, view s2 ?a)]" "bio_frame s2 s3"
    by (rule bwriteE [OF bc2 _ a2]) auto
  obtain s4 where r4: "\<And>Q. wp (brelse i) Q s3 = Q () s4" and bc4: "bc s4 ([i \<mapsto> ?a](i := None)) (D - {?a})"
    and s4: "view s4 = view s3" "disk s4 = disk s3" "wtrace s4 = wtrace s3" "bio_frame s3 s4"
    by (rule brelseE [OF bc3, of i ?a]) (use s2 s3 in auto)
  have H: "[i \<mapsto> ?a](i := None) = Map.empty" "D - {?a} = D" using st by auto
  have fr: "bio_frame s s4" using s1(4) s2(4) s3(4) s4(4) bio_frame_trans by blast
  have "wp write_head Q s = Q () s4" for Q
    using r2 unfolding h_def by (simp add: write_head_def wp_rules r1 r3 r4 fa st(3))
  then show ?thesis using fr s1 s2 s3 s4 bc4 [unfolded H] by simp
qed

lemma bc_log_upd [simp]:
  "bc (s\<lparr>l_n := n\<rparr>) H D = bc s H D" "bc (s\<lparr>l_sector := f\<rparr>) H D = bc s H D"
  "bc (s\<lparr>l_outstanding := k\<rparr>) H D = bc s H D" "bc (s\<lparr>l_committing := c\<rparr>) H D = bc s H D"
  "bc (s\<lparr>l_start := a, l_size := z, l_dev := v\<rparr>) H D = bc s H D"
  for s :: "'a log_state_scheme"
  by (simp_all cong: bc_cong add: bc_def bcache_inv_def owns_def caches_def)

lemma view_log_upd [simp]:
  "view (s\<lparr>l_n := n\<rparr>) = view s" "view (s\<lparr>l_sector := f\<rparr>) = view s"
  "view (s\<lparr>l_outstanding := k\<rparr>) = view s" "view (s\<lparr>l_committing := c\<rparr>) = view s"
  "view (s\<lparr>l_start := a, l_size := z, l_dev := v\<rparr>) = view s"
  for s :: "'a log_state_scheme"
  by (rule view_cong; simp)+

end
