(* ===== verification/Log_Commit.thy ===== *)
theory Log_Commit
  imports Log
begin

text \<open>
  What \<^verbatim>\<open>commit\<close> and \<^verbatim>\<open>recover_from_log\<close> do, as exact sequences of sector writes, and what a crash
  between any two of those writes leaves behind after recovery.
\<close>

section \<open>commit\<close>

definition commit_head :: "'a log_state_scheme \<Rightarrow> bytes" where
  "commit_head s = put_head (l_n s) (l_sector s) (view s (l_start s))"

definition commit_home :: "'a log_state_scheme \<Rightarrow> (uint \<times> bytes) list" where
  "commit_home s = map (\<lambda>sec. (sec, view s sec)) (logged s)"

definition commit_writes :: "'a log_state_scheme \<Rightarrow> (uint \<times> bytes) list" where
  "commit_writes s = log_writes s [0..<nat (l_n s)] @ [(l_start s, commit_head s)] @ commit_home s @
     [(l_start s, put32 (commit_head s) 0 0)]"

lemma view_log_block:
  assumes "log_geom s" "i < nat (l_n s)"
  shows "apply_writes (log_writes s [0..<nat (l_n s)]) d (logblk s i) = view s (l_sector s i)"
proof (rule apply_writes_distinct)
  show "distinct (map fst (log_writes s [0..<nat (l_n s)]))"
    using logblk_inj [OF assms(1)] by (auto simp: log_writes_def distinct_map inj_on_def)
qed (use assms(2) in \<open>auto simp: log_writes_def\<close>)

lemma log_writes_home:
  assumes "log_geom s" "sec \<in> home s"
  shows "apply_writes (log_writes s [0..<nat (l_n s)]) d sec = d sec"
  using assms logblk_not_home [OF assms(1)] by (intro apply_writes_other) (auto simp: log_writes_def)

lemma log_writes_start:
  "log_geom s \<Longrightarrow> apply_writes (log_writes s [0..<nat (l_n s)]) d (l_start s) = d (l_start s)"
  using logblk_start [of s] by (intro apply_writes_other) (auto simp: log_writes_def dest: sym)

lemma length_logged: "length (logged s) = nat (l_n s)"
  by (simp add: logged_def)

lemma card_logged: "log_wf s \<Longrightarrow> card (set (logged s)) < NBUF"
proof -
  assume "log_wf s"
  then have "card (set (logged s)) = nat (l_n s)" "nat (l_n s) < 30"
    using log_geomD [of s] by (auto simp: log_wf_def distinct_card length_logged)
  then show ?thesis by simp
qed

lemma logged_home: "log_wf s \<Longrightarrow> i < nat (l_n s) \<Longrightarrow> l_sector s i \<in> home s"
  by (auto simp: log_wf_def logged_def)

lemma commit_trace:
  assumes bc: "bc s Map.empty (set (logged s))" and wf: "log_wf s" and n: "0 < l_n s"
  shows "wp commit (\<lambda>_ t. bc t Map.empty {} \<and> bio_frame (s\<lparr>l_n := 0\<rparr>) t \<and> wtrace t = wtrace s @ commit_writes s \<and>
     disk t = apply_writes (commit_writes s) (disk s) \<and> view t = apply_writes (commit_writes s) (view s)) s"
proof -
  let ?D = "set (logged s)" and ?ts = "[0..<nat (l_n s)]" and ?a = "l_start s"
  have g: "log_geom s" and sub: "?D \<subseteq> home s" using wf by (auto simp: log_wf_def)
  have sec: "l_sector s ` set ?ts = ?D" by (auto simp: logged_def)
  have st: "?a \<notin> ?D" "?a < disksize s" "l_dev s = 1"
    using start_not_home [OF g] start_rng [OF g] log_geomD [OF g] sub by auto
  have c1: "wp write_log (\<lambda>_ t. bc t Map.empty ?D \<and> view t = apply_writes (log_writes s ?ts) (view s) \<and>
     disk t = apply_writes (log_writes s ?ts) (disk s) \<and> wtrace t = wtrace s @ log_writes s ?ts \<and> bio_frame s t) s"
    unfolding write_log_def wp_kbind wp_kget
    by (rule write_log_fromE [OF bc card_logged [OF wf] g sub]) (use sec in auto)
  then obtain s1 where r1: "\<And>Q. wp write_log Q s = Q () s1" and bc1: "bc s1 Map.empty ?D"
    and s1: "view s1 = apply_writes (log_writes s ?ts) (view s)" "disk s1 = apply_writes (log_writes s ?ts) (disk s)"
      "wtrace s1 = wtrace s @ log_writes s ?ts" "bio_frame s s1"
    by (elim wp_unitE) (elim conjE, rule that)
  note same1 = bio_frame_log [OF s1(4)]
  have f1: "l_start s1 = ?a" "l_n s1 = l_n s" "l_sector s1 = l_sector s" "l_dev s1 = 1" "disksize s1 = disksize s"
    using same1 st by (simp_all add: log_same_def)
  have h1: "put_head (l_n s1) (l_sector s1) (view s1 (l_start s1)) = commit_head s"
    by (simp add: f1 s1 log_writes_start [OF g] commit_head_def)
  have st1: "l_start s1 \<notin> ?D" "l_start s1 < disksize s1" using st f1 by simp_all
  note c2 = write_headE [OF bc1 card_logged [OF wf] st1 f1(4), unfolded h1, unfolded f1]
  then obtain s2 where r2: "\<And>Q. wp write_head Q s1 = Q () s2" and bc2: "bc s2 Map.empty ?D"
    and s2: "view s2 = (view s1)(?a := commit_head s)" "disk s2 = (disk s1)(?a := commit_head s)"
      "wtrace s2 = wtrace s1 @ [(?a, commit_head s)]" "bio_frame s1 s2"
    by (elim wp_unitE) (elim conjE, rule that)
  note fr2 = bio_frame_trans [OF s1(4) s2(4)]
  note same2 = bio_frame_log [OF fr2]
  have f2: "l_start s2 = ?a" "l_n s2 = l_n s" "l_sector s2 = l_sector s" "l_dev s2 = 1" "disksize s2 = disksize s"
    using same2 st by (simp_all add: log_same_def)
  have "view s2 (logblk s i) = view s (l_sector s i)" if "i < nat (l_n s)" for i
    using that logblk_start [OF g that] by (simp add: s2 s1 view_log_block [OF g])
  then have hw: "home_writes s2 ?ts = commit_home s"
    by (simp add: home_writes_def commit_home_def logged_def f2 log_same_eqs(5) [OF same2])
  have "wp install_trans (\<lambda>_ t. bc t Map.empty (?D - l_sector s2 ` set ?ts) \<and> view t = apply_writes (home_writes s2 ?ts) (view s2) \<and>
     disk t = apply_writes (home_writes s2 ?ts) (disk s2) \<and> wtrace t = wtrace s2 @ home_writes s2 ?ts \<and> bio_frame s2 t) s2"
    unfolding install_trans_def wp_kbind wp_kget f2(2)
    by (rule install_fromE [OF bc2 card_logged [OF wf]])
      (use g sub n in \<open>auto simp: f2 log_same_eqs [OF same2] logged_def hd_map upt_conv_Cons\<close>)
  then obtain s3 where r3: "\<And>Q. wp install_trans Q s2 = Q () s3" and bc3: "bc s3 Map.empty {}"
    and s3: "view s3 = apply_writes (commit_home s) (view s2)" "disk s3 = apply_writes (commit_home s) (disk s2)"
      "wtrace s3 = wtrace s2 @ commit_home s" "bio_frame s2 s3"
    unfolding hw f2 sec Diff_cancel by (elim wp_unitE) (elim conjE, rule that)
  note fr3 = bio_frame_trans [OF fr2 s3(4)]
  have f3: "l_start s3 = ?a" "l_sector s3 = l_sector s" "l_dev s3 = 1" "disksize s3 = disksize s"
    using bio_frame_log [OF fr3] st by (simp_all add: log_same_def)
  have a3: "view s3 ?a = commit_head s"
    using st by (simp add: s3 s2 apply_writes_other commit_home_def image_image)
  let ?s3 = "s3\<lparr>l_n := 0\<rparr>"
  have h3: "put_head (l_n ?s3) (l_sector ?s3) (view ?s3 (l_start ?s3)) = put32 (commit_head s) 0 0"
    by (simp add: f3 a3 put_head_0)
  have bc3': "bc ?s3 Map.empty {}" using bc3 by simp
  have st3: "l_start ?s3 \<notin> {}" "l_start ?s3 < disksize ?s3" "l_dev ?s3 = 1" using st f3 by simp_all
  have "wp write_head (\<lambda>_ t. bc t Map.empty {} \<and> view t = (view s3)(?a := put32 (commit_head s) 0 0) \<and>
     disk t = (disk s3)(?a := put32 (commit_head s) 0 0) \<and>
     wtrace t = wtrace s3 @ [(?a, put32 (commit_head s) 0 0)] \<and> bio_frame ?s3 t) ?s3"
    using write_headE [OF bc3' _ st3, unfolded h3] by (simp add: f3)
  then obtain s4 where r4: "\<And>Q. wp write_head Q ?s3 = Q () s4" and bc4: "bc s4 Map.empty {}"
    and s4: "view s4 = (view s3)(?a := put32 (commit_head s) 0 0)" "disk s4 = (disk s3)(?a := put32 (commit_head s) 0 0)"
      "wtrace s4 = wtrace s3 @ [(?a, put32 (commit_head s) 0 0)]" "bio_frame ?s3 s4"
    by (elim wp_unitE) (elim conjE, rule that)
  have "bio_frame (s\<lparr>l_n := 0\<rparr>) ?s3" using bio_frame_log_upd(1) [OF fr3] .
  then have "bio_frame (s\<lparr>l_n := 0\<rparr>) s4" using s4(4) bio_frame_trans by blast
  moreover have "wp commit Q s = Q () s4" for Q
    using n by (simp add: commit_def wp_rules r1 r2 r3 r4)
  ultimately show ?thesis using bc4 s1 s2 s3 s4 by (simp add: commit_writes_def)
qed

section \<open>Recovery\<close>

text \<open>
  The header a disk holds, and the writes that recovery performs for it: each logged block to its home,
  then the cleared header.
\<close>

definition head_n :: "bytes \<Rightarrow> int" where
  "head_n h = sint (get32 h 0)"

definition recover_home :: "uint \<Rightarrow> (uint \<Rightarrow> bytes) \<Rightarrow> (uint \<times> bytes) list" where
  "recover_home start d =
     map (\<lambda>i. (get32 (d start) (4 + 4 * i), d (start + of_nat i + 1))) [0..<nat (head_n (d start))]"

definition recover_writes :: "uint \<Rightarrow> (uint \<Rightarrow> bytes) \<Rightarrow> (uint \<times> bytes) list" where
  "recover_writes start d = recover_home start d @ [(start, put32 (d start) 0 0)]"

text \<open>A disk whose log header is sane: the count fits the region and the sectors named are home sectors.\<close>

definition head_ok :: "'a log_state_scheme \<Rightarrow> bytes \<Rightarrow> bool" where
  "head_ok s h \<longleftrightarrow> 0 \<le> head_n h \<and> head_n h < l_size s \<and> (\<forall>i < nat (head_n h). get32 h (4 + 4 * i) \<in> home s)"

lemma read_headE:
  assumes bc: "bc s Map.empty D" and card: "card D < NBUF" and st: "l_start s \<notin> D" "l_start s < disksize s" "l_dev s = 1"
  defines "h \<equiv> disk s (l_start s)"
  shows "wp read_head (\<lambda>_ t. bc t Map.empty D \<and> view t = view s \<and> disk t = disk s \<and> wtrace t = wtrace s \<and>
     bio_frame (s\<lparr>l_n := head_n h, l_sector := read_sectors h (head_n h) (l_sector s)\<rparr>) t) s"
proof -
  let ?a = "l_start s"
  obtain i s1 where r1: "\<And>Q. wp (bread 1 ?a) Q s = Q i s1" and bc1: "bc s1 [i \<mapsto> ?a] D"
    and s1: "view s1 = view s" "disk s1 = disk s" "wtrace s1 = wtrace s" "bio_frame s s1"
    by (rule breadE [OF bc, of ?a]) (use card st in auto)
  have fa: "b_data (bufs s1 i) = h" using bc_data [OF bc1, of i ?a] s1 view_disk [OF bc st(1)] by (simp add: h_def)
  have sec: "l_sector s1 = l_sector s" using bio_frame_log [OF s1(4)] by (simp add: log_same_def)
  let ?s2 = "s1\<lparr>l_n := head_n h, l_sector := read_sectors h (head_n h) (l_sector s)\<rparr>"
  have bc2: "bc ?s2 [i \<mapsto> ?a] D" using bc1 by simp
  obtain s3 where r3: "\<And>Q. wp (brelse i) Q ?s2 = Q () s3" and bc3: "bc s3 ([i \<mapsto> ?a](i := None)) D"
    and s3: "view s3 = view ?s2" "disk s3 = disk ?s2" "wtrace s3 = wtrace ?s2" "bio_frame ?s2 s3"
    by (rule brelseE [OF bc2, of i ?a]) (use s1 view_disk [OF bc st(1)] in auto)
  have "wp read_head Q s = Q () s3" for Q
    using r3 by (simp add: read_head_def wp_rules r1 fa st(3) sec head_n_def)
  moreover have "[i \<mapsto> ?a](i := None) = Map.empty" by auto
  moreover have "bio_frame (s\<lparr>l_n := head_n h, l_sector := read_sectors h (head_n h) (l_sector s)\<rparr>) s3"
    using bio_frame_trans [OF bio_frame_log_upd(2) [OF s1(4)] s3(4)] .
  ultimately show ?thesis using s1 s3 bc3 by simp
qed

lemma recover_trace:
  assumes bc: "bc s Map.empty {}" and ok: "head_ok s (disk s (l_start s))"
    and st: "l_dev s = 1" "l_size s \<le> int LOGSIZE" "unat (l_start s) + nat (l_size s) \<le> unat (disksize s)"
  defines "ws \<equiv> recover_writes (l_start s) (disk s)"
  shows "wp recover_from_log (\<lambda>_ t. bc t Map.empty {} \<and> l_n t = 0 \<and> l_start t = l_start s \<and> l_size t = l_size s \<and> l_dev t = 1 \<and>
     disksize t = disksize s \<and> l_outstanding t = l_outstanding s \<and> l_committing t = l_committing s \<and>
     wtrace t = wtrace s @ ws \<and> disk t = apply_writes ws (disk s) \<and> view t = apply_writes ws (view s)) s"
proof -
  let ?a = "l_start s" and ?h = "disk s (l_start s)"
  let ?s0 = "s\<lparr>l_n := head_n ?h, l_sector := read_sectors ?h (head_n ?h) (l_sector s)\<rparr>"
  have g0: "log_geom ?s0" using ok st by (simp add: log_geom_def head_ok_def)
  have rng: "?a < disksize s" using start_rng [OF g0] by simp
  have "wp read_head (\<lambda>_ t. bc t Map.empty {} \<and> view t = view s \<and> disk t = disk s \<and> wtrace t = wtrace s \<and> bio_frame ?s0 t) s"
    by (rule read_headE [OF bc]) (use rng st in simp_all)
  then obtain s1 where r1: "\<And>Q. wp read_head Q s = Q () s1" and bc1: "bc s1 Map.empty {}"
    and s1: "view s1 = view s" "disk s1 = disk s" "wtrace s1 = wtrace s" "bio_frame ?s0 s1"
    by (elim wp_unitE) (elim conjE, rule that)
  note same1 = bio_frame_log [OF s1(4)]
  have f1: "l_n s1 = head_n ?h" "l_start s1 = ?a" "l_dev s1 = 1" "disksize s1 = disksize s" "l_size s1 = l_size s"
      "l_sector s1 = read_sectors ?h (head_n ?h) (l_sector s)" "l_outstanding s1 = l_outstanding s" "l_committing s1 = l_committing s"
    using same1 st by (simp_all add: log_same_def)
  let ?ts = "[0..<nat (head_n ?h)]"
  have v: "view s = disk s" using view_disk [OF bc] by auto
  have hw: "home_writes s1 ?ts = recover_home ?a (disk s)"
    by (simp add: home_writes_def recover_home_def logblk_def f1 read_sectors_apply s1 v)
  have sub: "l_sector s1 ` set ?ts \<subseteq> home s1"
    using ok log_same_eqs(2) [OF same1] by (auto simp: head_ok_def f1 read_sectors_apply home_def)
  have "wp install_trans (\<lambda>_ t. bc t Map.empty ({} - l_sector s1 ` set ?ts) \<and> view t = apply_writes (home_writes s1 ?ts) (view s1) \<and>
     disk t = apply_writes (home_writes s1 ?ts) (disk s1) \<and> wtrace t = wtrace s1 @ home_writes s1 ?ts \<and> bio_frame s1 t) s1"
    unfolding install_trans_def wp_kbind wp_kget f1(1)
    by (rule install_fromE [OF bc1]) (use g0 sub log_same_eqs(3) [OF same1] f1 in auto)
  then obtain s2 where r2: "\<And>Q. wp install_trans Q s1 = Q () s2" and bc2: "bc s2 Map.empty {}"
    and s2: "view s2 = apply_writes (recover_home ?a (disk s)) (view s1)" "disk s2 = apply_writes (recover_home ?a (disk s)) (disk s1)"
      "wtrace s2 = wtrace s1 @ recover_home ?a (disk s)" "bio_frame s1 s2"
    unfolding hw empty_Diff by (elim wp_unitE) (elim conjE, rule that)
  have f2: "l_start s2 = ?a" "l_dev s2 = 1" "disksize s2 = disksize s" "l_size s2 = l_size s"
      "l_outstanding s2 = l_outstanding s" "l_committing s2 = l_committing s"
    using bio_frame_log [OF s2(4)] f1 by (simp_all add: log_same_def)
  have "?a \<notin> fst ` set (recover_home ?a (disk s))"
    using sub start_not_home [OF g0] log_same_eqs(2) [OF same1]
    by (auto simp: recover_home_def f1 read_sectors_apply home_def image_subset_iff)
  then have a2: "view s2 ?a = ?h" by (simp add: s2 s1 apply_writes_other v)
  let ?s2 = "s2\<lparr>l_n := 0\<rparr>"
  have bc2': "bc ?s2 Map.empty {}" using bc2 by simp
  have h2: "put_head (l_n ?s2) (l_sector ?s2) (view ?s2 (l_start ?s2)) = put32 ?h 0 0"
    by (simp add: f2 a2 put_head_0)
  have "wp write_head (\<lambda>_ t. bc t Map.empty {} \<and> view t = (view s2)(?a := put32 ?h 0 0) \<and>
     disk t = (disk s2)(?a := put32 ?h 0 0) \<and> wtrace t = wtrace s2 @ [(?a, put32 ?h 0 0)] \<and> bio_frame ?s2 t) ?s2"
    using write_headE [OF bc2', unfolded h2] rng by (simp add: f2)
  then obtain s3 where r3: "\<And>Q. wp write_head Q ?s2 = Q () s3" and bc3: "bc s3 Map.empty {}"
    and s3: "view s3 = (view s2)(?a := put32 ?h 0 0)" "disk s3 = (disk s2)(?a := put32 ?h 0 0)"
      "wtrace s3 = wtrace s2 @ [(?a, put32 ?h 0 0)]" "bio_frame ?s2 s3"
    by (elim wp_unitE) (elim conjE, rule that)
  have "wp recover_from_log Q s = Q () s3" for Q
    by (simp add: recover_from_log_def wp_rules r1 r2 r3)
  moreover have "l_n s3 = 0" "l_start s3 = ?a" "l_size s3 = l_size s" "l_dev s3 = 1" "disksize s3 = disksize s"
      "l_outstanding s3 = l_outstanding s" "l_committing s3 = l_committing s"
    using bio_frame_log [OF s3(4)] f2 by (simp_all add: log_same_def)
  ultimately show ?thesis using bc3 s1 s2 s3 by (simp add: ws_def recover_writes_def)
qed

end
