(* ===== verification/Log_Crash.thy ===== *)
theory Log_Crash
  imports Log_Commit
begin

text \<open>
  Crash safety of the log. A crash stops the machine between two sector writes, so the disk that the next
  boot finds is the old disk with a prefix of the writes of \<^verbatim>\<open>commit\<close> applied; recovery runs on that disk with
  an empty cache. The theorems hold for every prefix.
\<close>

lemma sint_small: "0 \<le> n \<Longrightarrow> n < 2 ^ 31 \<Longrightarrow> sint (of_int n :: uint) = n"
  by (simp add: signed_of_int signed_take_bit_int_eq_self)

lemma head_n_put [simp]: "head_n (put32 h 0 0) = 0"
  by (simp add: head_n_def)

lemma head_n_commit: "log_geom s \<Longrightarrow> head_n (commit_head s) = l_n s"
  by (auto simp: head_n_def commit_head_def get32_put_head log_geom_def intro: sint_small)

lemma apply_writes_absorb: "apply_writes ws (apply_writes (take k ws) d) = apply_writes ws d"
proof
  fix sec
  have mem: "apply_writes ws d sec = apply_writes ws e sec" if "sec \<in> fst ` set ws" for ws d e
    using that
  proof (induction ws arbitrary: d e)
    case (Cons w ws)
    show ?case
    proof (cases "sec \<in> fst ` set ws")
      case False
      then have "sec = fst w" using Cons.prems by auto
      then show ?thesis using apply_writes_other [OF False] by (cases w) simp
    next
      case True
      then show ?thesis using Cons.IH by (cases w) simp
    qed
  qed simp
  show "apply_writes ws (apply_writes (take k ws) d) sec = apply_writes ws d sec"
  proof (cases "sec \<in> fst ` set ws")
    case True
    then show ?thesis by (rule mem)
  next
    case False
    then have "sec \<notin> fst ` set (take k ws)" by (auto dest: in_set_takeD)
    then show ?thesis using False by (simp add: apply_writes_other)
  qed
qed

section \<open>The disk after a crash in commit\<close>

text \<open>
  The three phases of a commit, as seen on the disk: the header still says that nothing is
  committed; the header names the transaction and the log blocks hold it; the transaction is
  installed and the header is cleared.
\<close>

definition before_commit :: "'a log_state_scheme \<Rightarrow> (uint \<Rightarrow> bytes) \<Rightarrow> bool" where
  "before_commit s d \<longleftrightarrow> d (l_start s) = disk s (l_start s) \<and> (\<forall>sec \<in> home s. d sec = disk s sec)"

definition in_commit :: "'a log_state_scheme \<Rightarrow> (uint \<Rightarrow> bytes) \<Rightarrow> bool" where
  "in_commit s d \<longleftrightarrow> d (l_start s) = commit_head s \<and> (\<forall>i < nat (l_n s). d (logblk s i) = view s (l_sector s i)) \<and>
     (\<forall>sec \<in> home s. d sec = disk s sec \<or> d sec = view s sec) \<and> (\<forall>sec \<in> home s. sec \<notin> set (logged s) \<longrightarrow> d sec = disk s sec)"

definition after_commit :: "'a log_state_scheme \<Rightarrow> (uint \<Rightarrow> bytes) \<Rightarrow> bool" where
  "after_commit s d \<longleftrightarrow> head_n (d (l_start s)) = 0 \<and> (\<forall>sec \<in> home s. d sec = view s sec)"

lemma commit_home_cases:
  "apply_writes (take j (commit_home s)) d sec = d sec \<or>
   apply_writes (take j (commit_home s)) d sec = view s sec \<and> sec \<in> set (logged s)"
proof -
  have "apply_writes (map (\<lambda>x. (x, f x)) xs) d sec = d sec \<or>
      apply_writes (map (\<lambda>x. (x, f x)) xs) d sec = f sec \<and> sec \<in> set xs" for xs and f :: "uint \<Rightarrow> bytes"
  proof (induction xs arbitrary: d)
    case (Cons a xs)
    have "apply_writes (map (\<lambda>x. (x, f x)) xs) (d(a := f a)) sec = (d(a := f a)) sec \<or>
      apply_writes (map (\<lambda>x. (x, f x)) xs) (d(a := f a)) sec = f sec \<and> sec \<in> set xs" by (rule Cons.IH)
    then show ?case by (cases "sec = a") auto
  qed simp
  from this [of "view s" "take j (logged s)"] show ?thesis
    by (auto simp: commit_home_def take_map dest: in_set_takeD)
qed

lemma apply_commit_home:
  assumes "sec \<in> set (logged s)" "distinct (logged s)"
  shows "apply_writes (commit_home s) d sec = view s sec"
  by (rule apply_writes_distinct) (use assms in \<open>auto simp: commit_home_def comp_def\<close>)

lemma apply_commit_home_other: "sec \<notin> set (logged s) \<Longrightarrow> apply_writes (take j (commit_home s)) d sec = d sec"
  by (rule apply_writes_other) (auto simp: commit_home_def take_map dest: in_set_takeD)

lemma crash_before:
  assumes "log_geom s" "k \<le> nat (l_n s)"
  shows "before_commit s (apply_writes (take k (commit_writes s)) (disk s))"
proof -
  have t: "take k (commit_writes s) = map (\<lambda>i. (logblk s i, view s (l_sector s i))) [0..<k]"
    using assms(2) by (simp add: commit_writes_def log_writes_def take_map)
  have "l_start s \<notin> fst ` set (take k (commit_writes s))"
    using logblk_start [OF assms(1)] assms(2) unfolding t by (auto simp: image_iff) (metis order_less_le_trans)
  moreover have "sec \<notin> fst ` set (take k (commit_writes s))" if "sec \<in> home s" for sec
    using logblk_not_home [OF assms(1)] that assms(2) unfolding t by (auto simp: image_iff)
  ultimately show ?thesis by (simp add: before_commit_def apply_writes_other)
qed

lemma crash_during:
  assumes wf: "log_wf s" and j: "j \<le> nat (l_n s)"
  shows "in_commit s (apply_writes (take (nat (l_n s) + 1 + j) (commit_writes s)) (disk s))"
proof -
  let ?lw = "log_writes s [0..<nat (l_n s)]"
  let ?d = "(apply_writes ?lw (disk s))(l_start s := commit_head s)"
  have g: "log_geom s" using wf by (simp add: log_wf_def)
  have sub: "set (logged s) \<subseteq> home s" using wf by (simp add: log_wf_def)
  have lens: "length ?lw = nat (l_n s)" "length (commit_home s) = nat (l_n s)"
    by (simp_all add: log_writes_def commit_home_def length_logged)
  then have e: "apply_writes (take (nat (l_n s) + 1 + j) (commit_writes s)) (disk s) = apply_writes (take j (commit_home s)) ?d"
    using j by (simp add: commit_writes_def)
  have "apply_writes (take j (commit_home s)) ?d (l_start s) = commit_head s"
    using start_not_home [OF g] sub by (subst apply_commit_home_other) auto
  moreover have "apply_writes (take j (commit_home s)) ?d (logblk s i) = view s (l_sector s i)" if "i < nat (l_n s)" for i
    using logblk_not_home [OF g that] logblk_start [OF g that] sub view_log_block [OF g that]
    by (subst apply_commit_home_other) auto
  moreover have "?d sec = disk s sec" if "sec \<in> home s" for sec
    using that start_not_home [OF g] log_writes_home [OF g that] by auto
  ultimately show ?thesis unfolding e in_commit_def
    using commit_home_cases [of j s ?d] apply_commit_home_other [of _ s j ?d] by metis
qed

lemma commit_writes_home:
  assumes wf: "log_wf s" and sec: "sec \<in> home s" and same: "sec \<notin> set (logged s) \<Longrightarrow> view s sec = d sec"
  shows "apply_writes (commit_writes s) d sec = view s sec"
proof -
  have g: "log_geom s" using wf by (simp add: log_wf_def)
  have ne: "sec \<noteq> l_start s" using sec start_not_home [OF g] by auto
  show ?thesis
  proof (cases "sec \<in> set (logged s)")
    case True
    then show ?thesis using ne apply_commit_home [OF True] wf by (simp add: commit_writes_def log_wf_def)
  next
    case False
    then show ?thesis
      using ne same apply_commit_home_other [of sec s "length (commit_home s)"] log_writes_home [OF g sec]
      by (simp add: commit_writes_def)
  qed
qed

lemma crash_after:
  assumes wf: "log_wf s" and bc: "bc s Map.empty (set (logged s))" and k: "2 * nat (l_n s) + 2 \<le> k"
  shows "after_commit s (apply_writes (take k (commit_writes s)) (disk s))"
proof -
  have "length (commit_writes s) = 2 * nat (l_n s) + 2"
    by (simp add: commit_writes_def log_writes_def commit_home_def length_logged)
  then have t: "take k (commit_writes s) = commit_writes s" using k by simp
  have "apply_writes (commit_writes s) (disk s) (l_start s) = put32 (commit_head s) 0 0"
    by (simp add: commit_writes_def)
  then show ?thesis
    using commit_writes_home [OF wf] view_disk [OF bc] by (simp add: after_commit_def t)
qed

lemma crash_cases:
  fixes k :: nat
  assumes "log_wf s" "bc s Map.empty (set (logged s))"
  defines "d \<equiv> apply_writes (take k (commit_writes s)) (disk s)"
  shows "k \<le> nat (l_n s) \<and> before_commit s d \<or> nat (l_n s) < k \<and> (in_commit s d \<or> after_commit s d)"
proof -
  consider "k \<le> nat (l_n s)" | j where "k = nat (l_n s) + 1 + j" "j \<le> nat (l_n s)" | "2 * nat (l_n s) + 2 \<le> k"
  proof -
    have "k \<le> nat (l_n s) \<or> k = nat (l_n s) + 1 + (k - nat (l_n s) - 1) \<and> k - nat (l_n s) - 1 \<le> nat (l_n s) \<or> 2 * nat (l_n s) + 2 \<le> k"
      by linarith
    then show thesis using that by blast
  qed
  then show ?thesis
  proof cases
    case 1
    then show ?thesis using crash_before [of s k] assms by (simp add: log_wf_def)
  next
    case (2 j)
    then show ?thesis using crash_during [OF assms(1), of j] assms by simp
  next
    case 3
    then show ?thesis using crash_after [OF assms(1,2) 3] assms by simp
  qed
qed

section \<open>Recovery of each phase\<close>

lemma recover_empty:
  "head_n (d start) = 0 \<Longrightarrow> recover_writes start d = [(start, put32 (d start) 0 0)]"
  by (simp add: recover_writes_def recover_home_def)

lemma recover_committed:
  assumes wf: "log_wf s" and bc: "bc s Map.empty (set (logged s))" and d: "in_commit s d" and sec: "sec \<in> home s"
  shows "apply_writes (recover_writes (l_start s) d) d sec = view s sec"
proof -
  have g: "log_geom s" using wf by (simp add: log_wf_def)
  have ne: "sec \<noteq> l_start s" using sec start_not_home [OF g] by auto
  have h: "d (l_start s) = commit_head s" using d by (simp add: in_commit_def)
  have rh: "recover_home (l_start s) d = commit_home s"
    using d unfolding recover_home_def h head_n_commit [OF g]
    by (simp add: commit_home_def logged_def in_commit_def logblk_def commit_head_def get32_put_head_sector)
  show ?thesis
  proof (cases "sec \<in> set (logged s)")
    case True
    then show ?thesis using ne apply_commit_home [OF True] wf by (simp add: recover_writes_def rh log_wf_def)
  next
    case False
    then have "d sec = view s sec" using d sec view_disk [OF bc] by (simp add: in_commit_def)
    then show ?thesis
      using ne False apply_commit_home_other [of sec s "length (commit_home s)"] by (simp add: recover_writes_def rh)
  qed
qed

lemma head_ok_commit:
  assumes "log_wf s" "l_size b = l_size s" "home b = home s"
  shows "head_ok b (commit_head s)"
proof -
  have g: "log_geom s" using assms by (simp add: log_wf_def)
  have "get32 (commit_head s) (4 + 4 * i) \<in> home b" if "i < nat (l_n s)" for i
    using that logged_home [OF assms(1) that] assms(3) by (simp add: commit_head_def get32_put_head_sector)
  then show ?thesis
    using assms(2) g by (simp add: head_ok_def head_n_commit [OF g] log_geom_def)
qed

section \<open>Boot\<close>

definition sb_gives :: "bytes \<Rightarrow> uint \<Rightarrow> int \<Rightarrow> bool" where
  "sb_gives d start sz \<longleftrightarrow> sb_size (get_superblock d) - sb_nlog (get_superblock d) = start \<and> sint (sb_nlog (get_superblock d)) = sz"

definition home_at :: "uint \<Rightarrow> int \<Rightarrow> uint \<Rightarrow> uint set" where
  "home_at start sz n = {sec. sec < n \<and> (unat sec < unat start \<or> unat start + nat sz \<le> unat sec)}"

lemma home_home_at: "home s = home_at (l_start s) (l_size s) (disksize s)"
  by (simp add: home_def home_at_def)

definition head_ok_at :: "uint \<Rightarrow> int \<Rightarrow> uint \<Rightarrow> bytes \<Rightarrow> bool" where
  "head_ok_at start sz n h \<longleftrightarrow> 0 \<le> head_n h \<and> head_n h < sz \<and> (\<forall>i < nat (head_n h). get32 h (4 + 4 * i) \<in> home_at start sz n)"

lemma initlog_trace:
  assumes bc: "bc b Map.empty {}" and sb: "sb_gives (disk b 1) start sz" and one: "1 < disksize b"
    and ok: "head_ok_at start sz (disksize b) (disk b start)"
    and st: "sz \<le> int LOGSIZE" "unat start + nat sz \<le> unat (disksize b)"
  defines "ws \<equiv> recover_writes start (disk b)"
  shows "wp initlog (\<lambda>_ t. bc t Map.empty {} \<and> l_n t = 0 \<and> l_start t = start \<and> l_size t = sz \<and> l_dev t = 1 \<and>
     disksize t = disksize b \<and> l_outstanding t = l_outstanding b \<and> l_committing t = l_committing b \<and>
     wtrace t = wtrace b @ ws \<and> disk t = apply_writes ws (disk b) \<and> view t = apply_writes ws (disk b)) b"
proof -
  have v: "view b = disk b" using view_disk [OF bc] by auto
  obtain c where r1: "\<And>Q. wp (readsb 1) Q b = Q (get_superblock (view b 1)) c" and bc1: "bc c Map.empty {}"
    and c: "view c = view b" "disk c = disk b" "wtrace c = wtrace b" "bio_frame b c"
    by (rule readsbE [OF bc]) (use one v in auto)
  let ?c = "c\<lparr>l_start := start, l_size := sz, l_dev := 1\<rparr>"
  have f: "disksize c = disksize b" "l_outstanding c = l_outstanding b" "l_committing c = l_committing b"
    using bio_frame_log [OF c(4)] by (simp_all add: log_same_def)
  have "wp recover_from_log (\<lambda>_ t. bc t Map.empty {} \<and> l_n t = 0 \<and> l_start t = l_start ?c \<and> l_size t = l_size ?c \<and> l_dev t = 1 \<and>
     disksize t = disksize ?c \<and> l_outstanding t = l_outstanding ?c \<and> l_committing t = l_committing ?c \<and>
     wtrace t = wtrace ?c @ recover_writes (l_start ?c) (disk ?c) \<and> disk t = apply_writes (recover_writes (l_start ?c) (disk ?c)) (disk ?c) \<and>
     view t = apply_writes (recover_writes (l_start ?c) (disk ?c)) (view ?c)) ?c"
    by (rule recover_trace) (use bc1 ok st f c(2) in \<open>auto simp: head_ok_def head_ok_at_def home_home_at\<close>)
  then show ?thesis
    using sb by (simp add: initlog_def wp_rules r1 v sb_gives_def f c ws_def)
qed

section \<open>Properties\<close>

text \<open>
  C1: a transaction is atomic with respect to crashes. Take any state with a pending transaction (the
  sectors \<open>logged s\<close>, whose changes are only in the cache) and the run of \<^verbatim>\<open>commit\<close> from it, and stop the
  machine after any number \<open>k\<close> of the sector writes of that run. Booting from the disk so obtained, \<^verbatim>\<open>initlog\<close>
  succeeds and leaves every home sector as it was before the transaction (when at most the log blocks had been
  written) or with all the transaction's changes (from the header write on): never a mixture.
\<close>

theorem commit_crash_atomic:
  assumes bc: "bc s Map.empty (set (logged s))" and wf: "log_wf s" and clear: "head_n (disk s (l_start s)) = 0"
    and sb: "sb_gives (disk s 1) (l_start s) (l_size s)" "sb_gives (view s 1) (l_start s) (l_size s)" "1 \<in> home s"
    and run: "commit s = Ok () t"
    and boot: "bc b Map.empty {}" "disksize b = disksize s"
      "disk b = apply_writes (take k (drop (length (wtrace s)) (wtrace t))) (disk s)"
  shows "wp initlog (\<lambda>_ u. (\<forall>sec \<in> home s. view u sec = (if k \<le> nat (l_n s) then disk s sec else view s sec)) \<and>
     head_n (disk u (l_start s)) = 0 \<and> l_n u = 0 \<and> bc u Map.empty {}) b"
proof -
  have g: "log_geom s" using wf by (simp add: log_wf_def)
  have ws: "0 < l_n s \<Longrightarrow> drop (length (wtrace s)) (wtrace t) = commit_writes s"
    using commit_trace [OF bc wf] run by (simp add: wp_def)
  have phase: "k \<le> nat (l_n s) \<and> before_commit s (disk b) \<or> nat (l_n s) < k \<and> (in_commit s (disk b) \<or> after_commit s (disk b))"
  proof (cases "0 < l_n s")
    case True
    then show ?thesis using crash_cases [OF wf bc] boot(3) ws by simp
  next
    case False
    then have "t = s" "logged s = []" using run by (auto simp: commit_def kbind_def kget_def kret_def logged_def)
    then show ?thesis using view_disk [OF bc] boot(3) clear
      by (cases "k \<le> nat (l_n s)") (auto simp: before_commit_def after_commit_def)
  qed
  have home: "home_at (l_start s) (l_size s) (disksize b) = home s" using boot by (simp add: home_home_at)
  have head: "head_n (disk b (l_start s)) = 0 \<or> in_commit s (disk b)"
    using phase clear by (auto simp: before_commit_def after_commit_def)
  have ok: "head_ok_at (l_start s) (l_size s) (disksize b) (disk b (l_start s))"
  proof (cases "in_commit s (disk b)")
    case True
    then show ?thesis using head_ok_commit [OF wf refl refl] home by (simp add: in_commit_def head_ok_at_def head_ok_def)
  next
    case False
    then show ?thesis using head g by (auto simp: head_ok_at_def log_geom_def)
  qed
  have one: "sb_gives (disk b 1) (l_start s) (l_size s)" "1 < disksize b"
    using phase sb boot(2) home_rng [OF sb(3)] by (auto simp: before_commit_def in_commit_def after_commit_def)
  have res: "apply_writes (recover_writes (l_start s) (disk b)) (disk b) sec = (if k \<le> nat (l_n s) then disk s sec else view s sec)"
    if sec: "sec \<in> home s" for sec
  proof -
    have "sec \<noteq> l_start s" using sec start_not_home [OF g] by auto
    then show ?thesis using phase recover_committed [OF wf bc _ sec] sec clear
      by (auto simp: before_commit_def after_commit_def recover_empty)
  qed
  show ?thesis
    by (rule wp_mono [OF initlog_trace [OF boot(1) one ok]])
      (use g res boot(2) in \<open>auto simp: log_geom_def recover_writes_def\<close>)
qed

text \<open>A disk of 100 blocks, the last 30 of them the log, and a transaction that changes block 40.\<close>

definition demo_disk :: "uint \<Rightarrow> bytes" where
  "demo_disk sec = (if sec = 1 then put32 (put32 (\<lambda>_. 0) 0 100) 12 30 else (\<lambda>_. 0))"

definition demo_log :: "(uint \<Rightarrow> bytes) \<Rightarrow> buf \<Rightarrow> int \<Rightarrow> log_state" where
  "demo_log d b n = \<lparr>mem = (\<lambda>_. 0), freelist = 0, use_lock = False, kend = 0, ptab = (\<lambda>_. undefined), cur = None,
     initproc = None, nextpid = 1, disk = d, disksize = 100, wtrace = [],
     bufs = (\<lambda>_. \<lparr>b_flags = 0, b_dev = - 1, b_sector = 0, b_data = (\<lambda>_. 0)\<rparr>)(0 := b), lru = [0..<NBUF],
     l_start = 70, l_size = 30, l_outstanding = 0, l_committing = False, l_dev = 1, l_n = n, l_sector = (\<lambda>_. 40)\<rparr>"

definition demo_pinned :: buf where
  "demo_pinned = \<lparr>b_flags = B_VALID OR B_DIRTY, b_dev = 1, b_sector = 40, b_data = (\<lambda>_. 7)\<rparr>"

definition demo_free :: buf where
  "demo_free = \<lparr>b_flags = 0, b_dev = - 1, b_sector = 0, b_data = (\<lambda>_. 0)\<rparr>"

lemma demo_caches: "caches (demo_log d demo_pinned n) sec i \<longleftrightarrow> i = 0 \<and> sec = 40" "\<not> caches (demo_log d demo_free n) sec i"
  by (auto simp: caches_def demo_log_def demo_pinned_def demo_free_def)

lemma demo_flags: "\<not> busy demo_pinned" "valid demo_pinned" "dirty demo_pinned" "\<not> busy demo_free" "\<not> valid demo_free" "\<not> dirty demo_free" "b_dev demo_pinned = 1"
  by (simp_all add: demo_pinned_def demo_free_def flag_simps bit_or_iff)

lemma demo_bufs: "bufs (demo_log d b n) i = (if i = 0 then b else demo_free)"
  by (simp add: demo_log_def demo_free_def)

lemma demo_bc:
  "bc (demo_log d demo_pinned 1) Map.empty {40}" "bc (demo_log d demo_free n) Map.empty {}"
proof -
  have inv: "bcache_inv (demo_log d b n)" if "b = demo_pinned \<or> b = demo_free" for b n
    using that demo_flags
    by (auto simp: bcache_inv_def demo_bufs) (auto simp: demo_pinned_def demo_free_def demo_log_def)
  show "bc (demo_log d demo_pinned 1) Map.empty {40}"
    by (rule bc_intro) (use inv demo_flags in \<open>auto simp: demo_bufs demo_caches split: if_splits\<close>)
  show "bc (demo_log d demo_free n) Map.empty {}"
    by (rule bc_intro) (use inv demo_flags in \<open>auto simp: demo_bufs demo_caches split: if_splits\<close>)
qed

lemma demo_wf: "log_wf (demo_log d b 1)" "logged (demo_log d b 1) = [40]" "1 \<in> home (demo_log d b 1)"
  by (simp_all add: log_wf_def log_geom_def logged_def home_def demo_log_def)

lemma demo_view: "view (demo_log d demo_pinned n) sec = (if sec = 40 then (\<lambda>_. 7) else d sec)"
proof (cases "sec = 40")
  case True
  have "find (\<lambda>i. caches (demo_log d demo_pinned n) 40 i \<and> valid (bufs (demo_log d demo_pinned n) i)) [0..<NBUF] = Some 0"
    using demo_flags by (simp add: demo_caches demo_bufs upt_conv_Cons)
  then show ?thesis using True by (simp add: view_def demo_bufs demo_pinned_def)
next
  case False
  then show ?thesis by (subst view_uncached) (auto simp: demo_caches, simp add: demo_log_def)
qed

theorem commit_crash_atomic_witness:
  "\<exists>t. commit (demo_log demo_disk demo_pinned 1) = Ok () t \<and>
     wp initlog (\<lambda>_ u. view u 40 = (\<lambda>_. 7)) (demo_log (apply_writes (take 2 (wtrace t)) demo_disk) demo_free 0) \<and>
     wp initlog (\<lambda>_ u. view u 40 = (\<lambda>_. 0)) (demo_log (apply_writes (take 1 (wtrace t)) demo_disk) demo_free 0)"
proof -
  let ?s = "demo_log demo_disk demo_pinned 1"
  have bc: "bc ?s Map.empty (set (logged ?s))" using demo_bc(1) by (simp add: demo_wf)
  have n: "0 < l_n ?s" by (simp add: demo_log_def)
  obtain t where t: "commit ?s = Ok () t" using commit_trace [OF bc demo_wf(1) n] by (auto simp: wp_Ok)
  have f: "l_start ?s = 70" "l_size ?s = 30" "l_n ?s = 1" "disk ?s = demo_disk" "wtrace ?s = []" "disksize ?s = 100"
    by (simp_all add: demo_log_def)
  have sb: "sb_gives (demo_disk 1) 70 30" by (simp add: sb_gives_def demo_disk_def get_superblock_def)
  have h: "head_n (demo_disk 70) = 0" by (simp add: demo_disk_def head_n_def get32_def)
  let ?b = "\<lambda>k. demo_log (apply_writes (take k (wtrace t)) demo_disk) demo_free 0"
  have fb: "bc (?b k) Map.empty {}" "disksize (?b k) = 100" "disk (?b k) = apply_writes (take k (wtrace t)) demo_disk" for k
    using demo_bc(2) by (simp_all add: demo_log_def)
  have "wp initlog (\<lambda>_ u. (\<forall>sec \<in> home ?s. view u sec = (if k \<le> nat (l_n ?s) then disk ?s sec else view ?s sec)) \<and>
     head_n (disk u (l_start ?s)) = 0 \<and> l_n u = 0 \<and> bc u Map.empty {}) (?b k)" for k
    by (rule commit_crash_atomic [OF bc demo_wf(1) _ _ _ demo_wf(3) t fb(1)])
      (use f sb h fb in \<open>simp_all add: demo_view\<close>)
  note res = this
  have m: "40 \<in> home ?s" by (simp add: home_def demo_log_def)
  have "wp initlog (\<lambda>_ u. view u 40 = (if k \<le> 1 then demo_disk 40 else (\<lambda>_. 7))) (?b k)" for k
    by (rule wp_mono [OF res]) (use m f in \<open>simp add: demo_view\<close>)
  from this [of 2] this [of 1] t show ?thesis by (intro exI [of _ t]) (simp add: demo_disk_def)
qed

text \<open>
  C2: recovery may itself be interrupted. If the machine stops after any number of the writes of a boot-time recovery,
  the next boot recovers exactly the home sectors that the uninterrupted recovery would have produced.
\<close>

theorem recovery_crash_idempotent:
  assumes bc: "bc b Map.empty {}" and sb: "sb_gives (disk b 1) start sz" and one: "1 < disksize b"
    and ok: "head_ok_at start sz (disksize b) (disk b start)"
    and st: "sz \<le> int LOGSIZE" "unat start + nat sz \<le> unat (disksize b)"
    and keep: "\<forall>i < nat (head_n (disk b start)). get32 (disk b start) (4 + 4 * i) \<noteq> 1" and "1 \<in> home_at start sz (disksize b)"
    and run: "initlog b = Ok () t"
    and boot: "bc c Map.empty {}" "disksize c = disksize b"
      "disk c = apply_writes (take k (drop (length (wtrace b)) (wtrace t))) (disk b)"
  shows "wp initlog (\<lambda>_ u. \<forall>sec \<in> home_at start sz (disksize b). view u sec = view t sec) c"
proof -
  let ?rh = "recover_home start (disk b)"
  have t: "wtrace t = wtrace b @ recover_writes start (disk b)" "view t = apply_writes (recover_writes start (disk b)) (disk b)"
    using initlog_trace [OF bc sb one ok st] run by (simp_all add: wp_def)
  have n30: "head_n (disk b start) < sz" "0 \<le> head_n (disk b start)" using ok by (auto simp: head_ok_at_def)
  then have ns: "start \<notin> home_at start sz (disksize b)" by (auto simp: home_at_def)
  then have ne: "sec \<noteq> start" if "sec \<in> home_at start sz (disksize b)" for sec using that by auto
  have dest: "fst ` set ?rh \<subseteq> home_at start sz (disksize b) - {1}"
    using ok keep by (auto simp: recover_home_def head_ok_at_def)
  have log_blk: "start + of_nat i + 1 \<notin> home_at start sz (disksize b)" if "i < nat (head_n (disk b start))" for i
  proof -
    have "unat start + i + 1 < unat (disksize b)" using that st(2) n30 by linarith
    also have "\<dots> < 2 ^ 32" using unsigned_less [of "disksize b", where 'a = nat] by simp
    finally have "unat (start + of_nat i + 1) = unat start + i + 1" by (simp add: unat_word_ariths unat_of_nat)
    then show ?thesis using that n30 by (auto simp: home_at_def)
  qed
  have pre: "apply_writes (take j ?rh) (disk b) sec = disk b sec" if "sec \<notin> home_at start sz (disksize b) - {1}" for j sec
    using that dest by (intro apply_writes_other) (auto dest: in_set_takeD)
  consider j where "disk c = apply_writes (take j ?rh) (disk b)" | "disk c = apply_writes (recover_writes start (disk b)) (disk b)"
  proof (cases "k \<le> length ?rh")
    case True
    then show thesis using that(1) [of k] boot(3) t(1) by (simp add: recover_writes_def)
  next
    case False
    then show thesis using that(2) boot(3) t(1) by (simp add: recover_writes_def)
  qed
  then show ?thesis
  proof cases
    case 1
    have s1: "disk c start = disk b start" "disk c 1 = disk b 1" using 1 pre [of _ j] ns by auto
    have rh: "recover_home start (disk c) = ?rh"
      using s1 pre [of _ j] log_blk 1 by (auto simp: recover_home_def)
    have "apply_writes (recover_writes start (disk c)) (disk c) sec = view t sec" if "sec \<in> home_at start sz (disksize b)" for sec
      using ne [OF that] apply_writes_absorb [of ?rh j "disk b"] unfolding t(2) recover_writes_def rh 1 [symmetric] by simp
    then show ?thesis
      by (intro wp_mono [OF initlog_trace [of c start sz]])
        (use boot sb one ok st s1 ns in \<open>auto\<close>)
  next
    case 2
    have "apply_writes ?rh (disk b) 1 = disk b 1" using pre [of 1 "length ?rh"] by simp
    moreover have "start \<noteq> 1" using ns assms(8) by auto
    ultimately have s1: "disk c 1 = disk b 1" "head_n (disk c start) = 0" using 2 by (simp_all add: recover_writes_def)
    have "apply_writes (recover_writes start (disk c)) (disk c) sec = view t sec" if "sec \<in> home_at start sz (disksize b)" for sec
      using ne [OF that] 2 s1 by (simp add: recover_empty t(2))
    then show ?thesis
      by (intro wp_mono [OF initlog_trace [of c start sz]])
        (use boot sb one ok st s1 ns in \<open>auto simp: head_ok_at_def\<close>)
  qed
qed

definition demo_committed :: "uint \<Rightarrow> bytes" where
  "demo_committed = demo_disk(70 := put_head 1 (\<lambda>_. 40) (\<lambda>_. 0), 71 := (\<lambda>_. 7))"

theorem recovery_crash_idempotent_witness:
  "\<exists>t. initlog (demo_log demo_committed demo_free 0) = Ok () t \<and> view t 40 = (\<lambda>_. 7) \<and>
     wp initlog (\<lambda>_ u. view u 40 = view t 40) (demo_log (apply_writes (take 1 (wtrace t)) demo_committed) demo_free 0)"
proof -
  let ?b = "demo_log demo_committed demo_free 0"
  have d: "demo_committed 1 = demo_disk 1" "demo_committed 70 = put_head 1 (\<lambda>_. 40) (\<lambda>_. 0)"
    by (simp_all add: demo_committed_def)
  have sb: "sb_gives (disk ?b 1) 70 30" by (simp add: demo_log_def d sb_gives_def demo_disk_def get_superblock_def)
  have n: "head_n (demo_committed 70) = 1" by (simp add: d head_n_def get32_put_head)
  have sec: "get32 (demo_committed 70) 4 = 40" using get32_put_head_sector [of 0 1] by (simp add: d)
  have ok: "head_ok_at 70 30 (disksize ?b) (disk ?b 70)"
    by (simp add: head_ok_at_def demo_log_def n sec home_at_def)
  have m: "1 \<in> home_at 70 30 (disksize ?b)" "40 \<in> home_at 70 30 (disksize ?b)" "1 < disksize ?b"
    by (simp_all add: demo_log_def home_at_def)
  have rng: "unat (70 :: uint) + nat 30 \<le> unat (disksize ?b)" by (simp add: demo_log_def)
  have keep: "\<forall>i < nat (head_n (disk ?b 70)). get32 (disk ?b 70) (4 + 4 * i) \<noteq> 1"
    by (simp add: demo_log_def n sec)
  have tr: "wp initlog (\<lambda>_ t. view t = apply_writes (recover_writes 70 (disk ?b)) (disk ?b)) ?b"
    by (rule wp_mono [OF initlog_trace [OF demo_bc(2) sb m(3) ok _ rng]]) simp_all
  then obtain t where t: "initlog ?b = Ok () t" "view t = apply_writes (recover_writes 70 (disk ?b)) (disk ?b)"
    by (auto simp: wp_Ok)
  have "view t 40 = (\<lambda>_. 7)"
    by (simp add: t(2) recover_writes_def recover_home_def demo_log_def n sec) (simp add: demo_committed_def)
  moreover let ?c = "demo_log (apply_writes (take 1 (wtrace t)) demo_committed) demo_free 0"
  have "wp initlog (\<lambda>_ u. \<forall>sec \<in> home_at 70 30 (disksize ?b). view u sec = view t sec) ?c"
    by (rule recovery_crash_idempotent [OF demo_bc(2) sb m(3) ok _ rng keep m(1) t(1) demo_bc(2)])
      (simp_all add: demo_log_def)
  then have "wp initlog (\<lambda>_ u. view u 40 = view t 40) ?c" by (rule wp_mono) (use m in blast)
  ultimately show ?thesis using t(1) by blast
qed

end
