(* ===== verification/Log_Ops.thy ===== *)
theory Log_Ops
  imports Log_Crash
begin

text \<open>
  Transactions: the rule for \<^verbatim>\<open>log_write\<close> that the file system uses, and the admission control of \<^verbatim>\<open>begin_op\<close>
  as a step relation over the operations that several processes interleave.
\<close>

section \<open>log_write\<close>

lemma log_find_spec: "log_find f sec i k = (case find (\<lambda>j. f j = sec) [i..<i + k] of Some j \<Rightarrow> j | None \<Rightarrow> i + k)"
proof (induction k arbitrary: i)
  case (Suc k)
  then show ?case by (simp add: upt_conv_Cons del: upt_Suc split: option.split)
qed simp

lemma log_find_in:
  "log_find f sec 0 n \<le> n" "log_find f sec 0 n < n \<Longrightarrow> f (log_find f sec 0 n) = sec"
  "log_find f sec 0 n = n \<Longrightarrow> sec \<notin> f ` {0..<n}"
  by (auto simp: log_find_spec find_None_iff split: option.splits dest!: find_Some_P)

definition log_frame :: "'a log_state_scheme \<Rightarrow> 'a log_state_scheme \<Rightarrow> bool" where
  "log_frame s t \<longleftrightarrow> bio_frame (s\<lparr>l_n := l_n t, l_sector := l_sector t\<rparr>) t"

lemma log_frame_refl [simp]: "log_frame s s"
  by (simp add: log_frame_def)

lemma log_frame_bio: "bio_frame s t \<Longrightarrow> log_frame s t"
proof -
  assume f: "bio_frame s t"
  then have "l_n t = l_n s" "l_sector t = l_sector s" using bio_frame_log [OF f] by (simp_all add: log_same_def)
  then show ?thesis using f by (simp add: log_frame_def)
qed

lemma log_frame_trans: "log_frame s t \<Longrightarrow> log_frame t u \<Longrightarrow> log_frame s u"
  unfolding log_frame_def
proof -
  assume a: "bio_frame (s\<lparr>l_n := l_n t, l_sector := l_sector t\<rparr>) t" "bio_frame (t\<lparr>l_n := l_n u, l_sector := l_sector u\<rparr>) u"
  from bio_frame_log_upd(2) [OF a(1), where n = "l_n u" and f = "l_sector u"] a(2)
  show "bio_frame (s\<lparr>l_n := l_n u, l_sector := l_sector u\<rparr>) u"
    using bio_frame_trans by fastforce
qed

lemma log_frame_fields:
  assumes "log_frame s t"
  shows "disksize t = disksize s" "mem t = mem s" "freelist t = freelist s" "use_lock t = use_lock s" "kend t = kend s"
    "cur t = cur s" "initproc t = initproc s" "nextpid t = nextpid s" "l_start t = l_start s" "l_size t = l_size s"
    "l_outstanding t = l_outstanding s" "l_committing t = l_committing s" "l_dev t = l_dev s"
  using bio_frame_fields [OF assms [unfolded log_frame_def]] bio_frame_log [OF assms [unfolded log_frame_def]]
  by (simp_all add: log_same_def)

text \<open>
  \<open>txn s H\<close>: a transaction is open, the buffers \<open>H\<close> are held, and the dirty sectors are exactly
  those recorded in the log.
\<close>

definition txn :: "'a log_state_scheme \<Rightarrow> (nat \<rightharpoonup> uint) \<Rightarrow> bool" where
  "txn s H \<longleftrightarrow> bc s H (set (logged s)) \<and> log_wf s \<and> 1 \<le> l_outstanding s"

lemma log_writeE:
  assumes txn: "txn s H" and own: "H i = Some sec" and home: "sec \<in> home s"
    and room: "l_n s < l_size s - 1"
  obtains t where "\<And>Q. wp (log_write i) Q s = Q () t" "txn t H" "view t = view s" "disk t = disk s" "wtrace t = wtrace s"
    "log_frame s t" "logged t = (if sec \<in> set (logged s) then logged s else logged s @ [sec])" "l_n t \<le> l_n s + 1"
proof -
  let ?D = "set (logged s)"
  have bc: "bc s H ?D" and wf: "log_wf s" and out: "1 \<le> l_outstanding s" using txn by (simp_all add: txn_def)
  have g: "log_geom s" using wf by (simp add: log_wf_def)
  have n: "0 \<le> l_n s" "l_n s < 30" "l_size s \<le> 30" using g by (simp_all add: log_geom_def)
  have sec: "b_sector (bufs s i) = sec" using bc_sector [OF bc own] .
  let ?j = "log_find (l_sector s) sec 0 (nat (l_n s))"
  let ?n = "if int ?j = l_n s then l_n s + 1 else l_n s"
  let ?s1 = "s\<lparr>l_n := ?n, l_sector := (l_sector s)(?j := sec)\<rparr>"
  have bc1: "bc ?s1 H ?D" using bc by simp
  obtain t where r: "\<And>Q. wp (set_buf i ((bufs ?s1 i)\<lparr>b_flags := b_flags (bufs ?s1 i) OR B_DIRTY\<rparr>)) Q ?s1 = Q () t"
    and bct: "bc t H (insert sec ?D)"
    and t: "view t = view ?s1" "disk t = disk ?s1" "wtrace t = wtrace ?s1" "bio_frame ?s1 t"
    by (rule pinE [OF bc1 own], rule that)
  have upd: "s\<lparr>l_sector := f, l_n := m\<rparr> = s\<lparr>l_n := m, l_sector := f\<rparr>" "s\<lparr>l_n := l_n s, l_sector := f\<rparr> = s\<lparr>l_sector := f\<rparr>" for f m
    by simp_all
  have run: "wp (log_write i) Q s = Q () t" for Q
    using r [of Q] n out room by (cases "int ?j = l_n s") (simp_all add: log_write_def wp_rules sec Let_def upd)
  have f: "l_n t = ?n" "l_sector t = (l_sector s)(?j := sec)"
    using bio_frame_log [OF t(4)] by (simp_all add: log_same_def)
  have fr: "log_frame s t" unfolding log_frame_def f using t(4) .
  have lg: "logged t = (if sec \<in> ?D then logged s else logged s @ [sec])"
  proof (cases "int ?j = l_n s")
    case True
    then have j: "?j = nat (l_n s)" by simp
    then have "sec \<notin> ?D" using log_find_in(3) [OF j] by (auto simp: logged_def)
    moreover have "nat (l_n s + 1) = Suc (nat (l_n s))" using n by simp
    ultimately show ?thesis using True by (auto simp: logged_def f j)
  next
    case False
    then have j: "?j < nat (l_n s)" using log_find_in(1) [of "l_sector s" sec "nat (l_n s)"] n by linarith
    then have "l_sector s ?j = sec" by (rule log_find_in(2))
    then have "(l_sector s)(?j := sec) = l_sector s" "sec \<in> ?D"
      using j by (auto simp: logged_def intro!: rev_image_eqI [of ?j])
    then show ?thesis using False by (simp add: logged_def f)
  qed
  have "l_n t < l_size t" using room f log_frame_fields(10) [OF fr] by simp
  moreover have "0 \<le> l_n t" using n f by simp
  ultimately have "log_geom t" using g log_frame_fields [OF fr] by (simp add: log_geom_def)
  moreover have "home t = home s" using log_frame_fields [OF fr] by (simp add: home_def)
  ultimately have "log_wf t" using wf home lg by (auto simp: log_wf_def)
  moreover have "insert sec ?D = set (logged t)" using lg by auto
  ultimately have "txn t H" using bct out log_frame_fields(11) [OF fr] by (simp add: txn_def)
  then show thesis using that [OF run] t fr lg f by auto
qed

section \<open>Cache operations never touch the log's own variables\<close>

lemma iderw_frame: "iderw b s = Ok c t \<Longrightarrow> bio_frame s t" for s :: "'a bcache_state_scheme"
  by (auto simp: iderw_def bio_frame_def split: if_splits)

lemma set_buf_frame: "set_buf i b s = Ok x t \<Longrightarrow> bio_frame s t"
  by (auto simp: set_buf_def kmod_def bio_frame_def)

lemma bget_frame: "bget d x s = Ok i t \<Longrightarrow> bio_frame s t"
  by (auto simp: bget_def bio_frame_def sleep_def split: option.splits if_splits)

lemma bread_frame: "bread d x s = Ok i t \<Longrightarrow> bio_frame s t"
  by (auto simp: bread_def kbind_eq_Ok kseq_eq_Ok get_buf_def kget_def kret_def split: if_splits
      dest!: bget_frame iderw_frame set_buf_frame intro: bio_frame_trans)

lemma bwrite_frame: "bwrite i s = Ok x t \<Longrightarrow> bio_frame s t"
  by (auto simp: bwrite_def kbind_eq_Ok get_buf_def kget_def kpanic_def split: if_splits
      dest!: iderw_frame set_buf_frame intro: bio_frame_trans)

lemma wakeup1_bio_frame: "bio_frame s (wakeup1 c s)"
  using woken_wakeup1 [of s c] by (simp add: bio_frame_def) (simp add: wakeup1_def)

lemma brelse_frame: "brelse i s = Ok x t \<Longrightarrow> bio_frame s t"
proof -
  assume r: "brelse i s = Ok x t"
  let ?u = "s\<lparr>lru := i # remove1 i (lru s), bufs := (bufs s)(i := (bufs s i)\<lparr>b_flags := b_flags (bufs s i) AND NOT B_BUSY\<rparr>)\<rparr>"
  have "t = wakeup1 (ChanBuf i) ?u"
    using r by (auto simp: brelse_def kbind_eq_Ok kseq_eq_Ok get_buf_def set_buf_def kget_def kmod_def kpanic_def split: if_splits)
  moreover have "bio_frame s ?u" by (simp add: bio_frame_def)
  ultimately show ?thesis using bio_frame_trans wakeup1_bio_frame by blast
qed

lemmas cache_frames = bread_frame bwrite_frame brelse_frame set_buf_frame

lemma write_head_frame: "write_head s = Ok x t \<Longrightarrow> bio_frame s t"
  by (auto simp: write_head_def kbind_eq_Ok kseq_eq_Ok get_buf_def kget_def dest!: cache_frames intro: bio_frame_trans)

lemma write_log_from_frame: "write_log_from ts s = Ok x t \<Longrightarrow> bio_frame s t"
proof (induction ts arbitrary: s)
  case (Cons i ts)
  then obtain u where "bio_frame s u" "write_log_from ts u = Ok x t"
    by (auto simp: kbind_eq_Ok kseq_eq_Ok get_buf_def kget_def dest!: cache_frames) (metis bio_frame_trans)
  then show ?case using Cons.IH bio_frame_trans by blast
qed (simp add: kret_def)

lemma install_from_frame: "install_from ts s = Ok x t \<Longrightarrow> bio_frame s t"
proof (induction ts arbitrary: s)
  case (Cons i ts)
  then obtain u where "bio_frame s u" "install_from ts u = Ok x t"
    by (auto simp: kbind_eq_Ok kseq_eq_Ok get_buf_def kget_def dest!: cache_frames) (metis bio_frame_trans)
  then show ?case using Cons.IH bio_frame_trans by blast
qed (simp add: kret_def)

lemma commit_frame:
  assumes "commit s = Ok x t"
  shows "l_n t = (if 0 < l_n s then 0 else l_n s)" "l_outstanding t = l_outstanding s" "l_size t = l_size s"
    "l_committing t = l_committing s"
proof -
  have "\<exists>u. bio_frame s u \<and> bio_frame (u\<lparr>l_n := 0\<rparr>) t" if "0 < l_n s"
    using that assms
    by (auto simp: commit_def kbind_eq_Ok kseq_eq_Ok kget_def kmod_def write_log_def install_trans_def
        dest!: write_head_frame write_log_from_frame install_from_frame) (metis bio_frame_trans)
  moreover have "t = s" if "\<not> 0 < l_n s" using that assms by (simp add: commit_def kbind_eq_Ok kget_def kret_def)
  ultimately show "l_n t = (if 0 < l_n s then 0 else l_n s)" "l_outstanding t = l_outstanding s" "l_size t = l_size s"
    "l_committing t = l_committing s"
    by (cases "0 < l_n s"; auto dest!: bio_frame_log simp: log_same_def)+
qed

section \<open>Admission control\<close>

text \<open>
  Several file-system operations are in progress at once. \<open>U\<close> maps each of them to the number of
  blocks it has added to the log; an operation adds at most \<^verbatim>\<open>MAXOPBLOCKS\<close>. Between their log calls the operations
  use the cache, which does not touch the log's variables.
\<close>

inductive log_step :: "'a log_state_scheme \<times> (nat \<rightharpoonup> nat) \<Rightarrow> 'a log_state_scheme \<times> (nat \<rightharpoonup> nat) \<Rightarrow> bool" where
  log_begin: "U p = None \<Longrightarrow> begin_op s = Ok () t \<Longrightarrow> log_step (s, U) (t, U(p \<mapsto> 0))"
| log_add: "U p = Some u \<Longrightarrow> log_write i s = Ok () t \<Longrightarrow> u + nat (l_n t - l_n s) \<le> MAXOPBLOCKS \<Longrightarrow>
    log_step (s, U) (t, U(p \<mapsto> u + nat (l_n t - l_n s)))"
| log_end: "U p = Some u \<Longrightarrow> end_op s = Ok () t \<Longrightarrow> log_step (s, U) (t, U(p := None))"
| log_cache: "log_same s t \<Longrightarrow> log_step (s, U) (t, U)"

inductive_cases log_stepE: "log_step (s, U) c"

definition log_start_ok :: "'a log_state_scheme \<Rightarrow> bool" where
  "log_start_ok s \<longleftrightarrow> l_n s = 0 \<and> l_outstanding s = 0 \<and> \<not> l_committing s"

definition log_adm :: "'a log_state_scheme \<times> (nat \<rightharpoonup> nat) \<Rightarrow> bool" where
  "log_adm = (\<lambda>(s, U). finite (dom U) \<and> l_outstanding s = int (card (dom U)) \<and> 0 \<le> l_n s \<and> \<not> l_committing s \<and>
     (\<forall>p u. U p = Some u \<longrightarrow> u \<le> MAXOPBLOCKS) \<and>
     l_n s + (\<Sum>p \<in> dom U. int MAXOPBLOCKS - int (the (U p))) \<le> int LOGSIZE)"

lemma sum_dom_upd:
  assumes "finite (dom U)" "U p = Some u"
  shows "(\<Sum>q \<in> dom U. int MAXOPBLOCKS - int (the (U q))) =
     (\<Sum>q \<in> dom U - {p}. int MAXOPBLOCKS - int (the (U q))) + (int MAXOPBLOCKS - int u)"
  using assms by (subst sum.remove [of _ p]) auto

lemma log_write_n:
  assumes "log_write i s = Ok () t"
  shows "(l_n t = l_n s \<or> l_n t = l_n s + 1) \<and> l_outstanding t = l_outstanding s \<and> l_committing t = l_committing s \<and> l_size t = l_size s"
  using assms by (auto simp: log_write_def kbind_eq_Ok kseq_eq_Ok kget_def kmod_def kret_def kpanic_def set_buf_def Let_def
      split: if_splits)

lemma end_op_n:
  assumes "end_op s = Ok () t" "0 \<le> l_n s"
  shows "l_n t \<le> l_n s \<and> 0 \<le> l_n t \<and> l_outstanding t = l_outstanding s - 1 \<and> \<not> l_committing t"
proof (cases "l_outstanding s = 1")
  case True
  let ?s = "s\<lparr>l_outstanding := l_outstanding s - 1, l_committing := True\<rparr>"
  obtain u where "commit ?s = Ok () u" "t = wakeup1 ChanLog (u\<lparr>l_committing := False\<rparr>)"
    using assms(1) True by (auto simp: end_op_def kbind_eq_Ok kseq_eq_Ok kget_def kmod_def kpanic_def split: if_splits)
  then show ?thesis using commit_frame [of ?s "()" u] assms(2) by (simp add: wakeup1_def)
next
  case False
  then show ?thesis using assms
    by (auto simp: end_op_def kbind_eq_Ok kseq_eq_Ok kget_def kmod_def kpanic_def wakeup1_def split: if_splits)
qed

lemma log_admI:
  assumes "finite (dom U)" "l_outstanding s = int (card (dom U))" "0 \<le> l_n s" "\<not> l_committing s"
    "\<And>p u. U p = Some u \<Longrightarrow> u \<le> MAXOPBLOCKS" "l_n s + (\<Sum>p \<in> dom U. int MAXOPBLOCKS - int (the (U p))) \<le> int LOGSIZE"
  shows "log_adm (s, U)"
  using assms by (auto simp: log_adm_def)

lemma log_admD:
  assumes "log_adm (s, U)"
  shows "finite (dom U)" "l_outstanding s = int (card (dom U))" "0 \<le> l_n s" "\<not> l_committing s"
    "U p = Some u \<Longrightarrow> u \<le> MAXOPBLOCKS" "l_n s + (\<Sum>p \<in> dom U. int MAXOPBLOCKS - int (the (U p))) \<le> int LOGSIZE"
  using assms by (auto simp: log_adm_def)

lemma log_adm_begin:
  assumes adm: "log_adm (s, U)" and new: "U p = None" and run: "begin_op s = Ok () t"
  shows "log_adm (t, U(p \<mapsto> 0))"
proof -
  note old = log_admD [OF adm]
  have r: "l_n s + (l_outstanding s + 1) * 10 \<le> 30" and t: "t = s\<lparr>l_outstanding := l_outstanding s + 1\<rparr>"
    using run by (auto simp: begin_op_def sleep_def split: if_splits option.splits)
  have p: "p \<notin> dom U" using new by auto
  have "(\<Sum>q \<in> dom U. int MAXOPBLOCKS - int (the (U q))) \<le> (\<Sum>q \<in> dom U. int MAXOPBLOCKS)"
    by (rule sum_mono) simp
  moreover have "(\<Sum>q \<in> dom U. int MAXOPBLOCKS - int (the ((U(p \<mapsto> 0)) q))) = (\<Sum>q \<in> dom U. int MAXOPBLOCKS - int (the (U q)))"
    using p by (intro sum.cong) auto
  ultimately have sum: "l_n t + (\<Sum>q \<in> dom (U(p \<mapsto> 0)). int MAXOPBLOCKS - int (the ((U(p \<mapsto> 0)) q))) \<le> int LOGSIZE"
    using p old(1,2) r t by simp
  show ?thesis
  proof (rule log_admI [of "U(p \<mapsto> 0)", OF _ _ _ _ _ sum])
    fix q u assume "(U(p \<mapsto> 0)) q = Some u"
    then show "u \<le> MAXOPBLOCKS" using old(5) by (cases "q = p") auto
  qed (use old t p in simp_all)
qed

lemma log_adm_add:
  assumes adm: "log_adm (s, U)" and op: "U p = Some u" and run: "log_write i s = Ok () t"
    and lim: "u + nat (l_n t - l_n s) \<le> MAXOPBLOCKS"
  shows "log_adm (t, U(p \<mapsto> u + nat (l_n t - l_n s)))"
proof -
  note old = log_admD [OF adm]
  let ?k = "nat (l_n t - l_n s)"
  let ?U = "U(p \<mapsto> u + ?k)"
  have n: "l_n t = l_n s + int ?k" "l_outstanding t = l_outstanding s" "\<not> l_committing t"
    using log_write_n [OF run] old(4) by auto
  have dom: "dom ?U = dom U" using op by auto
  have "(\<Sum>q \<in> dom ?U. int MAXOPBLOCKS - int (the (?U q))) =
      (\<Sum>q \<in> dom ?U - {p}. int MAXOPBLOCKS - int (the (?U q))) + (int MAXOPBLOCKS - int (u + ?k))"
    using old(1) by (intro sum_dom_upd [of ?U]) simp_all
  also have "(\<Sum>q \<in> dom ?U - {p}. int MAXOPBLOCKS - int (the (?U q))) = (\<Sum>q \<in> dom U - {p}. int MAXOPBLOCKS - int (the (U q)))"
    by (rule sum.cong) (use dom in simp_all)
  finally have sum: "l_n t + (\<Sum>q \<in> dom ?U. int MAXOPBLOCKS - int (the (?U q))) \<le> int LOGSIZE"
    using old(6) sum_dom_upd [OF old(1) op] n(1) by linarith
  show ?thesis
  proof (rule log_admI [of ?U, OF _ _ _ _ _ sum])
    show "0 \<le> l_n t" using n(1) old(3) by linarith
    fix q v assume "?U q = Some v"
    then show "v \<le> MAXOPBLOCKS" using old(5) lim by (cases "q = p") auto
  qed (use old(1,2) n(2,3) dom in simp_all)
qed

lemma log_adm_end:
  assumes adm: "log_adm (s, U)" and op: "U p = Some u" and run: "end_op s = Ok () t"
  shows "log_adm (t, U(p := None))"
proof -
  note old = log_admD [OF adm]
  have pd: "p \<in> dom U" using op by auto
  have dom: "dom (U(p := None)) = dom U - {p}" by auto
  have card: "card (dom U) = Suc (card (dom U - {p}))" using card_Suc_Diff1 [OF old(1) pd] by simp
  have n: "l_n t \<le> l_n s" "0 \<le> l_n t" "l_outstanding t = l_outstanding s - 1" "\<not> l_committing t"
    using end_op_n [OF run old(3)] by auto
  have "(\<Sum>q \<in> dom U - {p}. int MAXOPBLOCKS - int (the ((U(p := None)) q))) = (\<Sum>q \<in> dom U - {p}. int MAXOPBLOCKS - int (the (U q)))"
    by (rule sum.cong) simp_all
  then have sum: "l_n t + (\<Sum>q \<in> dom (U(p := None)). int MAXOPBLOCKS - int (the ((U(p := None)) q))) \<le> int LOGSIZE"
    unfolding dom using old(6) old(5) [OF op] sum_dom_upd [OF old(1) op] n(1) by linarith
  show ?thesis
  proof (rule log_admI [of "U(p := None)", OF _ _ _ _ _ sum])
    fix q v assume "(U(p := None)) q = Some v"
    then show "v \<le> MAXOPBLOCKS" using old(5) by (cases "q = p") auto
  qed (use old(1,2) n(2-4) card dom in simp_all)
qed

lemma log_adm_step:
  assumes "log_adm c" "log_step c d"
  shows "log_adm d"
  using assms(2,1)
proof cases
  case (log_cache s t U)
  then show ?thesis using assms(1) by (simp add: log_adm_def log_same_def)
qed (auto intro: log_adm_begin log_adm_add log_adm_end)

lemma log_adm_reach: "log_step\<^sup>*\<^sup>* c d \<Longrightarrow> log_adm c \<Longrightarrow> log_adm d"
  by (induction rule: rtranclp_induct) (auto intro: log_adm_step)

lemma log_adm_room:
  assumes "log_adm (s, U)" "U p = Some u"
  shows "l_n s + (int MAXOPBLOCKS - int u) \<le> int LOGSIZE" "1 \<le> l_outstanding s" "0 \<le> l_n s"
proof -
  note old = log_admD [OF assms(1)]
  have "0 \<le> (\<Sum>q \<in> dom U - {p}. int MAXOPBLOCKS - int (the (U q)))"
    using old(5) by (intro sum_nonneg) fastforce
  then show "l_n s + (int MAXOPBLOCKS - int u) \<le> int LOGSIZE"
    using old(6) sum_dom_upd [OF old(1) assms(2)] by linarith
  have "0 < card (dom U)" using old(1) assms(2) by (auto simp: card_gt_0_iff)
  then show "1 \<le> l_outstanding s" "0 \<le> l_n s" using old(2,3) by simp_all
qed

section \<open>Properties\<close>


text \<open>Three operations over a log region of \<open>n\<close> blocks; buffer \<open>i\<close> holds sector \<open>i\<close>, and \<open>k\<close> blocks have been logged.\<close>

definition busy_log :: "int \<Rightarrow> int \<Rightarrow> nat \<Rightarrow> log_state" where
  "busy_log n out k = \<lparr>mem = (\<lambda>_. 0), freelist = 0, use_lock = False, kend = 0, ptab = (\<lambda>_. undefined), cur = None,
     initproc = None, nextpid = 1, disk = (\<lambda>_ _. 0), disksize = 1000, wtrace = [],
     bufs = (\<lambda>i. \<lparr>b_flags = if i < k then B_DIRTY else 0, b_dev = 1, b_sector = of_nat i, b_data = (\<lambda>_. 0)\<rparr>), lru = [0..<NBUF],
     l_start = 970, l_size = n, l_outstanding = out, l_committing = False, l_dev = 1, l_n = int k,
     l_sector = (\<lambda>i. if i < k then of_nat i else 0)\<rparr>"

definition three_ops :: "nat \<Rightarrow> nat \<rightharpoonup> nat" where
  "three_ops k = [0 \<mapsto> min k 10, 1 \<mapsto> min (k - 10) 10, 2 \<mapsto> min (k - 20) 10]"

lemma busy_log_start: "log_start_ok (busy_log n 0 0)" and busy_log_n: "l_n (busy_log n out k) = int k"
  and busy_log_size: "l_size (busy_log n out k) = n"
  by (simp_all add: log_start_ok_def busy_log_def)

lemma busy_log_begin: "k \<le> 2 \<Longrightarrow> begin_op (busy_log n (int k) 0) = Ok () (busy_log n (int (Suc k)) 0)"
  by (simp add: begin_op_def busy_log_def)

lemma busy_log_find:
  assumes "k \<le> 1000"
  shows "log_find (l_sector (busy_log n 3 k)) (of_nat k) 0 k = k"
proof -
  have "(of_nat j :: uint) = of_nat k \<Longrightarrow> j < k \<Longrightarrow> False" for j
    using assms by (simp add: word_unat_eq_iff unat_of_nat)
  then show ?thesis
    by (auto simp: log_find_spec busy_log_def split: option.splits dest!: find_Some_P)
qed

lemma busy_log_write:
  assumes "k < 29" "k < nat n - 1" "0 \<le> n"
  shows "log_write k (busy_log n 3 k) = Ok () (busy_log n 3 (Suc k))"
proof -
  have f: "log_find (l_sector (busy_log n 3 k)) (of_nat k) 0 k = k" using assms by (intro busy_log_find) simp
  show ?thesis using assms f
    by (auto simp: log_write_def kbind_def kseq_def kget_def kmod_def set_buf_def Let_def busy_log_def fun_eq_iff less_Suc_eq)
qed

lemma busy_log_reach:
  assumes "k \<le> 29" "k < nat n" "0 \<le> n"
  shows "log_step\<^sup>*\<^sup>* (busy_log n 0 0, Map.empty) (busy_log n 3 k, three_ops k)"
  using assms
proof (induction k)
  case 0
  have st: "log_step (busy_log n 0 0, Map.empty) (busy_log n 1 0, [0 \<mapsto> 0])"
    "log_step (busy_log n 1 0, [0 \<mapsto> 0]) (busy_log n 2 0, [0 \<mapsto> 0, 1 \<mapsto> 0])"
    "log_step (busy_log n 2 0, [0 \<mapsto> 0, 1 \<mapsto> 0]) (busy_log n 3 0, [0 \<mapsto> 0, 1 \<mapsto> 0, 2 \<mapsto> 0])"
    using busy_log_begin [of 0 n] busy_log_begin [of 1 n] busy_log_begin [of 2 n] by (auto intro!: log_begin)
  have z: "three_ops 0 = [0 \<mapsto> 0, 1 \<mapsto> 0, 2 \<mapsto> 0]" by (simp add: three_ops_def)
  show ?case unfolding z
    by (rule converse_rtranclp_into_rtranclp [where r = log_step, OF st(1)], rule converse_rtranclp_into_rtranclp [where r = log_step, OF st(2)],
        rule r_into_rtranclp [where r = log_step, OF st(3)])
next
  case (Suc k)
  then have IH: "log_step\<^sup>*\<^sup>* (busy_log n 0 0, Map.empty) (busy_log n 3 k, three_ops k)" by simp
  let ?p = "k div 10"
  have "k div 10 = 0 \<or> k div 10 = 1 \<or> k div 10 = 2" using Suc.prems by auto
  then obtain u where u: "three_ops k ?p = Some u" "three_ops (Suc k) = (three_ops k)(?p \<mapsto> u + 1)" "u + 1 \<le> 10"
    by (elim disjE) (auto simp: three_ops_def fun_eq_iff)
  have w: "log_write k (busy_log n 3 k) = Ok () (busy_log n 3 (Suc k))" using Suc.prems by (intro busy_log_write) auto
  have "log_step (busy_log n 3 k, three_ops k) (busy_log n 3 (Suc k), three_ops (Suc k))"
    using log_add [of "three_ops k" ?p u, OF u(1) w] u(2,3) by (simp add: busy_log_n)
  with IH show ?case by (rule rtranclp.rtrancl_into_rtrancl)
qed


text \<open>
  C4: with the log region that \<^verbatim>\<open>mkfs\<close> lays out (\<^verbatim>\<open>LOGSIZE\<close> blocks, one of them the header) admission control is not
  sufficient. Three operations are admitted together; after 29 of the 30 blocks they may add, the third operation, which has
  added 9 blocks, calls \<^verbatim>\<open>log_write\<close> for its tenth and the kernel panics.
\<close>

theorem admitted_log_write_can_panic:
  "\<exists>s0 s U p u i. log_start_ok s0 \<and> l_size s0 = int LOGSIZE \<and> log_step\<^sup>*\<^sup>* (s0, Map.empty) (s, U) \<and>
     U p = Some u \<and> u < MAXOPBLOCKS \<and> log_write i (s :: log_state) = Panic ''too big a transaction''"
proof (intro exI conjI)
  show "log_step\<^sup>*\<^sup>* (busy_log 30 0 0, Map.empty) (busy_log 30 3 29, three_ops 29)" by (rule busy_log_reach) auto
  show "three_ops 29 2 = Some 9" by (simp add: three_ops_def)
  show "log_write 0 (busy_log 30 3 29) = Panic ''too big a transaction''"
    by (simp add: log_write_def kbind_def kget_def kpanic_def busy_log_def)
qed (simp_all add: busy_log_start busy_log_size)

end
