(* ===== verification/Fs_Alloc.thy ===== *)
theory Fs_Alloc
  imports Log_Ops
begin

text \<open>
  The block allocator of \<^verbatim>\<open>fs.c\<close>: \<^verbatim>\<open>bzero\<close>, \<^verbatim>\<open>balloc\<close> and \<^verbatim>\<open>bfree\<close>. All of them run inside a transaction: what they
  change is the view of the blocks, through buffers that \<^verbatim>\<open>log_write\<close> records.
\<close>

definition bzero :: "uint \<Rightarrow> uint \<Rightarrow> ('a log_state_scheme, unit) kprog" where
  "bzero dev bno =
     kbind (bread dev bno) (\<lambda>i.
     kbind (get_buf i) (\<lambda>bp.
     kseq (set_buf i (bp\<lparr>b_data := (\<lambda>_. 0)\<rparr>))
     (kseq (log_write i)
     (kseq (brelse i) (kret ())))))"

text \<open>The bit of block \<open>bi\<close> in a bitmap block: \<^verbatim>\<open>m = 1 << (bi % 8)\<close>, \<^verbatim>\<open>bp->data[bi/8] & m\<close>.\<close>

definition bm_mask :: "nat \<Rightarrow> uchar" where
  "bm_mask bi = push_bit (bi mod 8) 1"

definition bm_free :: "bytes \<Rightarrow> nat \<Rightarrow> bool" where
  "bm_free d bi \<longleftrightarrow> d (bi div 8) AND bm_mask bi = 0"

definition bm_set :: "bytes \<Rightarrow> nat \<Rightarrow> bytes" where
  "bm_set d bi = d(bi div 8 := d (bi div 8) OR bm_mask bi)"

definition bm_clear :: "bytes \<Rightarrow> nat \<Rightarrow> bytes" where
  "bm_clear d bi = d(bi div 8 := d (bi div 8) AND NOT (bm_mask bi))"

fun balloc_from :: "uint \<Rightarrow> superblock \<Rightarrow> nat list \<Rightarrow> ('a log_state_scheme, uint) kprog" where
  "balloc_from dev sb [] = kpanic ''balloc: out of blocks''"
| "balloc_from dev sb (b # bs) =
     kbind (bread dev (BBLOCK (of_nat b) (sb_ninodes sb))) (\<lambda>i.
     kbind (get_buf i) (\<lambda>bp.
     case find (bm_free (b_data bp)) (takeWhile (\<lambda>bi. b + bi < unat (sb_size sb)) [0..<4096]) of
       Some bi \<Rightarrow>
         kseq (set_buf i (bp\<lparr>b_data := bm_set (b_data bp) bi\<rparr>))
         (kseq (log_write i)
         (kseq (brelse i)
         (kseq (bzero dev (of_nat (b + bi)))
         (kret (of_nat (b + bi))))))
     | None \<Rightarrow> kseq (brelse i) (balloc_from dev sb bs)))"

text \<open>The values of \<^verbatim>\<open>b\<close> in \<^verbatim>\<open>for(b = 0; b < sb.size; b += BPB)\<close>.\<close>

definition bm_starts :: "uint \<Rightarrow> nat list" where
  "bm_starts n = map (\<lambda>k. 4096 * k) [0..<(unat n + 4095) div 4096]"

definition balloc :: "uint \<Rightarrow> ('a log_state_scheme, uint) kprog" where
  "balloc dev = kbind (readsb dev) (\<lambda>sb. balloc_from dev sb (bm_starts (sb_size sb)))"

definition bfree :: "uint \<Rightarrow> uint \<Rightarrow> ('a log_state_scheme, unit) kprog" where
  "bfree dev b =
     kbind (readsb dev) (\<lambda>sb.
     kbind (bread dev (BBLOCK b (sb_ninodes sb))) (\<lambda>i.
     kbind (get_buf i) (\<lambda>bp.
     let bi = unat (b mod BPB) in
     if bm_free (b_data bp) bi then kpanic ''freeing free block''
     else kseq (set_buf i (bp\<lparr>b_data := bm_clear (b_data bp) bi\<rparr>))
       (kseq (log_write i)
       (kseq (brelse i) (kret ()))))))"

section \<open>Changing one block inside a transaction\<close>

text \<open>\<open>space s H k\<close>: \<open>k\<close> more blocks can be read and logged while the buffers \<open>H\<close> are held.\<close>

definition space :: "'a log_state_scheme \<Rightarrow> (nat \<rightharpoonup> uint) \<Rightarrow> nat \<Rightarrow> bool" where
  "space s H k \<longleftrightarrow> card (ran H \<union> set (logged s)) + k \<le> NBUF \<and> l_n s + int k < l_size s"

text \<open>
  What a sequence of block changes keeps: the buffers held, the disk, everything outside the cache and the log. The
  log grows by blocks of the set \<open>X\<close> only.
\<close>

definition tx_step :: "'a log_state_scheme \<Rightarrow> (nat \<rightharpoonup> uint) \<Rightarrow> 'a log_state_scheme \<Rightarrow> uint set \<Rightarrow> bool" where
  "tx_step s H t X \<longleftrightarrow> txn t H \<and> disk t = disk s \<and> wtrace t = wtrace s \<and> log_frame s t \<and>
     set (logged s) \<subseteq> set (logged t) \<and> set (logged t) \<subseteq> set (logged s) \<union> X"

lemma txn_finite: "txn s H \<Longrightarrow> finite (ran H \<union> set (logged s))"
  by (auto simp: txn_def dest: bc_finite)

lemma txn_l_n: "txn s H \<Longrightarrow> l_n s = int (card (set (logged s)))"
  using distinct_card [of "logged s"] by (auto simp: txn_def log_wf_def log_geom_def) (simp add: logged_def)

lemma tx_step_refl: "txn s H \<Longrightarrow> tx_step s H s {}"
  by (simp add: tx_step_def)

lemma tx_step_trans: "tx_step s H t X \<Longrightarrow> tx_step t H u Y \<Longrightarrow> tx_step s H u (X \<union> Y)"
  unfolding tx_step_def by (auto intro: log_frame_trans)

lemma tx_step_weaken: "tx_step s H t X \<Longrightarrow> X \<subseteq> Y \<Longrightarrow> tx_step s H t Y"
  unfolding tx_step_def by auto

lemma tx_step_home: "tx_step s H t X \<Longrightarrow> home t = home s"
  using log_frame_fields [of s t] by (simp add: tx_step_def home_def)

lemma tx_step_disksize: "tx_step s H t X \<Longrightarrow> disksize t = disksize s"
  using log_frame_fields [of s t] by (simp add: tx_step_def)

lemma tx_step_txn: "tx_step s H t X \<Longrightarrow> txn t H"
  by (simp add: tx_step_def)

lemma card_grow: "finite A \<Longrightarrow> finite X \<Longrightarrow> B \<subseteq> A \<union> X \<Longrightarrow> card B \<le> card A + card X"
  by (rule order_trans [OF card_mono card_Un_le]) auto

lemma tx_step_space:
  assumes "tx_step s H t X" "txn s H" "space s H (k + l)" "finite X" "card X \<le> k"
  shows "space t H l"
proof -
  have lg: "set (logged t) \<subseteq> set (logged s) \<union> X" using assms(1) by (simp add: tx_step_def)
  have "card (ran H \<union> set (logged t)) \<le> card (ran H \<union> set (logged s)) + card X"
    by (rule card_grow [OF txn_finite [OF assms(2)] assms(4)]) (use lg in blast)
  moreover have "card (set (logged t)) \<le> card (set (logged s)) + card X"
    by (rule card_grow [OF _ assms(4) lg]) simp
  moreover have "l_size t = l_size s" using assms(1) log_frame_fields(10) by (auto simp: tx_step_def)
  ultimately show ?thesis
    using assms(3,5) txn_l_n [OF assms(2)] txn_l_n [OF tx_step_txn [OF assms(1)]] by (simp add: space_def)
qed

lemmas tx_step_space0 = tx_step_space [where X = "{}" and k = 0, simplified]

lemma tx_step_space1: "tx_step s H t {x} \<Longrightarrow> txn s H \<Longrightarrow> space s H (1 + l) \<Longrightarrow> space t H l"
  using tx_step_space [where X = "{x}" and k = 1] by simp

lemma txn_bread:
  assumes txn: "txn s H" and new: "sec \<notin> ran H" "sec < disksize s" and sp: "space s H 1"
  obtains i t where "\<And>Q. wp (bread 1 sec) Q s = Q i t" "H i = None" "txn t (H(i \<mapsto> sec))" "view t = view s"
    "disk t = disk s" "wtrace t = wtrace s" "bio_frame s t" "b_data (bufs t i) = view s sec" "logged t = logged s" "l_n t = l_n s"
proof -
  have bc: "bc s H (set (logged s))" using txn by (simp add: txn_def)
  obtain i t where r: "\<And>Q. wp (bread 1 sec) Q s = Q i t" "H i = None" and bct: "bc t (H(i \<mapsto> sec)) (set (logged s))"
    and t: "view t = view s" "disk t = disk s" "wtrace t = wtrace s" "bio_frame s t"
    by (rule breadE [OF bc new]) (use sp in \<open>auto simp: space_def\<close>)
  note same = bio_frame_log [OF t(4)]
  have "txn t (H(i \<mapsto> sec))"
    using txn bct log_same_eqs [OF same] same by (simp add: txn_def log_same_def)
  moreover have "b_data (bufs t i) = view s sec" using bc_data [OF bct, of i sec] t by simp
  moreover have "l_n t = l_n s" using same by (simp add: log_same_def)
  ultimately show thesis using that [of i t] r t log_same_eqs(1) [OF same] by blast
qed

lemma txn_brelse:
  assumes txn: "txn s H" and own: "H i = Some sec" and keep: "sec \<in> set (logged s) \<or> view s sec = disk s sec"
  obtains t where "\<And>Q. wp (brelse i) Q s = Q () t" "txn t (H(i := None))" "view t = view s"
    "disk t = disk s" "wtrace t = wtrace s" "bio_frame s t" "logged t = logged s" "l_n t = l_n s"
proof -
  have bc: "bc s H (set (logged s))" using txn by (simp add: txn_def)
  obtain t where r: "\<And>Q. wp (brelse i) Q s = Q () t" and bct: "bc t (H(i := None)) (set (logged s))"
    and t: "view t = view s" "disk t = disk s" "wtrace t = wtrace s" "bio_frame s t"
    by (rule brelseE [OF bc own keep], rule that)
  note same = bio_frame_log [OF t(4)]
  have "txn t (H(i := None))"
    using txn bct log_same_eqs [OF same] same by (simp add: txn_def log_same_def)
  moreover have "l_n t = l_n s" using same by (simp add: log_same_def)
  ultimately show thesis using that [of t] r t log_same_eqs(1) [OF same] by blast
qed

lemma txn_set_data:
  assumes txn: "txn s H" and own: "H i = Some sec"
  obtains t where "\<And>Q. wp (set_buf i ((bufs s i)\<lparr>b_data := d\<rparr>)) Q s = Q () t" "txn t H" "view t = (view s)(sec := d)"
    "disk t = disk s" "wtrace t = wtrace s" "bio_frame s t" "logged t = logged s" "l_n t = l_n s"
proof -
  have bc: "bc s H (set (logged s))" using txn by (simp add: txn_def)
  obtain t where r: "\<And>Q. wp (set_buf i ((bufs s i)\<lparr>b_data := d\<rparr>)) Q s = Q () t" and bct: "bc t H (set (logged s))"
    and t: "view t = (view s)(sec := d)" "disk t = disk s" "wtrace t = wtrace s" "bio_frame s t"
    by (rule set_dataE [OF bc own, of d], rule that)
  note same = bio_frame_log [OF t(4)]
  have "txn t H" using txn bct log_same_eqs [OF same] same by (simp add: txn_def log_same_def)
  moreover have "l_n t = l_n s" using same by (simp add: log_same_def)
  ultimately show thesis using that [of t] r t log_same_eqs(1) [OF same] by blast
qed

text \<open>A held buffer changed, logged and released.\<close>

lemma txn_write_release:
  assumes txn: "txn s (H(i \<mapsto> sec))" and new: "H i = None" and home: "sec \<in> home s" and room: "l_n s < l_size s - 1"
  obtains t where "\<And>R. wp (set_buf i ((bufs s i)\<lparr>b_data := d\<rparr>)) (\<lambda>_. wp (log_write i) (\<lambda>_. wp (brelse i) R)) s = R () t"
    "txn t H" "view t = (view s)(sec := d)" "disk t = disk s" "wtrace t = wtrace s" "log_frame s t"
    "set (logged t) = insert sec (set (logged s))" "l_n t \<le> l_n s + 1"
proof -
  have own: "(H(i \<mapsto> sec)) i = Some sec" by simp
  obtain s1 where r1: "\<And>Q. wp (set_buf i ((bufs s i)\<lparr>b_data := d\<rparr>)) Q s = Q () s1" and t1: "txn s1 (H(i \<mapsto> sec))"
    and s1: "view s1 = (view s)(sec := d)" "disk s1 = disk s" "wtrace s1 = wtrace s" "bio_frame s s1" "logged s1 = logged s" "l_n s1 = l_n s"
    by (rule txn_set_data [OF txn own, of d], rule that)
  have f1: "home s1 = home s" "l_size s1 = l_size s"
    using bio_frame_log [OF s1(4)] log_same_eqs(2) [OF bio_frame_log [OF s1(4)]] by (simp_all add: log_same_def)
  obtain s2 where r2: "\<And>Q. wp (log_write i) Q s1 = Q () s2" and t2: "txn s2 (H(i \<mapsto> sec))"
    and s2: "view s2 = view s1" "disk s2 = disk s1" "wtrace s2 = wtrace s1" "log_frame s1 s2"
      "logged s2 = (if sec \<in> set (logged s1) then logged s1 else logged s1 @ [sec])" "l_n s2 \<le> l_n s1 + 1"
    by (rule log_writeE [of s1 "H(i \<mapsto> sec)" i sec, OF t1 own]) (use home room f1 s1 in simp_all)
  have sec2: "sec \<in> set (logged s2)" using s2(5) by auto
  obtain s3 where r3: "\<And>Q. wp (brelse i) Q s2 = Q () s3" and t3: "txn s3 ((H(i \<mapsto> sec))(i := None))"
    and s3: "view s3 = view s2" "disk s3 = disk s2" "wtrace s3 = wtrace s2" "bio_frame s2 s3" "logged s3 = logged s2" "l_n s3 = l_n s2"
    by (rule txn_brelse [OF t2 own disjI1 [OF sec2]], rule that)
  have H: "(H(i \<mapsto> sec))(i := None) = H" using new by auto
  show thesis
  proof (rule that [of s3])
    show "log_frame s s3" using log_frame_trans log_frame_bio s1(4) s2(4) s3(4) by blast
    show "set (logged s3) = insert sec (set (logged s))" using s1(5) s2(5) s3(5) by auto
  qed (use t3 [unfolded H] r1 r2 r3 s1 s2 s3 in \<open>simp_all add: wp_rules\<close>)
qed

lemma txn_view_disk:
  assumes txn: "txn s H" and "sec \<notin> set (logged s)" "sec \<notin> ran H"
  shows "view s sec = disk s sec"
proof (cases "\<exists>i. caches s sec i \<and> valid (bufs s i)")
  case True
  have bc: "bc s H (set (logged s))" using txn by (simp add: txn_def)
  from True obtain i where i: "caches s sec i" "valid (bufs s i)" by blast
  then have "\<not> dirty (bufs s i)" using assms bc_mem [OF bc] by blast
  moreover have "\<not> busy (bufs s i)" using bc_free [OF bc assms(3) i(1)] .
  ultimately have "b_data (bufs s i) = disk s sec"
    using i bc_inv [OF bc] by (auto simp: bcache_inv_def caches_def)
  then show ?thesis using view_cached [OF bc_inv [OF bc] i] by simp
qed (auto intro: view_uncached)

text \<open>Reading a block and releasing it.\<close>

lemma txn_read_release:
  assumes txn: "txn s H" and new: "sec \<notin> ran H" "sec < disksize s" and sp: "space s H 1"
  obtains b t where "\<And>R. wp (bread 1 sec) (\<lambda>i t. wp (brelse i) (R (bufs t i)) t) s = R b () t"
    "b_data b = view s sec" "tx_step s H t {}" "view t = view s" "logged t = logged s"
proof -
  obtain i s1 where r1: "\<And>Q. wp (bread 1 sec) Q s = Q i s1" and Hi: "H i = None" and t1: "txn s1 (H(i \<mapsto> sec))"
    and s1: "view s1 = view s" "disk s1 = disk s" "wtrace s1 = wtrace s" "bio_frame s s1" "b_data (bufs s1 i) = view s sec"
      "logged s1 = logged s" "l_n s1 = l_n s"
    by (rule txn_bread [OF txn new sp], rule that)
  have keep: "sec \<in> set (logged s1) \<or> view s1 sec = disk s1 sec"
    using txn_view_disk [OF txn _ new(1)] s1 by auto
  obtain s2 where r2: "\<And>Q. wp (brelse i) Q s1 = Q () s2" and t2: "txn s2 ((H(i \<mapsto> sec))(i := None))"
    and s2: "view s2 = view s1" "disk s2 = disk s1" "wtrace s2 = wtrace s1" "bio_frame s1 s2" "logged s2 = logged s1" "l_n s2 = l_n s1"
    by (rule txn_brelse [of s1 "H(i \<mapsto> sec)" i sec, OF t1 _ keep]) (simp, rule that)
  have H: "(H(i \<mapsto> sec))(i := None) = H" using Hi by auto
  have "tx_step s H s2 {}"
    using t2 [unfolded H] s1 s2 log_frame_bio [OF bio_frame_trans [OF s1(4) s2(4)]] by (simp add: tx_step_def)
  then show thesis using that [of "bufs s1 i" s2] r1 r2 s1 s2 by (simp add: wp_rules)
qed

text \<open>Reading a block, changing it by \<open>f\<close>, logging and releasing it.\<close>

lemma txn_update:
  assumes txn: "txn s H" and new: "sec \<notin> ran H" "sec \<in> home s" and sp: "space s H 1"
  obtains t where "\<And>R. wp (bread 1 sec) (\<lambda>i t. wp (set_buf i ((bufs t i)\<lparr>b_data := f (b_data (bufs t i))\<rparr>))
      (\<lambda>_. wp (log_write i) (\<lambda>_. wp (brelse i) R)) t) s = R () t"
    "tx_step s H t {sec}" "view t = (view s)(sec := f (view s sec))"
proof -
  obtain i s1 where r1: "\<And>Q. wp (bread 1 sec) Q s = Q i s1" and Hi: "H i = None" and t1: "txn s1 (H(i \<mapsto> sec))"
    and s1: "view s1 = view s" "disk s1 = disk s" "wtrace s1 = wtrace s" "bio_frame s s1" "b_data (bufs s1 i) = view s sec"
      "logged s1 = logged s" "l_n s1 = l_n s"
    by (rule txn_bread [OF txn new(1) home_rng [OF new(2)] sp], rule that)
  have f1: "sec \<in> home s1" "l_n s1 < l_size s1 - 1"
    using bio_frame_log [OF s1(4)] log_same_eqs(2) [OF bio_frame_log [OF s1(4)]] new sp by (simp_all add: log_same_def space_def)
  obtain s2 where r2: "\<And>R. wp (set_buf i ((bufs s1 i)\<lparr>b_data := f (view s sec)\<rparr>)) (\<lambda>_. wp (log_write i) (\<lambda>_. wp (brelse i) R)) s1 = R () s2"
    and s2: "txn s2 H" "view s2 = (view s1)(sec := f (view s sec))" "disk s2 = disk s1" "wtrace s2 = wtrace s1" "log_frame s1 s2"
      "set (logged s2) = insert sec (set (logged s1))" "l_n s2 \<le> l_n s1 + 1"
    by (rule txn_write_release [OF t1 Hi f1, of "f (view s sec)"], rule that)
  have "tx_step s H s2 {sec}"
    using s1 s2 log_frame_trans [OF log_frame_bio [OF s1(4)] s2(5)] by (auto simp: tx_step_def)
  then show thesis using that [of s2] r1 r2 s1 s2 by (simp add: wp_rules)
qed

lemma txn_readsb:
  assumes txn: "txn s H" and new: "1 \<notin> ran H" "1 < disksize s" and sp: "space s H 1"
  obtains t where "\<And>Q. wp (readsb 1) Q s = Q (get_superblock (view s 1)) t" "tx_step s H t {}" "view t = view s" "logged t = logged s"
proof -
  obtain b t where r: "\<And>R. wp (bread 1 1) (\<lambda>i t. wp (brelse i) (R (bufs t i)) t) s = R b () t"
    and b: "b_data b = view s 1" and t: "tx_step s H t {}" "view t = view s" "logged t = logged s"
    by (rule txn_read_release [OF txn new sp], rule that)
  have "wp (readsb 1) Q s = Q (get_superblock (view s 1)) t" for Q
    using r [of "\<lambda>b _. Q (get_superblock (b_data b))"] b by (simp add: readsb_def wp_rules)
  then show thesis using that t by blast
qed

section \<open>The bitmap\<close>

definition blk_free :: "(uint \<Rightarrow> bytes) \<Rightarrow> superblock \<Rightarrow> uint \<Rightarrow> bool" where
  "blk_free v sb b \<longleftrightarrow> bm_free (v (BBLOCK b (sb_ninodes sb))) (unat (b mod BPB))"

lemma bit_bm_mask: "bit (bm_mask bi) n \<longleftrightarrow> n = bi mod 8"
proof -
  have "bi mod 8 < 8" by simp
  then show ?thesis unfolding bm_mask_def by (auto simp: bit_simps simp del: mod_less_divisor)
qed

lemma bm_free_bit: "bm_free d bi \<longleftrightarrow> \<not> bit (d (bi div 8)) (bi mod 8)"
proof
  assume "bm_free d bi"
  then have "\<not> bit (d (bi div 8) AND bm_mask bi) (bi mod 8)" by (simp add: bm_free_def)
  then show "\<not> bit (d (bi div 8)) (bi mod 8)" by (simp add: bit_and_iff bit_bm_mask)
next
  assume "\<not> bit (d (bi div 8)) (bi mod 8)"
  then show "bm_free d bi" unfolding bm_free_def
    by (intro bit_word_eqI) (auto simp: bit_and_iff bit_bm_mask)
qed

lemma div_mod_8_eq: "(i div 8 = j div 8 \<and> i mod 8 = j mod 8) \<longleftrightarrow> i = j" for i j :: nat
  by (metis div_mult_mod_eq)

lemma bm_free_set: "bm_free (bm_set d bi) bj \<longleftrightarrow> bm_free d bj \<and> bj \<noteq> bi"
  using div_mod_8_eq [of bj bi] by (auto simp: bm_free_bit bm_set_def bit_or_iff bit_bm_mask)

lemma bm_free_clear: "bm_free (bm_clear d bi) bj \<longleftrightarrow> bm_free d bj \<or> bj = bi"
  using div_mod_8_eq [of bj bi] by (auto simp: bm_free_bit bm_clear_def bit_and_iff bit_not_iff bit_bm_mask dest: bit_imp_le_length)

lemma bm_clear_set: "bm_free d bi \<Longrightarrow> bm_clear (bm_set d bi) bi = d"
proof -
  assume "bm_free d bi"
  then have "(d (bi div 8) OR bm_mask bi) AND NOT (bm_mask bi) = d (bi div 8)"
    by (intro bit_word_eqI) (auto simp: bm_free_bit bit_simps bit_bm_mask)
  then show ?thesis by (simp add: bm_clear_def bm_set_def)
qed

text \<open>The block of the bitmap and the bit in it, for the block that the scan looks at.\<close>

lemma scan_pos:
  assumes "b = 4096 * k" "bi < 4096" "b + bi < 2 ^ 32"
  shows "BBLOCK (of_nat (b + bi)) n = BBLOCK (of_nat b) n" "unat ((of_nat (b + bi) :: uint) mod BPB) = bi"
    "unat (of_nat (b + bi) :: uint) = b + bi"
proof -
  show u: "unat (of_nat (b + bi) :: uint) = b + bi" using assms(3) by (simp add: unat_of_nat del: of_nat_add)
  then show "unat ((of_nat (b + bi) :: uint) mod BPB) = bi" using assms by (simp add: unat_mod del: of_nat_add)
  have "unat (of_nat b :: uint) = b" using assms(3) by (simp add: unat_of_nat)
  then have "(of_nat (b + bi) :: uint) div BPB = of_nat b div BPB"
    using u assms by (simp add: word_unat_eq_iff unat_div unat_of_nat del: of_nat_add)
  then show "BBLOCK (of_nat (b + bi)) n = BBLOCK (of_nat b) n" by (simp add: BBLOCK_def)
qed

text \<open>
  What the allocator relies on: the bitmap blocks and the superblock are home blocks that are not
  free, the blocks held by the caller are not free, and every block the bitmap shows as free is a home block.
\<close>

definition alloc_ok :: "'a log_state_scheme \<Rightarrow> (nat \<rightharpoonup> uint) \<Rightarrow> superblock \<Rightarrow> bool" where
  "alloc_ok s H sb \<longleftrightarrow> get_superblock (view s 1) = sb \<and> 1 < disksize s \<and> 1 \<notin> ran H \<and>
     (\<forall>b < sb_size sb. BBLOCK b (sb_ninodes sb) \<in> home s - {1} - ran H) \<and>
     (\<forall>b < sb_size sb. blk_free (view s) sb b \<longrightarrow> b \<in> home s \<and> b \<notin> ran H \<and> b \<noteq> 1 \<and> (\<forall>c < sb_size sb. b \<noteq> BBLOCK c (sb_ninodes sb)))"

section \<open>bzero, balloc, bfree\<close>

lemma bzeroE:
  assumes "txn s H" "sec \<notin> ran H" "sec \<in> home s" "space s H 1"
  obtains t where "\<And>R. wp (bzero 1 sec) R s = R () t" "tx_step s H t {sec}" "view t = (view s)(sec := (\<lambda>_. 0))"
proof -
  obtain t where r: "\<And>R. wp (bread 1 sec) (\<lambda>i t. wp (set_buf i ((bufs t i)\<lparr>b_data := (\<lambda>_ _. 0) (b_data (bufs t i))\<rparr>))
      (\<lambda>_. wp (log_write i) (\<lambda>_. wp (brelse i) R)) t) s = R () t"
    and t: "tx_step s H t {sec}" "view t = (view s)(sec := (\<lambda>_ _. 0) (view s sec))"
    by (rule txn_update [OF assms, of "\<lambda>_ _. 0"], rule that)
  have "wp (bzero 1 sec) R s = R () t" for R using r [of R] by (simp add: bzero_def wp_rules)
  then show thesis using that t by simp
qed

definition balloc_post :: "'a log_state_scheme \<Rightarrow> (nat \<rightharpoonup> uint) \<Rightarrow> superblock \<Rightarrow> uint \<Rightarrow> 'a log_state_scheme \<Rightarrow> bool" where
  "balloc_post s H sb b t \<longleftrightarrow> b < sb_size sb \<and> blk_free (view s) sb b \<and> tx_step s H t {BBLOCK b (sb_ninodes sb), b} \<and>
     view t = (view s)(BBLOCK b (sb_ninodes sb) := bm_set (view s (BBLOCK b (sb_ninodes sb))) (unat (b mod BPB)), b := (\<lambda>_. 0))"

lemma balloc_found:
  assumes txn: "txn s H" and sp: "space s H 2" and ok: "alloc_ok s H sb" and b: "b < sb_size sb" "blk_free (view s) sb b"
  defines "bb \<equiv> BBLOCK b (sb_ninodes sb)"
  obtains t where "\<And>R. wp (bread 1 bb) (\<lambda>i t. wp (set_buf i ((bufs t i)\<lparr>b_data := bm_set (b_data (bufs t i)) (unat (b mod BPB))\<rparr>))
      (\<lambda>_. wp (log_write i) (\<lambda>_. wp (brelse i) (\<lambda>_. wp (bzero 1 b) R))) t) s = R () t" "balloc_post s H sb b t"
proof -
  have bb: "bb \<in> home s" "bb \<notin> ran H" using ok b by (simp_all add: alloc_ok_def bb_def)
  have sp1: "space s H 1" "space s H (1 + 1)" using sp by (simp_all add: space_def numeral_2_eq_2)
  obtain t where r: "\<And>R. wp (bread 1 bb) (\<lambda>i t. wp (set_buf i ((bufs t i)\<lparr>b_data := bm_set (b_data (bufs t i)) (unat (b mod BPB))\<rparr>))
      (\<lambda>_. wp (log_write i) (\<lambda>_. wp (brelse i) R)) t) s = R () t"
    and t: "tx_step s H t {bb}" "view t = (view s)(bb := bm_set (view s bb) (unat (b mod BPB)))"
    by (rule txn_update [OF txn bb(2,1) sp1(1), of "\<lambda>d. bm_set d (unat (b mod BPB))"], rule that)
  have bt: "b \<notin> ran H" "b \<in> home t" using ok b tx_step_home [OF t(1)] by (auto simp: alloc_ok_def)
  obtain u where ru: "\<And>R. wp (bzero 1 b) R t = R () u" and u: "tx_step t H u {b}" "view u = (view t)(b := (\<lambda>_. 0))"
    by (rule bzeroE [OF tx_step_txn [OF t(1)] bt tx_step_space1 [OF t(1) txn sp1(2)]], rule that)
  have "tx_step s H u {bb, b}" using tx_step_trans [OF t(1) u(1)] by (simp add: insert_commute)
  then have "balloc_post s H sb b u" using b t(2) u(2) by (simp add: balloc_post_def bb_def)
  then show thesis using that r ru by simp
qed

lemma alloc_ok_step:
  assumes "alloc_ok s H sb" "tx_step s H t {}" "view t = view s"
  shows "alloc_ok t H sb"
  using assms tx_step_home [OF assms(2)] tx_step_disksize [OF assms(2)] by (simp add: alloc_ok_def)

lemma takeWhile_upt_less: "takeWhile (\<lambda>i. b + i < m) [0..<n] = [0..<min n (m - b)]" for b :: nat
proof (induction n)
  case (Suc n)
  show ?case
  proof (cases "b + n < m")
    case True
    then show ?thesis by (auto simp: takeWhile_append)
  next
    case False
    then have "takeWhile (\<lambda>i. b + i < m) [0..<Suc n] = takeWhile (\<lambda>i. b + i < m) [0..<n]"
      by (auto simp: takeWhile_append takeWhile_eq_all_conv [THEN iffD2])
    moreover have "min (Suc n) (m - b) = min n (m - b)" using False by auto
    ultimately show ?thesis using Suc by simp
  qed
qed simp

lemma balloc_post_step:
  assumes "tx_step s H t {}" "view t = view s" "balloc_post t H sb b u"
  shows "balloc_post s H sb b u"
  using assms tx_step_trans [OF assms(1)] by (fastforce simp: balloc_post_def)

lemma balloc_from_ok:
  assumes "txn s H" "space s H 2" "alloc_ok s H sb" "\<forall>b \<in> set bs. \<exists>k. b = 4096 * k \<and> b < unat (sb_size sb)"
    and "\<exists>b \<in> set bs. \<exists>bi < 4096. b + bi < unat (sb_size sb) \<and> blk_free (view s) sb (of_nat (b + bi))"
  shows "wp (balloc_from 1 sb bs) (\<lambda>b t. balloc_post s H sb b t) s"
  using assms
proof (induction bs arbitrary: s)
  case (Cons b bs)
  obtain k where k: "b = 4096 * k" "b < unat (sb_size sb)" using Cons.prems(4) by auto
  let ?bb = "BBLOCK (of_nat b) (sb_ninodes sb)" and ?xs = "takeWhile (\<lambda>bi. b + bi < unat (sb_size sb)) [0..<4096]"
  have lim: "unat (sb_size sb) < 2 ^ 32" using unsigned_less [of "sb_size sb", where 'a = nat] by simp
  have xs: "?xs = [0..<min 4096 (unat (sb_size sb) - b)]" by (rule takeWhile_upt_less)
  have free: "bm_free (view s ?bb) bi \<longleftrightarrow> blk_free (view s) sb (of_nat (b + bi))" if "bi \<in> set ?xs" for bi
  proof -
    have "bi < 4096" "b + bi < 2 ^ 32" using that lim unfolding xs by auto
    then show ?thesis using scan_pos [OF k(1)] by (simp add: blk_free_def)
  qed
  have b: "of_nat b < sb_size sb" using k(2) lim by (simp add: word_less_nat_alt unat_of_nat)
  then have new: "?bb \<notin> ran H" "?bb < disksize s" using Cons.prems(3) home_rng by (auto simp: alloc_ok_def)
  have sp: "space s H 1" using Cons.prems(2) by (simp add: space_def)
  obtain i s1 where r1: "\<And>Q. wp (bread 1 ?bb) Q s = Q i s1" and d1: "b_data (bufs s1 i) = view s ?bb"
    by (rule txn_bread [OF Cons.prems(1) new sp], rule that)
  show ?case
  proof (cases "find (bm_free (view s ?bb)) ?xs")
    case None
    obtain c t where r: "\<And>R. wp (bread 1 ?bb) (\<lambda>i t. wp (brelse i) (R (bufs t i)) t) s = R c () t"
      and t: "tx_step s H t {}" "view t = view s"
      by (rule txn_read_release [OF Cons.prems(1) new sp], rule that)
    have none: "\<not> blk_free (view s) sb (of_nat (b + bi))" if "bi < 4096" "b + bi < unat (sb_size sb)" for bi
      using None free [of bi] that by (auto simp: find_None_iff xs)
    have "wp (balloc_from 1 sb bs) (\<lambda>b u. balloc_post t H sb b u) t"
    proof (rule Cons.IH)
      show "space t H 2" by (rule tx_step_space0 [OF t(1) Cons.prems(1,2)])
      show "\<exists>b \<in> set bs. \<exists>bi < 4096. b + bi < unat (sb_size sb) \<and> blk_free (view t) sb (of_nat (b + bi))"
        using Cons.prems(5) none t(2) by auto
    qed (use Cons.prems(3,4) t alloc_ok_step tx_step_txn in auto)
    then have "wp (balloc_from 1 sb bs) (\<lambda>b u. balloc_post s H sb b u) t"
      by (rule wp_mono) (rule balloc_post_step [OF t])
    then show ?thesis using r [of "\<lambda>_ _. wp (balloc_from 1 sb bs) (\<lambda>b u. balloc_post s H sb b u)"] None
      by (simp add: wp_rules r1 d1)
  next
    case (Some bi)
    then have bi: "bi \<in> set ?xs" "bm_free (view s ?bb) bi" by (auto dest!: find_Some_P)
    then have lt: "bi < 4096" "b + bi < unat (sb_size sb)" unfolding xs by auto
    have pos: "BBLOCK (of_nat (b + bi)) (sb_ninodes sb) = ?bb" "unat ((of_nat (b + bi) :: uint) mod BPB) = bi"
      "unat (of_nat (b + bi) :: uint) = b + bi" using scan_pos [OF k(1) lt(1)] lt(2) lim by auto
    have new': "of_nat (b + bi) < sb_size sb" using pos(3) lt(2) by (simp add: word_less_nat_alt del: of_nat_add)
    obtain t where r: "\<And>R. wp (bread 1 ?bb) (\<lambda>i t. wp (set_buf i ((bufs t i)\<lparr>b_data := bm_set (b_data (bufs t i)) bi\<rparr>))
      (\<lambda>_. wp (log_write i) (\<lambda>_. wp (brelse i) (\<lambda>_. wp (bzero 1 (of_nat (b + bi))) R))) t) s = R () t"
      and t: "balloc_post s H sb (of_nat (b + bi)) t"
      by (rule balloc_found [OF Cons.prems(1-3) new' free [THEN iffD1, OF bi], unfolded pos], rule that)
    show ?thesis using r [of "\<lambda>_. balloc_post s H sb (of_nat (b + bi))"] Some t
      by (simp add: wp_rules r1 d1 del: of_nat_add)
  qed
qed simp

lemma bm_starts_mem: "b \<in> set (bm_starts n) \<Longrightarrow> \<exists>k. b = 4096 * k \<and> b < unat n"
  by (auto simp: bm_starts_def)

lemma bm_starts_cover: "c < n \<Longrightarrow> \<exists>b \<in> set (bm_starts n). \<exists>bi < 4096. unat c = b + bi"
proof -
  assume "c < n"
  then have "unat c < unat n" by (simp add: word_less_nat_alt)
  then have "unat c div 4096 < (unat n + 4095) div 4096" by auto
  then have "4096 * (unat c div 4096) \<in> set (bm_starts n)" by (auto simp: bm_starts_def)
  moreover have "unat c = 4096 * (unat c div 4096) + unat c mod 4096" "unat c mod 4096 < 4096" by simp_all
  ultimately show ?thesis by blast
qed

lemma balloc_ok:
  assumes txn: "txn s H" and sp: "space s H 2" and ok: "alloc_ok s H sb" and free: "c < sb_size sb" "blk_free (view s) sb c"
  obtains b t where "\<And>Q. wp (balloc 1) Q s = Q b t" "balloc_post s H sb b t"
proof -
  have sp1: "space s H 1" using sp by (simp add: space_def)
  have one: "1 \<notin> ran H" "1 < disksize s" "get_superblock (view s 1) = sb" using ok by (simp_all add: alloc_ok_def)
  obtain t where r: "\<And>Q. wp (readsb 1) Q s = Q sb t" and t: "tx_step s H t {}" "view t = view s" "logged t = logged s"
    by (rule txn_readsb [OF txn one(1,2) sp1, unfolded one(3)], rule that)
  obtain b0 bi where b0: "b0 \<in> set (bm_starts (sb_size sb))" "bi < 4096" "unat c = b0 + bi"
    using bm_starts_cover [OF free(1)] by blast
  have "of_nat (unat c) = c" by simp
  then have c: "of_nat (b0 + bi) = c" unfolding b0(3) .
  have "wp (balloc_from 1 sb (bm_starts (sb_size sb))) (\<lambda>b u. balloc_post t H sb b u) t"
  proof (rule balloc_from_ok)
    show "space t H 2" by (rule tx_step_space0 [OF t(1) txn sp])
    show "\<exists>b \<in> set (bm_starts (sb_size sb)). \<exists>bi < 4096. b + bi < unat (sb_size sb) \<and> blk_free (view t) sb (of_nat (b + bi))"
      using b0 free t(2) c by (metis word_less_nat_alt)
  qed (use bm_starts_mem alloc_ok_step [OF ok t(1,2)] tx_step_txn [OF t(1)] in auto)
  then obtain b u where "\<And>Q. wp (balloc_from 1 sb (bm_starts (sb_size sb))) Q t = Q b u" "balloc_post t H sb b u"
    by (elim wp_resE) (rule that)
  moreover have "wp (balloc 1) Q s = wp (balloc_from 1 sb (bm_starts (sb_size sb))) Q t" for Q
    by (simp add: balloc_def wp_rules r)
  ultimately show thesis using that balloc_post_step [OF t(1,2)] by simp
qed

lemma bfree_ok:
  assumes txn: "txn s H" and sp: "space s H 1" and ok: "alloc_ok s H sb" and b: "b < sb_size sb" "\<not> blk_free (view s) sb b"
  obtains t where "\<And>Q. wp (bfree 1 b) Q s = Q () t" "tx_step s H t {BBLOCK b (sb_ninodes sb)}"
    "view t = (view s)(BBLOCK b (sb_ninodes sb) := bm_clear (view s (BBLOCK b (sb_ninodes sb))) (unat (b mod BPB)))"
proof -
  let ?bb = "BBLOCK b (sb_ninodes sb)" and ?f = "\<lambda>d. bm_clear d (unat (b mod BPB))"
  have one: "1 \<notin> ran H" "1 < disksize s" "get_superblock (view s 1) = sb" using ok by (simp_all add: alloc_ok_def)
  obtain t where r: "\<And>Q. wp (readsb 1) Q s = Q sb t" and t: "tx_step s H t {}" "view t = view s" "logged t = logged s"
    by (rule txn_readsb [OF txn one(1,2) sp, unfolded one(3)], rule that)
  have bb: "?bb \<notin> ran H" "?bb \<in> home t" using ok b(1) tx_step_home [OF t(1)] by (auto simp: alloc_ok_def)
  have sp': "space t H 1" by (rule tx_step_space0 [OF t(1) txn sp])
  obtain i s1 where r1: "\<And>Q. wp (bread 1 ?bb) Q t = Q i s1" and d1: "b_data (bufs s1 i) = view t ?bb"
    by (rule txn_bread [OF tx_step_txn [OF t(1)] bb(1) home_rng [OF bb(2)] sp'], rule that)
  obtain u where r2: "\<And>R. wp (bread 1 ?bb) (\<lambda>i t. wp (set_buf i ((bufs t i)\<lparr>b_data := ?f (b_data (bufs t i))\<rparr>))
      (\<lambda>_. wp (log_write i) (\<lambda>_. wp (brelse i) R)) t) t = R () u"
    and u: "tx_step t H u {?bb}" "view u = (view t)(?bb := ?f (view t ?bb))"
    by (rule txn_update [OF tx_step_txn [OF t(1)] bb sp', of ?f], rule that)
  have "wp (bfree 1 b) Q s = Q () u" for Q
    using r2 [of Q] b(2) t(2) by (simp add: bfree_def wp_rules r r1 d1 Let_def blk_free_def)
  moreover have "tx_step s H u {?bb}" using tx_step_trans [OF t(1) u(1)] by simp
  ultimately show thesis using that t(2) u(2) by simp
qed

section \<open>Properties\<close>

lemma BBLOCK_bit_inj: "BBLOCK b n = BBLOCK c n \<Longrightarrow> unat (b mod BPB) = unat (c mod BPB) \<Longrightarrow> b = c"
proof -
  assume a: "BBLOCK b n = BBLOCK c n" "unat (b mod BPB) = unat (c mod BPB)"
  have "b div BPB = c div BPB" using a(1) by (simp add: BBLOCK_def)
  then have "unat b div 4096 = unat c div 4096" "unat b mod 4096 = unat c mod 4096"
    using a(2) by (simp_all add: word_unat_eq_iff unat_div unat_mod)
  then have "unat b = unat c" by (metis div_mult_mod_eq)
  then show ?thesis by (simp add: word_unat_eq_iff)
qed

text \<open>
  C9: inside a transaction with room for two blocks, \<^verbatim>\<open>balloc\<close> returns a block of the file system that the bitmap
  showed as free; afterwards the bitmap shows exactly that block as newly used, the block is zeroed, and no other block
  but the bitmap block is changed.
\<close>

theorem balloc_allocates:
  assumes "txn s H" and "space s H 2" and "alloc_ok s H sb" and "\<exists>c < sb_size sb. blk_free (view s) sb c"
  shows "wp (balloc 1) (\<lambda>b t. b < sb_size sb \<and> blk_free (view s) sb b \<and> view t b = (\<lambda>_. 0) \<and>
     (\<forall>c < sb_size sb. blk_free (view t) sb c \<longleftrightarrow> blk_free (view s) sb c \<and> c \<noteq> b) \<and>
     (\<forall>c. c \<noteq> b \<and> c \<noteq> BBLOCK b (sb_ninodes sb) \<longrightarrow> view t c = view s c) \<and> tx_step s H t {BBLOCK b (sb_ninodes sb), b}) s"
proof -
  obtain c where c: "c < sb_size sb" "blk_free (view s) sb c" using assms(4) by blast
  obtain b t where r: "\<And>Q. wp (balloc 1) Q s = Q b t" and p: "balloc_post s H sb b t"
    by (rule balloc_ok [OF assms(1-3) c], rule that)
  let ?bb = "\<lambda>c. BBLOCK c (sb_ninodes sb)"
  have ne: "?bb c \<noteq> b" if "c < sb_size sb" for c using assms(3) p that by (auto simp: balloc_post_def alloc_ok_def)
  have "blk_free (view t) sb c \<longleftrightarrow> blk_free (view s) sb c \<and> c \<noteq> b" if "c < sb_size sb" for c
    using ne [OF that] p BBLOCK_bit_inj [of c "sb_ninodes sb" b]
    by (auto simp: balloc_post_def blk_free_def bm_free_set)
  then show ?thesis using p unfolding r by (auto simp: balloc_post_def)
qed

text \<open>
  C10: \<^verbatim>\<open>bfree\<close> gives a block back: after it the bitmap shows the block as free and every other block as before, and only the
  bitmap block is changed. Applied to the block that \<^verbatim>\<open>balloc\<close> returned, it restores the bitmap block byte for byte.
\<close>

theorem bfree_undoes_balloc:
  assumes "txn s H" and "space s H 3" and "alloc_ok s H sb" and "\<exists>c < sb_size sb. blk_free (view s) sb c"
  shows "wp (balloc 1) (\<lambda>b t. wp (bfree 1 b) (\<lambda>_ u. view u = (view s)(b := (\<lambda>_. 0)) \<and> blk_free (view u) sb b) t) s"
proof -
  obtain c where c: "c < sb_size sb" "blk_free (view s) sb c" using assms(4) by blast
  have sp: "space s H 2" "space s H (2 + 1)" using assms(2) by (simp_all add: space_def)
  obtain b t where r: "\<And>Q. wp (balloc 1) Q s = Q b t" and p: "balloc_post s H sb b t"
    by (rule balloc_ok [OF assms(1) sp(1) assms(3) c], rule that)
  let ?bb = "BBLOCK b (sb_ninodes sb)"
  have t: "tx_step s H t {?bb, b}" and b: "b < sb_size sb" "blk_free (view s) sb b"
    and v: "view t = (view s)(?bb := bm_set (view s ?bb) (unat (b mod BPB)), b := (\<lambda>_. 0))"
    using p by (simp_all add: balloc_post_def)
  have ne: "BBLOCK c (sb_ninodes sb) \<noteq> b" if "c < sb_size sb" for c
    using assms(3) b that by (auto simp: alloc_ok_def)
  have used: "blk_free (view t) sb c \<longleftrightarrow> blk_free (view s) sb c \<and> c \<noteq> b" if "c < sb_size sb" for c
    using ne [OF that] BBLOCK_bit_inj [of c "sb_ninodes sb" b] v by (auto simp: blk_free_def bm_free_set)
  have one: "?bb \<noteq> 1" "b \<noteq> 1" using assms(3) b by (auto simp: alloc_ok_def)
  have "space t H 1" by (rule tx_step_space [OF t assms(1) sp(2)]) (simp_all add: card_insert_if)
  moreover have "alloc_ok t H sb"
    using assms(3) used tx_step_home [OF t] tx_step_disksize [OF t] one v by (simp add: alloc_ok_def)
  ultimately obtain u where ru: "\<And>Q. wp (bfree 1 b) Q t = Q () u" and u: "view u = (view t)(?bb := bm_clear (view t ?bb) (unat (b mod BPB)))"
    by (rule bfree_ok [OF tx_step_txn [OF t] _ _ b(1)]) (use used [OF b(1)] in simp, rule that)
  have "view u = (view s)(b := (\<lambda>_. 0))"
    using u v ne [OF b(1)] bm_clear_set b(2) by (auto simp: blk_free_def)
  then show ?thesis using b(2) ne [OF b(1)] unfolding r ru by (simp add: blk_free_def)
qed

text \<open>A file system of 60 blocks whose first five blocks are in use, with an open transaction.\<close>

definition demo_fs_disk :: "uint \<Rightarrow> bytes" where
  "demo_fs_disk = (\<lambda>_ _. 0)(1 := put32 (put32 (\<lambda>_. 0) 0 60) 8 8, 4 := (\<lambda>_. 0)(0 := mask 5))"

definition demo_fs :: log_state where
  "demo_fs = (demo_log demo_fs_disk demo_free 0)\<lparr>l_outstanding := 1\<rparr>"

lemma demo_fs_sb: "get_superblock (demo_fs_disk 1) = \<lparr>sb_size = 60, sb_nblocks = 0, sb_ninodes = 8, sb_nlog = 0\<rparr>"
  by (simp add: demo_fs_disk_def get_superblock_def) (simp add: get32_def)

lemma demo_fs_view: "view demo_fs = demo_fs_disk"
proof -
  have "view demo_fs sec = demo_fs_disk sec" for sec
    unfolding demo_fs_def view_log_upd by (subst view_uncached) (auto simp: demo_caches, simp add: demo_log_def)
  then show ?thesis by blast
qed

lemma demo_fs_txn: "txn demo_fs Map.empty" "space demo_fs Map.empty 3"
proof -
  have lg: "logged demo_fs = []" by (simp add: logged_def demo_fs_def demo_log_def)
  then show "space demo_fs Map.empty 3" by (simp add: space_def demo_fs_def demo_log_def)
  have "log_wf demo_fs" using lg by (simp add: log_wf_def log_geom_def) (simp add: demo_fs_def demo_log_def)
  moreover have "bc demo_fs Map.empty {}" using demo_bc(2) by (simp add: demo_fs_def)
  moreover have "1 \<le> l_outstanding demo_fs" by (simp add: demo_fs_def)
  ultimately show "txn demo_fs Map.empty" using lg by (simp add: txn_def)
qed

lemma demo_fs_alloc:
  "alloc_ok demo_fs Map.empty \<lparr>sb_size = 60, sb_nblocks = 0, sb_ninodes = 8, sb_nlog = 0\<rparr>"
  "blk_free (view demo_fs) \<lparr>sb_size = 60, sb_nblocks = 0, sb_ninodes = 8, sb_nlog = 0\<rparr> 5"
proof -
  let ?sb = "\<lparr>sb_size = 60, sb_nblocks = 0, sb_ninodes = 8, sb_nlog = 0\<rparr>"
  have bb: "BBLOCK b 8 = 4" "unat (b mod BPB) = unat b" if "b < 60" for b
  proof -
    have "unat b < 60" using that by (simp add: word_less_nat_alt)
    then have "b div 4096 = 0" "b mod 4096 = b" by (simp_all add: word_unat_eq_iff unat_div unat_mod)
    then show "BBLOCK b 8 = 4" "unat (b mod BPB) = unat b" by (simp_all add: BBLOCK_def)
  qed
  have fr: "blk_free demo_fs_disk ?sb b \<longleftrightarrow> 5 \<le> unat b" if "b < 60" for b
  proof -
    have "blk_free demo_fs_disk ?sb b \<longleftrightarrow> \<not> bit (if unat b div 8 = 0 then mask 5 else 0 :: uchar) (unat b mod 8)"
      using bb [OF that] by (simp add: blk_free_def bm_free_bit demo_fs_disk_def)
    also have "\<dots> \<longleftrightarrow> 5 \<le> unat b"
    proof (cases "unat b < 8")
      case True
      then show ?thesis by (auto simp: bit_mask_iff)
    next
      case False
      then have "unat b div 8 \<noteq> 0" by (simp add: div_eq_0_iff)
      then show ?thesis using False by simp
    qed
    finally show ?thesis .
  qed
  have hm: "home demo_fs = {sec. unat sec < 70}" by (auto simp: home_def demo_fs_def demo_log_def word_less_nat_alt)
  show "alloc_ok demo_fs Map.empty ?sb"
    unfolding alloc_ok_def demo_fs_view demo_fs_sb hm
  proof (intro conjI allI impI)
    show "1 < disksize demo_fs" by (simp add: demo_fs_def demo_log_def)
    fix b assume b: "b < sb_size ?sb"
    then have lt: "b < 60" "unat b < 60" by (simp_all add: word_less_nat_alt)
    show "BBLOCK b (sb_ninodes ?sb) \<in> {sec. unat sec < 70} - {1} - ran Map.empty" using bb(1) [OF lt(1)] by simp
    assume "blk_free demo_fs_disk ?sb b"
    then have ge: "5 \<le> unat b" using fr [OF lt(1)] by simp
    then show "b \<in> {sec. unat sec < 70}" "b \<noteq> 1" "b \<notin> ran Map.empty" using lt by auto
    fix c assume "c < sb_size ?sb"
    then have "BBLOCK c (sb_ninodes ?sb) = 4" using bb(1) [of c] by simp
    then show "b \<noteq> BBLOCK c (sb_ninodes ?sb)" using ge by auto
  qed simp_all
  show "blk_free (view demo_fs) ?sb 5" using fr [of 5] by (simp add: demo_fs_view)
qed

theorem balloc_allocates_witness:
  "wp (balloc 1) (\<lambda>b t. b < 60 \<and> blk_free demo_fs_disk (get_superblock (demo_fs_disk 1)) b \<and> view t b = (\<lambda>_. 0)) demo_fs"
  by (rule wp_mono [OF balloc_allocates [OF demo_fs_txn(1) _ demo_fs_alloc(1)]])
    (use demo_fs_txn(2) demo_fs_alloc(2) in \<open>auto simp: space_def demo_fs_view demo_fs_sb intro!: exI [of _ 5]\<close>)

theorem bfree_undoes_balloc_witness:
  "wp (balloc 1) (\<lambda>b t. wp (bfree 1 b) (\<lambda>_ u. view u = demo_fs_disk(b := (\<lambda>_. 0))) t) demo_fs"
proof -
  have "wp (balloc 1) (\<lambda>b t. wp (bfree 1 b) (\<lambda>_ u. view u = (view demo_fs)(b := (\<lambda>_. 0)) \<and> blk_free (view u) \<lparr>sb_size = 60, sb_nblocks = 0, sb_ninodes = 8, sb_nlog = 0\<rparr> b) t) demo_fs"
    by (rule bfree_undoes_balloc [OF demo_fs_txn demo_fs_alloc(1)]) (use demo_fs_alloc(2) in \<open>auto intro!: exI [of _ 5]\<close>)
  then show ?thesis by (rule wp_mono) (auto simp: demo_fs_view elim!: wp_mono)
qed

end
