(* ===== verification/Fs_Inode.thy ===== *)
theory Fs_Inode
  imports Fs_Alloc
begin

text \<open>
  Inodes, \<^verbatim>\<open>fs.c\<close>. A \<^verbatim>\<open>struct inode*\<close> is an index into the inode cache, so the tests for a null pointer in
  \<^verbatim>\<open>ilock\<close> and \<^verbatim>\<open>iunlock\<close> have no counterpart. \<^verbatim>\<open>ilock\<close> is one turn of its waiting loop. The table \<^verbatim>\<open>devsw\<close> of device functions,
  filled in at boot by the drivers, is an argument of the routines that call through it. A buffer that a routine fills
  (\<^verbatim>\<open>char *dst\<close>) is passed in as the bytes it holds and returned as the bytes it holds afterwards.
\<close>

record inode =
  i_dev :: uint
  i_inum :: uint
  i_ref :: int
  i_flags :: uint
  i_type :: ushort
  i_major :: ushort
  i_minor :: ushort
  i_nlink :: ushort
  i_size :: uint
  i_addrs :: "nat \<Rightarrow> uint"

definition I_BUSY :: uint where "I_BUSY = 0x1"
definition I_VALID :: uint where "I_VALID = 0x2"

abbreviation (input) T_DIR :: ushort where "T_DIR \<equiv> 1"
abbreviation (input) T_FILE :: ushort where "T_FILE \<equiv> 2"
abbreviation (input) T_DEV :: ushort where "T_DEV \<equiv> 3"

record fs_state = log_state +
  icache :: "nat \<Rightarrow> inode"

record 's devsw =
  dv_read :: "nat \<Rightarrow> (nat \<Rightarrow> bytes \<Rightarrow> uint \<Rightarrow> ('s, int \<times> bytes) kprog) option"
  dv_write :: "nat \<Rightarrow> (nat \<Rightarrow> bytes \<Rightarrow> uint \<Rightarrow> ('s, int) kprog) option"

definition upd_inode :: "nat \<Rightarrow> (inode \<Rightarrow> inode) \<Rightarrow> ('a fs_state_scheme, unit) kprog" where
  "upd_inode ip f = kmod (\<lambda>s. s\<lparr>icache := (icache s)(ip := f (icache s ip))\<rparr>)"

definition get_inode :: "nat \<Rightarrow> ('a fs_state_scheme, inode) kprog" where
  "get_inode ip = kget (\<lambda>s. icache s ip)"

text \<open>Byte offset of an inode in its block: \<^verbatim>\<open>(struct dinode*)bp->data + inum%IPB\<close>.\<close>

definition ioff :: "uint \<Rightarrow> nat" where
  "ioff inum = 64 * unat (inum mod IPB)"

definition iget :: "uint \<Rightarrow> uint \<Rightarrow> ('a fs_state_scheme, nat) kprog" where
  "iget dev inum s =
     (case find (\<lambda>ip. i_ref (icache s ip) > 0 \<and> i_dev (icache s ip) = dev \<and> i_inum (icache s ip) = inum) [0..<NINODE] of
        Some ip \<Rightarrow> Ok ip (s\<lparr>icache := (icache s)(ip := (icache s ip)\<lparr>i_ref := i_ref (icache s ip) + 1\<rparr>)\<rparr>)
      | None \<Rightarrow>
          (case find (\<lambda>ip. i_ref (icache s ip) = 0) [0..<NINODE] of
             None \<Rightarrow> Panic ''iget: no inodes''
           | Some ip \<Rightarrow> Ok ip (s\<lparr>icache := (icache s)(ip :=
               (icache s ip)\<lparr>i_dev := dev, i_inum := inum, i_ref := 1, i_flags := 0\<rparr>)\<rparr>)))"

fun ialloc_from :: "uint \<Rightarrow> ushort \<Rightarrow> nat list \<Rightarrow> ('a fs_state_scheme, nat) kprog" where
  "ialloc_from dev type [] = kpanic ''ialloc: no inodes''"
| "ialloc_from dev type (inum # ns) =
     kbind (bread dev (IBLOCK (of_nat inum))) (\<lambda>i.
     kbind (get_buf i) (\<lambda>bp.
     if d_type (get_dinode (b_data bp) (ioff (of_nat inum))) = 0 then
       kseq (set_buf i (bp\<lparr>b_data := put_dinode (b_data bp) (ioff (of_nat inum))
           \<lparr>d_type = type, d_major = 0, d_minor = 0, d_nlink = 0, d_size = 0, d_addrs = (\<lambda>_. 0)\<rparr>\<rparr>))
       (kseq (log_write i)
       (kseq (brelse i)
       (iget dev (of_nat inum))))
     else kseq (brelse i) (ialloc_from dev type ns)))"

definition ialloc :: "uint \<Rightarrow> ushort \<Rightarrow> ('a fs_state_scheme, nat) kprog" where
  "ialloc dev type = kbind (readsb dev) (\<lambda>sb. ialloc_from dev type [1..<unat (sb_ninodes sb)])"

definition inode_dinode :: "inode \<Rightarrow> dinode" where
  "inode_dinode ip = \<lparr>d_type = i_type ip, d_major = i_major ip, d_minor = i_minor ip, d_nlink = i_nlink ip,
     d_size = i_size ip, d_addrs = i_addrs ip\<rparr>"

definition iupdate :: "nat \<Rightarrow> ('a fs_state_scheme, unit) kprog" where
  "iupdate p =
     kbind (get_inode p) (\<lambda>ip.
     kbind (bread (i_dev ip) (IBLOCK (i_inum ip))) (\<lambda>i.
     kbind (get_buf i) (\<lambda>bp.
     kseq (set_buf i (bp\<lparr>b_data := put_dinode (b_data bp) (ioff (i_inum ip)) (inode_dinode ip)\<rparr>))
     (kseq (log_write i)
     (kseq (brelse i) (kret ()))))))"

definition idup :: "nat \<Rightarrow> ('a fs_state_scheme, nat) kprog" where
  "idup ip = kseq (upd_inode ip (\<lambda>i. i\<lparr>i_ref := i_ref i + 1\<rparr>)) (kret ip)"

definition load_inode :: "dinode \<Rightarrow> inode \<Rightarrow> inode" where
  "load_inode d ip = ip\<lparr>i_type := d_type d, i_major := d_major d, i_minor := d_minor d, i_nlink := d_nlink d,
     i_size := d_size d, i_addrs := (\<lambda>k. if k < NDIRECT + 1 then d_addrs d k else i_addrs ip k)\<rparr>"

definition ilock :: "nat \<Rightarrow> ('a fs_state_scheme, unit) kprog" where
  "ilock p =
     kbind (get_inode p) (\<lambda>ip.
     if i_ref ip < 1 then kpanic ''ilock''
     else if i_flags ip AND I_BUSY \<noteq> 0 then sleep (ChanInode p)
     else kseq (upd_inode p (\<lambda>ip. ip\<lparr>i_flags := i_flags ip OR I_BUSY\<rparr>))
       (if i_flags ip AND I_VALID = 0 then
          kbind (bread (i_dev ip) (IBLOCK (i_inum ip))) (\<lambda>i.
          kbind (get_buf i) (\<lambda>bp.
          kseq (upd_inode p (load_inode (get_dinode (b_data bp) (ioff (i_inum ip)))))
          (kseq (brelse i)
          (kseq (upd_inode p (\<lambda>ip. ip\<lparr>i_flags := i_flags ip OR I_VALID\<rparr>))
          (kbind (get_inode p) (\<lambda>ip.
          if i_type ip = 0 then kpanic ''ilock: no type'' else kret ()))))))
        else kret ()))"

definition iunlock :: "nat \<Rightarrow> ('a fs_state_scheme, unit) kprog" where
  "iunlock p =
     kbind (get_inode p) (\<lambda>ip.
     if i_flags ip AND I_BUSY = 0 \<or> i_ref ip < 1 then kpanic ''iunlock''
     else kseq (upd_inode p (\<lambda>ip. ip\<lparr>i_flags := i_flags ip AND NOT I_BUSY\<rparr>)) (wakeup (ChanInode p)))"

section \<open>Inode contents\<close>

definition set_addr :: "nat \<Rightarrow> nat \<Rightarrow> uint \<Rightarrow> ('a fs_state_scheme, unit) kprog" where
  "set_addr p k a = upd_inode p (\<lambda>ip. ip\<lparr>i_addrs := (i_addrs ip)(k := a)\<rparr>)"

text \<open>\<open>bmap_slot\<close>: \<^verbatim>\<open>if((addr = ip->addrs[k]) == 0) ip->addrs[k] = addr = balloc(ip->dev);\<close>\<close>

definition bmap_slot :: "nat \<Rightarrow> nat \<Rightarrow> ('a fs_state_scheme, uint) kprog" where
  "bmap_slot p k =
     kbind (get_inode p) (\<lambda>ip.
     if i_addrs ip k = 0
     then kbind (balloc (i_dev ip)) (\<lambda>addr. kseq (set_addr p k addr) (kret addr))
     else kret (i_addrs ip k))"

definition bmap :: "nat \<Rightarrow> uint \<Rightarrow> ('a fs_state_scheme, uint) kprog" where
  "bmap p bn =
     (if bn < of_nat NDIRECT then bmap_slot p (unat bn)
      else
        (let bn = bn - of_nat NDIRECT in
         if bn < of_nat NINDIRECT then
           kbind (bmap_slot p NDIRECT) (\<lambda>addr.
           kbind (get_inode p) (\<lambda>ip.
           kbind (bread (i_dev ip) addr) (\<lambda>i.
           kbind (get_buf i) (\<lambda>bp.
           if get32 (b_data bp) (4 * unat bn) = 0 then
             kbind (balloc (i_dev ip)) (\<lambda>a.
             kbind (get_buf i) (\<lambda>bp.
             kseq (set_buf i (bp\<lparr>b_data := put32 (b_data bp) (4 * unat bn) a\<rparr>))
             (kseq (log_write i)
             (kseq (brelse i)
             (kret a)))))
           else kseq (brelse i) (kret (get32 (b_data bp) (4 * unat bn)))))))
         else kpanic ''bmap: out of range''))"

fun itrunc_direct :: "nat \<Rightarrow> nat list \<Rightarrow> ('a fs_state_scheme, unit) kprog" where
  "itrunc_direct p [] = kret ()"
| "itrunc_direct p (k # ks) =
     kbind (get_inode p) (\<lambda>ip.
     if i_addrs ip k \<noteq> 0
     then kseq (bfree (i_dev ip) (i_addrs ip k)) (kseq (set_addr p k 0) (itrunc_direct p ks))
     else itrunc_direct p ks)"

fun itrunc_indirect :: "uint \<Rightarrow> nat \<Rightarrow> nat list \<Rightarrow> ('a fs_state_scheme, unit) kprog" where
  "itrunc_indirect dev i [] = kret ()"
| "itrunc_indirect dev i (j # js) =
     kbind (get_buf i) (\<lambda>bp.
     if get32 (b_data bp) (4 * j) \<noteq> 0
     then kseq (bfree dev (get32 (b_data bp) (4 * j))) (itrunc_indirect dev i js)
     else itrunc_indirect dev i js)"

definition itrunc :: "nat \<Rightarrow> ('a fs_state_scheme, unit) kprog" where
  "itrunc p =
     kseq (itrunc_direct p [0..<NDIRECT])
     (kbind (get_inode p) (\<lambda>ip.
     kseq (if i_addrs ip NDIRECT \<noteq> 0 then
        kbind (bread (i_dev ip) (i_addrs ip NDIRECT)) (\<lambda>i.
        kseq (itrunc_indirect (i_dev ip) i [0..<NINDIRECT])
        (kseq (brelse i)
        (kseq (bfree (i_dev ip) (i_addrs ip NDIRECT))
        (set_addr p NDIRECT 0))))
      else kret ())
     (kseq (upd_inode p (\<lambda>ip. ip\<lparr>i_size := 0\<rparr>))
     (iupdate p))))"

definition iput :: "nat \<Rightarrow> ('a fs_state_scheme, unit) kprog" where
  "iput p =
     kbind (get_inode p) (\<lambda>ip.
     kseq (if i_ref ip = 1 \<and> i_flags ip AND I_VALID \<noteq> 0 \<and> i_nlink ip = 0 then
         if i_flags ip AND I_BUSY \<noteq> 0 then kpanic ''iput busy''
         else kseq (upd_inode p (\<lambda>ip. ip\<lparr>i_flags := i_flags ip OR I_BUSY\<rparr>))
           (kseq (itrunc p)
           (kseq (upd_inode p (\<lambda>ip. ip\<lparr>i_type := 0\<rparr>))
           (kseq (iupdate p)
           (kseq (upd_inode p (\<lambda>ip. ip\<lparr>i_flags := 0\<rparr>))
           (wakeup (ChanInode p))))))
       else kret ())
     (upd_inode p (\<lambda>ip. ip\<lparr>i_ref := i_ref ip - 1\<rparr>)))"

definition iunlockput :: "nat \<Rightarrow> ('a fs_state_scheme, unit) kprog" where
  "iunlockput p = kseq (iunlock p) (iput p)"

record stat =
  st_type :: ushort
  st_dev :: uint
  st_ino :: uint
  st_nlink :: ushort
  st_size :: uint

definition stati :: "nat \<Rightarrow> ('a fs_state_scheme, stat) kprog" where
  "stati p = kbind (get_inode p) (\<lambda>ip. kret \<lparr>st_type = i_type ip, st_dev = i_dev ip, st_ino = i_inum ip,
     st_nlink = i_nlink ip, st_size = i_size ip\<rparr>)"

text \<open>\<^verbatim>\<open>memmove(dst, src, m)\<close> between two buffers that do not overlap.\<close>

definition blit :: "bytes \<Rightarrow> nat \<Rightarrow> bytes \<Rightarrow> nat \<Rightarrow> nat \<Rightarrow> bytes" where
  "blit dst i src j m = (\<lambda>k. if i \<le> k \<and> k < i + m then src (j + (k - i)) else dst k)"

definition chunk :: "uint \<Rightarrow> nat \<Rightarrow> nat" where
  "chunk off n = min n (512 - unat off mod 512)"

lemma chunk_pos [simp]: "0 < n \<Longrightarrow> 0 < chunk off n"
  by (simp add: chunk_def)

lemma chunk_le: "chunk off n \<le> n" "unat off mod 512 + chunk off n \<le> 512"
  using mod_less_divisor [of 512 "unat off"] by (auto simp: chunk_def min_def)

text \<open>The copying loop: \<open>n\<close> bytes remain, the next goes to \<open>dst[tot]\<close>.\<close>

function readi_from :: "nat \<Rightarrow> bytes \<Rightarrow> nat \<Rightarrow> uint \<Rightarrow> nat \<Rightarrow> ('a fs_state_scheme, bytes) kprog" where
  "readi_from p dst tot off n =
     (if n = 0 then kret dst
      else
        kbind (bmap p (off div 512)) (\<lambda>addr.
        kbind (get_inode p) (\<lambda>ip.
        kbind (bread (i_dev ip) addr) (\<lambda>i.
        kbind (get_buf i) (\<lambda>bp.
        kseq (brelse i)
        (readi_from p (blit dst tot (b_data bp) (unat off mod 512) (chunk off n)) (tot + chunk off n)
           (off + of_nat (chunk off n)) (n - chunk off n)))))))"
  by pat_completeness auto
termination
  by (relation "measure (\<lambda>(p, dst, tot, off, n). n)") auto

definition readi :: "('a fs_state_scheme) devsw \<Rightarrow> nat \<Rightarrow> bytes \<Rightarrow> uint \<Rightarrow> uint \<Rightarrow> ('a fs_state_scheme, int \<times> bytes) kprog" where
  "readi dv p dst off n =
     kbind (get_inode p) (\<lambda>ip.
     if i_type ip = T_DEV then
       (if sint (i_major ip) < 0 \<or> sint (i_major ip) \<ge> int NDEV then kret (- 1, dst)
        else case dv_read dv (unat (i_major ip)) of None \<Rightarrow> kret (- 1, dst) | Some f \<Rightarrow> f p dst n)
     else if off > i_size ip \<or> off + n < off then kret (- 1, dst)
     else
       (let n = (if off + n > i_size ip then i_size ip - off else n) in
        kbind (readi_from p dst 0 off (unat n)) (\<lambda>dst. kret (sint n, dst))))"

function writei_from :: "nat \<Rightarrow> bytes \<Rightarrow> nat \<Rightarrow> uint \<Rightarrow> nat \<Rightarrow> ('a fs_state_scheme, uint) kprog" where
  "writei_from p src tot off n =
     (if n = 0 then kret off
      else
        kbind (bmap p (off div 512)) (\<lambda>addr.
        kbind (get_inode p) (\<lambda>ip.
        kbind (bread (i_dev ip) addr) (\<lambda>i.
        kbind (get_buf i) (\<lambda>bp.
        kseq (set_buf i (bp\<lparr>b_data := blit (b_data bp) (unat off mod 512) src tot (chunk off n)\<rparr>))
        (kseq (log_write i)
        (kseq (brelse i)
        (writei_from p src (tot + chunk off n) (off + of_nat (chunk off n)) (n - chunk off n)))))))))"
  by pat_completeness auto
termination
  by (relation "measure (\<lambda>(p, src, tot, off, n). n)") auto

definition writei :: "('a fs_state_scheme) devsw \<Rightarrow> nat \<Rightarrow> bytes \<Rightarrow> uint \<Rightarrow> uint \<Rightarrow> ('a fs_state_scheme, int) kprog" where
  "writei dv p src off n =
     kbind (get_inode p) (\<lambda>ip.
     if i_type ip = T_DEV then
       (if sint (i_major ip) < 0 \<or> sint (i_major ip) \<ge> int NDEV then kret (- 1)
        else case dv_write dv (unat (i_major ip)) of None \<Rightarrow> kret (- 1) | Some f \<Rightarrow> f p src n)
     else if off > i_size ip \<or> off + n < off then kret (- 1)
     else if off + n > of_nat (MAXFILE * BSIZE) then kret (- 1)
     else
       kbind (writei_from p src 0 off (unat n)) (\<lambda>off.
       kbind (get_inode p) (\<lambda>ip.
       kseq (if n > 0 \<and> off > i_size ip
          then kseq (upd_inode p (\<lambda>ip. ip\<lparr>i_size := off\<rparr>)) (iupdate p) else kret ())
       (kret (sint n)))))"

declare readi_from.simps [simp del] writei_from.simps [simp del]

end
