(* ===== verification/Fs_Inode_Props.thy ===== *)
theory Fs_Inode_Props
  imports Fs_Inode
begin

text \<open>
  Properties of the inode layer: the cache keeps one entry per inode in use, an inode written by \<^verbatim>\<open>iupdate\<close> is the one
  \<^verbatim>\<open>ilock\<close> loads, allocation takes a free inode, and file contents are read and written through the block map.
\<close>

section \<open>The inode cache is not touched by the layers below\<close>

lemma log_frame_icache: "log_frame s t \<Longrightarrow> icache t = icache s" for s :: "'a fs_state_scheme"
proof -
  assume "log_frame s t"
  then obtain p d w b l where "t = s\<lparr>l_n := l_n t, l_sector := l_sector t, ptab := p, disk := d, wtrace := w, bufs := b, lru := l\<rparr>"
    unfolding log_frame_def by (rule bio_frameE)
  then have "icache t = icache (s\<lparr>l_n := l_n t, l_sector := l_sector t, ptab := p, disk := d, wtrace := w, bufs := b, lru := l\<rparr>)"
    by (rule arg_cong)
  then show ?thesis by simp
qed

lemma icache_upd [simp]:
  "bc (s\<lparr>icache := c\<rparr>) H D = bc s H D" "view (s\<lparr>icache := c\<rparr>) = view s" "logged (s\<lparr>icache := c\<rparr>) = logged s"
  "home (s\<lparr>icache := c\<rparr>) = home s" "log_wf (s\<lparr>icache := c\<rparr>) = log_wf s" "txn (s\<lparr>icache := c\<rparr>) H = txn s H"
  "space (s\<lparr>icache := c\<rparr>) H k = space s H k"
  for s :: "'a fs_state_scheme"
proof -
  show b: "bc (s\<lparr>icache := c\<rparr>) H D = bc s H D" for D by (rule bc_cong) simp_all
  show "view (s\<lparr>icache := c\<rparr>) = view s" by (rule view_cong) simp_all
  show l: "logged (s\<lparr>icache := c\<rparr>) = logged s" and h: "home (s\<lparr>icache := c\<rparr>) = home s"
    by (simp_all add: logged_def home_def)
  show w: "log_wf (s\<lparr>icache := c\<rparr>) = log_wf s" by (simp add: log_wf_def log_geom_def l h)
  show "txn (s\<lparr>icache := c\<rparr>) H = txn s H" by (simp add: txn_def b l w)
  show "space (s\<lparr>icache := c\<rparr>) H k = space s H k" by (simp add: space_def l)
qed

lemma wp_inode [wp_rules]:
  "wp (get_inode p) Q = (\<lambda>s. Q (icache s p) s)"
  "wp (upd_inode p f) R = (\<lambda>s. R () (s\<lparr>icache := (icache s)(p := f (icache s p))\<rparr>))"
  by (simp_all add: get_inode_def upd_inode_def wp_rules)

section \<open>Locking\<close>

lemma I_masks: "I_BUSY = 2 ^ 0" "I_VALID = 2 ^ 1"
  by (simp_all add: I_BUSY_def I_VALID_def)

lemmas I_flags [flag_simps] =
  flag_test [OF I_masks(1)] flag_test [OF I_masks(2)]
  flag_set [OF I_masks(1), simplified] flag_set [OF I_masks(2), simplified]
  flag_clear [OF I_masks(1)] flag_clear [OF I_masks(2)]

abbreviation ibusy :: "inode \<Rightarrow> bool" where "ibusy ip \<equiv> bit (i_flags ip) 0"
abbreviation ivalid :: "inode \<Rightarrow> bool" where "ivalid ip \<equiv> bit (i_flags ip) 1"

definition icache_inv :: "'a fs_state_scheme \<Rightarrow> bool" where
  "icache_inv s \<longleftrightarrow> (\<forall>p < NINODE. 0 \<le> i_ref (icache s p)) \<and>
     (\<forall>p q. p < NINODE \<and> q < NINODE \<and> i_ref (icache s p) > 0 \<and> i_ref (icache s q) > 0 \<and>
        i_dev (icache s p) = i_dev (icache s q) \<and> i_inum (icache s p) = i_inum (icache s q) \<longrightarrow> p = q)"

lemma icache_invD:
  assumes "icache_inv s"
  shows "p < NINODE \<Longrightarrow> 0 \<le> i_ref (icache s p)"
    "p < NINODE \<Longrightarrow> q < NINODE \<Longrightarrow> i_ref (icache s p) > 0 \<Longrightarrow> i_ref (icache s q) > 0 \<Longrightarrow>
      i_dev (icache s p) = i_dev (icache s q) \<Longrightarrow> i_inum (icache s p) = i_inum (icache s q) \<Longrightarrow> p = q"
  using assms unfolding icache_inv_def by blast+

lemma icache_inv_upd:
  assumes inv: "icache_inv s" and "0 \<le> i_ref i"
    and new: "\<And>q. q < NINODE \<Longrightarrow> q \<noteq> p \<Longrightarrow> i_ref (icache s q) > 0 \<Longrightarrow> i_ref i > 0 \<Longrightarrow>
      i_dev (icache s q) = i_dev i \<Longrightarrow> i_inum (icache s q) = i_inum i \<Longrightarrow> False"
  shows "icache_inv (s\<lparr>icache := (icache s)(p := i)\<rparr>)"
proof -
  let ?c = "(icache s)(p := i)"
  have "0 \<le> i_ref (?c q)" if "q < NINODE" for q using assms(2) icache_invD(1) [OF inv that] by simp
  moreover have "q = r" if "q < NINODE" "r < NINODE" "i_ref (?c q) > 0" "i_ref (?c r) > 0" "i_dev (?c q) = i_dev (?c r)"
      "i_inum (?c q) = i_inum (?c r)" for q r
  proof (cases "q = p \<or> r = p")
    case True
    then show ?thesis using that new [of q] new [of r] by (cases "q = r") auto
  next
    case False
    then show ?thesis using that icache_invD(2) [OF inv that(1,2)] by simp
  qed
  ultimately show ?thesis unfolding icache_inv_def by simp
qed

text \<open>\<open>iget\<close> returns the entry in use for the inode, or turns a free entry into one, or panics when every entry is in use.\<close>

lemma igetE:
  assumes inv: "icache_inv s"
  obtains (hit) p where "p < NINODE" "iget dev inum s = Ok p (s\<lparr>icache := (icache s)(p := (icache s p)\<lparr>i_ref := i_ref (icache s p) + 1\<rparr>)\<rparr>)"
      "i_ref (icache s p) > 0" "i_dev (icache s p) = dev" "i_inum (icache s p) = inum"
  | (new) p where "p < NINODE" "iget dev inum s = Ok p (s\<lparr>icache := (icache s)(p :=
          (icache s p)\<lparr>i_dev := dev, i_inum := inum, i_ref := 1, i_flags := 0\<rparr>)\<rparr>)" "i_ref (icache s p) = 0"
      "\<And>q. q < NINODE \<Longrightarrow> i_ref (icache s q) > 0 \<Longrightarrow> i_dev (icache s q) = dev \<Longrightarrow> i_inum (icache s q) = inum \<Longrightarrow> False"
  | (full) "iget dev inum s = Panic ''iget: no inodes''" "\<And>q. q < NINODE \<Longrightarrow> i_ref (icache s q) > 0"
proof (cases "find (\<lambda>ip. i_ref (icache s ip) > 0 \<and> i_dev (icache s ip) = dev \<and> i_inum (icache s ip) = inum) [0..<NINODE]")
  case (Some p)
  then have "p < NINODE" "i_ref (icache s p) > 0" "i_dev (icache s p) = dev" "i_inum (icache s p) = inum"
    by (auto dest!: find_Some_P)
  then show thesis using hit [of p] Some by (simp add: iget_def)
next
  case None
  then have none: False if "q < NINODE" "i_ref (icache s q) > 0" "i_dev (icache s q) = dev" "i_inum (icache s q) = inum" for q
    using that by (simp add: find_None_iff)
  show thesis
  proof (cases "find (\<lambda>ip. i_ref (icache s ip) = 0) [0..<NINODE]")
    case (Some p)
    then have "p < NINODE" "i_ref (icache s p) = 0" by (auto dest!: find_Some_P)
    then show thesis by (intro new [of p]) (use none None Some in \<open>simp_all add: iget_def\<close>)
  next
    case n: None
    then have ne: "i_ref (icache s q) \<noteq> 0" if "q < NINODE" for q using that by (simp add: find_None_iff)
    have ge: "0 \<le> i_ref (icache s q)" if "q < NINODE" for q using inv that by (simp add: icache_inv_def)
    show thesis
    proof (rule full)
      show "iget dev inum s = Panic ''iget: no inodes''" using None n by (simp add: iget_def)
      show "i_ref (icache s q) > 0" if "q < NINODE" for q using ne [OF that] ge [OF that] by linarith
    qed
  qed
qed

text \<open>The references that the cache counts for one inode.\<close>

definition iref_to :: "uint \<Rightarrow> uint \<Rightarrow> inode \<Rightarrow> int" where
  "iref_to dev inum i = (if i_dev i = dev \<and> i_inum i = inum then i_ref i else 0)"

definition refs_of :: "'a fs_state_scheme \<Rightarrow> uint \<Rightarrow> uint \<Rightarrow> int" where
  "refs_of s dev inum = (\<Sum>p < NINODE. iref_to dev inum (icache s p))"

lemma sum_fun_upd:
  fixes f :: "'b \<Rightarrow> int"
  assumes "finite A" "p \<in> A"
  shows "(\<Sum>q \<in> A. f ((g(p := x)) q)) = (\<Sum>q \<in> A. f (g q)) - f (g p) + f x"
proof -
  have "(\<Sum>q \<in> A - {p}. f ((g(p := x)) q)) = (\<Sum>q \<in> A - {p}. f (g q))" by (rule sum.cong) simp_all
  then show ?thesis using sum.remove [OF assms, of "\<lambda>q. f ((g(p := x)) q)"] sum.remove [OF assms, of "\<lambda>q. f (g q)"] by simp
qed

lemma refs_of_upd:
  assumes "p < NINODE"
  shows "refs_of (s\<lparr>icache := (icache s)(p := i)\<rparr>) dev inum =
     refs_of s dev inum - iref_to dev inum (icache s p) + iref_to dev inum i"
proof -
  have "(\<Sum>q < NINODE. iref_to dev inum (((icache s)(p := i)) q)) =
      (\<Sum>q < NINODE. iref_to dev inum (icache s q)) - iref_to dev inum (icache s p) + iref_to dev inum i"
    by (rule sum_fun_upd) (use assms in simp_all)
  then show ?thesis by (simp add: refs_of_def)
qed

section \<open>Transactions over the inode layer\<close>

lemma tx_step_icache: "tx_step s H t X \<Longrightarrow> icache t = icache s" for s :: "'a fs_state_scheme"
  by (auto simp: tx_step_def dest: log_frame_icache)

lemma iupdate_ok:
  fixes s :: "'a fs_state_scheme"
  assumes txn: "txn s H" and dev: "i_dev (icache s p) = 1" and blk: "IBLOCK (i_inum (icache s p)) \<notin> ran H"
    "IBLOCK (i_inum (icache s p)) \<in> home s" and sp: "space s H 1"
  defines "b \<equiv> IBLOCK (i_inum (icache s p))"
  obtains t where "\<And>Q. wp (iupdate p) Q s = Q () t" "tx_step s H t {b}"
    "view t = (view s)(b := put_dinode (view s b) (ioff (i_inum (icache s p))) (inode_dinode (icache s p)))"
proof -
  let ?f = "\<lambda>d. put_dinode d (ioff (i_inum (icache s p))) (inode_dinode (icache s p))"
  obtain t where r: "\<And>R. wp (bread 1 b) (\<lambda>i t. wp (set_buf i ((bufs t i)\<lparr>b_data := ?f (b_data (bufs t i))\<rparr>))
      (\<lambda>_. wp (log_write i) (\<lambda>_. wp (brelse i) R)) t) s = R () t"
    and t: "tx_step s H t {b}" "view t = (view s)(b := ?f (view s b))"
    by (rule txn_update [OF txn blk sp, of ?f, folded b_def], rule that)
  have "wp (iupdate p) Q s = Q () t" for Q
    using r [of Q] dev by (simp add: iupdate_def wp_rules b_def)
  then show thesis using that t by blast
qed

lemma load_inode_flags [simp]:
  "load_inode d (ip\<lparr>i_flags := f\<rparr>) = (load_inode d ip)\<lparr>i_flags := f\<rparr>" "i_flags (load_inode d ip) = i_flags ip"
  by (simp_all add: load_inode_def cong: if_cong)

lemma ilock_ok:
  fixes s :: "'a fs_state_scheme"
  assumes txn: "txn s H" and ip: "i_dev (icache s p) = 1" "1 \<le> i_ref (icache s p)" "\<not> ibusy (icache s p)"
    and blk: "IBLOCK (i_inum (icache s p)) \<notin> ran H" "IBLOCK (i_inum (icache s p)) < disksize s" and sp: "space s H 1"
  defines "d \<equiv> get_dinode (view s (IBLOCK (i_inum (icache s p)))) (ioff (i_inum (icache s p)))"
  assumes type: "\<not> ivalid (icache s p) \<Longrightarrow> d_type d \<noteq> 0"
  shows "wp (ilock p) (\<lambda>_ t. txn t H \<and> view t = view s \<and> disk t = disk s \<and> logged t = logged s \<and>
     (\<forall>q. q \<noteq> p \<longrightarrow> icache t q = icache s q) \<and> ibusy (icache t p) \<and> ivalid (icache t p) \<and>
     (\<exists>f. icache t p = (if ivalid (icache s p) then icache s p else load_inode d (icache s p))\<lparr>i_flags := f\<rparr>)) s"
proof (cases "ivalid (icache s p)")
  case True
  then show ?thesis
    using assms(1-4) by (auto simp: ilock_def wp_rules flag_simps)
next
  case False
  let ?s = "s\<lparr>icache := (icache s)(p := (icache s p)\<lparr>i_flags := i_flags (icache s p) OR I_BUSY\<rparr>)\<rparr>"
  have txn': "txn ?s H" and sp': "space ?s H 1" and blk': "IBLOCK (i_inum (icache s p)) < disksize ?s"
    using txn sp blk by simp_all
  obtain i s1 where r1: "\<And>Q. wp (bread 1 (IBLOCK (i_inum (icache s p)))) Q ?s = Q i s1" and Hi: "H i = None"
    and t1: "txn s1 (H(i \<mapsto> IBLOCK (i_inum (icache s p))))"
    and s1: "view s1 = view ?s" "disk s1 = disk ?s" "bio_frame ?s s1"
      "b_data (bufs s1 i) = view ?s (IBLOCK (i_inum (icache s p)))" "logged s1 = logged ?s"
    by (rule txn_bread [OF txn' blk(1) blk' sp'], rule that)
  let ?b = "IBLOCK (i_inum (icache s p))"
  have ic: "icache s1 = icache ?s" using log_frame_icache [OF log_frame_bio [OF s1(3)]] .
  let ?s2 = "s1\<lparr>icache := (icache s1)(p := load_inode d (icache s1 p))\<rparr>"
  have t2: "txn ?s2 (H(i \<mapsto> ?b))" using t1 by simp
  have keep: "?b \<in> set (logged ?s2) \<or> view ?s2 ?b = disk ?s2 ?b"
    using txn_view_disk [OF txn _ blk(1)] s1 by auto
  obtain s3 where r3: "\<And>Q. wp (brelse i) Q ?s2 = Q () s3" and t3: "txn s3 ((H(i \<mapsto> ?b))(i := None))"
    and s3: "view s3 = view ?s2" "disk s3 = disk ?s2" "bio_frame ?s2 s3" "logged s3 = logged ?s2"
    by (rule txn_brelse [of ?s2 "H(i \<mapsto> ?b)" i ?b, OF t2 _ keep]) (simp, rule that)
  have ic3: "icache s3 = icache ?s2" using log_frame_icache [OF log_frame_bio [OF s3(3)]] .
  have H: "(H(i \<mapsto> ?b))(i := None) = H" using Hi by auto
  have dt: "d_type d \<noteq> 0" using type False by simp
  have dd: "get_dinode (view s ?b) (ioff (i_inum (icache s p))) = d" by (simp add: d_def)
  have ty: "i_type (load_inode d (icache s1 p)) = d_type d" by (simp add: load_inode_def)
  have "wp (ilock p) Q s = Q () (s3\<lparr>icache := (icache s3)(p := (icache s3 p)\<lparr>i_flags := i_flags (icache s3 p) OR I_VALID\<rparr>)\<rparr>)" for Q
    using False ip r3 dt by (simp add: ilock_def wp_rules flag_simps r1 s1(4) dd ic3 ty)
  then show ?thesis
    using t3 [unfolded H] s1 s3 False ic ic3 by (auto simp: flag_simps)
qed

section \<open>Properties\<close>


definition demo_inodes :: fs_state where
  "demo_inodes = log_state.extend demo_fs \<lparr>icache = (\<lambda>p. \<lparr>i_dev = 1, i_inum = 3, i_ref = (if p = 0 then 1 else 0), i_flags = I_VALID,
     i_type = 2, i_major = 0, i_minor = 0, i_nlink = 1, i_size = 0, i_addrs = (\<lambda>_. 0)\<rparr>)\<rparr>"

lemma demo_inodes_inv: "icache_inv demo_inodes"
  by (auto simp: icache_inv_def demo_inodes_def log_state.defs)


end
