(* ===== verification/Fs_Dir.thy ===== *)
theory Fs_Dir
  imports Fs_Inode_Props
begin

text \<open>
  Directories and path names, \<^verbatim>\<open>fs.c\<close>. A path is the list of the bytes before its terminating NUL, so \<^verbatim>\<open>*path == 0\<close> is
  the empty list. The scanning loops of \<^verbatim>\<open>dirlookup\<close> and \<^verbatim>\<open>dirlink\<close> run over the offsets below the directory's size: nothing in
  their bodies changes the size. A null result is \<open>None\<close>.
\<close>

type_synonym cstr = "uchar list"

abbreviation (input) SLASH :: uchar where "SLASH \<equiv> 47"

text \<open>What a C routine reads through a pointer to the string.\<close>

definition cbytes :: "cstr \<Rightarrow> bytes" where
  "cbytes p = (\<lambda>i. if i < length p then p ! i else 0)"

definition namecmp :: "bytes \<Rightarrow> bytes \<Rightarrow> int" where
  "namecmp s t = strncmp s t DIRSIZ"

definition dir_offs :: "uint \<Rightarrow> uint list" where
  "dir_offs sz = map (\<lambda>k. of_nat (16 * k)) [0..<(unat sz + 15) div 16]"

definition myproc :: "('a ptable_state_scheme, nat) kprog" where
  "myproc s = (case cur s of None \<Rightarrow> Panic ''trap'' | Some p \<Rightarrow> Ok p s)"

fun dirlookup_from :: "('a fs_state_scheme) devsw \<Rightarrow> nat \<Rightarrow> bytes \<Rightarrow> uint list \<Rightarrow> ('a fs_state_scheme, (nat \<times> uint) option) kprog" where
  "dirlookup_from dv dp name [] = kret None"
| "dirlookup_from dv dp name (off # offs) =
     kbind (readi dv dp (\<lambda>_. 0) off 16) (\<lambda>(r, d).
     let de = get_dirent d in
     if r \<noteq> 16 then kpanic ''dirlink read''
     else if de_inum de = 0 then dirlookup_from dv dp name offs
     else if namecmp name (de_name de) = 0 then
       kbind (get_inode dp) (\<lambda>ip.
       kbind (iget (i_dev ip) (ucast (de_inum de))) (\<lambda>ip. kret (Some (ip, off))))
     else dirlookup_from dv dp name offs)"

text \<open>The second component of the result is what the C code stores through \<^verbatim>\<open>poff\<close>.\<close>

definition dirlookup :: "('a fs_state_scheme) devsw \<Rightarrow> nat \<Rightarrow> bytes \<Rightarrow> ('a fs_state_scheme, (nat \<times> uint) option) kprog" where
  "dirlookup dv dp name =
     kbind (get_inode dp) (\<lambda>ip.
     if i_type ip \<noteq> T_DIR then kpanic ''dirlookup not DIR''
     else dirlookup_from dv dp name (dir_offs (i_size ip)))"

text \<open>The search for an empty entry: its offset, or the offset after the last entry.\<close>

fun dirlink_from :: "('a fs_state_scheme) devsw \<Rightarrow> nat \<Rightarrow> uint \<Rightarrow> uint list \<Rightarrow> ('a fs_state_scheme, uint) kprog" where
  "dirlink_from dv dp off [] = kret off"
| "dirlink_from dv dp off (_ # offs) =
     kbind (readi dv dp (\<lambda>_. 0) off 16) (\<lambda>(r, d).
     if r \<noteq> 16 then kpanic ''dirlink read''
     else if de_inum (get_dirent d) = 0 then kret off
     else dirlink_from dv dp (off + 16) offs)"

definition dirlink :: "('a fs_state_scheme) devsw \<Rightarrow> nat \<Rightarrow> bytes \<Rightarrow> uint \<Rightarrow> ('a fs_state_scheme, int) kprog" where
  "dirlink dv dp name inum =
     kbind (dirlookup dv dp name) (\<lambda>res.
     case res of
       Some (ip, _) \<Rightarrow> kseq (iput ip) (kret (- 1))
     | None \<Rightarrow>
         kbind (get_inode dp) (\<lambda>ip.
         kbind (dirlink_from dv dp 0 (dir_offs (i_size ip))) (\<lambda>off.
         kbind (writei dv dp (put_dirent \<lparr>de_inum = ucast inum, de_name = strncpy (\<lambda>_. 0) name (int DIRSIZ)\<rparr>) off 16) (\<lambda>r.
         if r \<noteq> 16 then kpanic ''dirlink'' else kret 0))))"

section \<open>Paths\<close>

fun skip_slashes :: "cstr \<Rightarrow> cstr" where
  "skip_slashes [] = []"
| "skip_slashes (c # p) = (if c = SLASH then skip_slashes p else c # p)"

text \<open>\<^verbatim>\<open>while(*path != '/' && *path != 0) path++;\<close> with the bytes passed over.\<close>

fun take_elem :: "cstr \<Rightarrow> cstr \<times> cstr" where
  "take_elem [] = ([], [])"
| "take_elem (c # p) = (if c \<noteq> SLASH then (let (e, q) = take_elem p in (c # e, q)) else ([], c # p))"

definition skipelem :: "cstr \<Rightarrow> bytes \<Rightarrow> (cstr \<times> bytes) option" where
  "skipelem path name =
     (let path = skip_slashes path in
      if path = [] then None
      else
        (let (s, path) = take_elem path;
             len = length s;
             name = (if len \<ge> DIRSIZ then blit name 0 (cbytes s) 0 DIRSIZ
                     else (blit name 0 (cbytes s) 0 len)(len := 0))
         in Some (skip_slashes path, name)))"

lemma skip_slashes_le: "length (skip_slashes p) \<le> length p"
  by (induction p rule: skip_slashes.induct) auto

lemma skip_slashes_hd: "skip_slashes p = c # q \<Longrightarrow> c \<noteq> SLASH"
  by (induction p rule: skip_slashes.induct) (auto split: if_splits)

lemma take_elem_eq: "take_elem p = (e, q) \<Longrightarrow> e = takeWhile (\<lambda>c. c \<noteq> SLASH) p \<and> q = dropWhile (\<lambda>c. c \<noteq> SLASH) p"
  by (induction p arbitrary: e q rule: take_elem.induct) (auto split: if_splits prod.splits)

lemma skip_slashes_eq: "skip_slashes p = dropWhile (\<lambda>c. c = SLASH) p"
  by (induction p rule: skip_slashes.induct) auto

lemma skipelem_shorter:
  assumes "skipelem path name = Some (rest, nm)"
  shows "length rest < length path"
proof -
  obtain c p where cp: "skip_slashes path = c # p"
    using assms by (cases "skip_slashes path") (auto simp: skipelem_def Let_def)
  obtain e q where eq: "take_elem p = (e, q)" by force
  have "rest = skip_slashes q"
    using assms cp skip_slashes_hd [OF cp] eq by (auto simp: skipelem_def Let_def split: if_splits)
  moreover have "length q \<le> length p" using take_elem_eq [OF eq] by (simp add: length_dropWhile_le)
  ultimately show ?thesis
    using skip_slashes_le [of q] skip_slashes_le [of path] cp by simp
qed

function namex_from :: "('a fs_state_scheme) devsw \<Rightarrow> nat \<Rightarrow> cstr \<Rightarrow> bool \<Rightarrow> bytes \<Rightarrow> ('a fs_state_scheme, nat option \<times> bytes) kprog" where
  "namex_from dv ip path parent name =
     (case skipelem path name of
        None \<Rightarrow> if parent then kseq (iput ip) (kret (None, name)) else kret (Some ip, name)
      | Some (path, name) \<Rightarrow>
          kseq (ilock ip)
          (kbind (get_inode ip) (\<lambda>i.
           if i_type i \<noteq> T_DIR then kseq (iunlockput ip) (kret (None, name))
           else if parent \<and> path = [] then kseq (iunlock ip) (kret (Some ip, name))
           else
             kbind (dirlookup dv ip name) (\<lambda>next.
             case next of
               None \<Rightarrow> kseq (iunlockput ip) (kret (None, name))
             | Some (next, _) \<Rightarrow> kseq (iunlockput ip) (namex_from dv next path parent name)))))"
  by pat_completeness auto
termination
  by (relation "measure (\<lambda>(dv, ip, path, parent, name). length path)") (auto intro: skipelem_shorter)

declare namex_from.simps [simp del]

definition namex :: "('a fs_state_scheme) devsw \<Rightarrow> cstr \<Rightarrow> bool \<Rightarrow> bytes \<Rightarrow> ('a fs_state_scheme, nat option \<times> bytes) kprog" where
  "namex dv path parent name =
     kbind (if path \<noteq> [] \<and> hd path = SLASH then iget ROOTDEV ROOTINO
            else kbind myproc (\<lambda>p.
                 kbind (kget (\<lambda>s. p_cwd (ptab s p))) (\<lambda>cwd.
                 case cwd of None \<Rightarrow> kpanic ''trap'' | Some ip \<Rightarrow> idup ip)))
       (\<lambda>ip. namex_from dv ip path parent name)"

definition namei :: "('a fs_state_scheme) devsw \<Rightarrow> cstr \<Rightarrow> ('a fs_state_scheme, nat option) kprog" where
  "namei dv path = kbind (namex dv path False (\<lambda>_. 0)) (\<lambda>(ip, _). kret ip)"

definition nameiparent :: "('a fs_state_scheme) devsw \<Rightarrow> cstr \<Rightarrow> bytes \<Rightarrow> ('a fs_state_scheme, nat option \<times> bytes) kprog" where
  "nameiparent dv path name = namex dv path True name"

section \<open>Path elements\<close>

text \<open>
  Reference: a path cut at every slash; its elements are the nonempty pieces. \<open>elem_name\<close> is the buffer \<^verbatim>\<open>name\<close> after an
  element has been copied into it, and \<open>walk\<close> resolves a list of elements one directory at a time.
\<close>

fun split_on :: "cstr \<Rightarrow> cstr list" where
  "split_on [] = [[]]"
| "split_on (c # p) = (if c = SLASH then [] # split_on p else (c # hd (split_on p)) # tl (split_on p))"

definition path_elems :: "cstr \<Rightarrow> cstr list" where
  "path_elems p = filter (\<lambda>e. e \<noteq> []) (split_on p)"

definition elem_name :: "bytes \<Rightarrow> cstr \<Rightarrow> bytes" where
  "elem_name name e = (\<lambda>i. if i < DIRSIZ \<and> i < length e then e ! i else if i < DIRSIZ \<and> i = length e then 0 else name i)"

fun walk :: "('a fs_state_scheme) devsw \<Rightarrow> nat \<Rightarrow> cstr list \<Rightarrow> bool \<Rightarrow> bytes \<Rightarrow> ('a fs_state_scheme, nat option \<times> bytes) kprog" where
  "walk dv ip [] parent name = (if parent then kseq (iput ip) (kret (None, name)) else kret (Some ip, name))"
| "walk dv ip (e # es) parent name =
     kseq (ilock ip)
     (kbind (get_inode ip) (\<lambda>i.
      if i_type i \<noteq> T_DIR then kseq (iunlockput ip) (kret (None, elem_name name e))
      else if parent \<and> es = [] then kseq (iunlock ip) (kret (Some ip, elem_name name e))
      else
        kbind (dirlookup dv ip (elem_name name e)) (\<lambda>next.
        case next of
          None \<Rightarrow> kseq (iunlockput ip) (kret (None, elem_name name e))
        | Some (next, _) \<Rightarrow> kseq (iunlockput ip) (walk dv next es parent (elem_name name e)))))"

lemma split_on_nonempty [simp]: "split_on p \<noteq> []"
  by (cases p) auto

lemma split_on_takeWhile:
  "split_on p = takeWhile (\<lambda>c. c \<noteq> SLASH) p #
     (case dropWhile (\<lambda>c. c \<noteq> SLASH) p of [] \<Rightarrow> [] | _ # q \<Rightarrow> split_on q)"
  by (induction p) auto

lemma path_elems_slash [simp]: "path_elems (SLASH # p) = path_elems p" "path_elems [] = []"
  by (simp_all add: path_elems_def)

lemma path_elems_skip [simp]: "path_elems (skip_slashes p) = path_elems p"
  by (induction p rule: skip_slashes.induct) auto

lemma path_elems_Cons:
  assumes "c \<noteq> SLASH"
  shows "path_elems (c # p) = takeWhile (\<lambda>c. c \<noteq> SLASH) (c # p) # path_elems (dropWhile (\<lambda>c. c \<noteq> SLASH) (c # p))"
proof -
  let ?q = "dropWhile (\<lambda>c. c \<noteq> SLASH) (c # p)"
  have "path_elems (c # p) = takeWhile (\<lambda>c. c \<noteq> SLASH) (c # p) # (case ?q of [] \<Rightarrow> [] | _ # q \<Rightarrow> path_elems q)"
    unfolding path_elems_def by (subst split_on_takeWhile) (use assms in \<open>simp split: list.split del: dropWhile_eq_Nil_conv\<close>)
  moreover have "(case ?q of [] \<Rightarrow> [] | _ # q \<Rightarrow> path_elems q) = path_elems ?q"
  proof (cases ?q)
    case (Cons d q)
    then have "d = SLASH" by (metis (mono_tags, lifting) hd_dropWhile list.sel(1) list.simps(3))
    then show ?thesis using Cons by simp
  qed simp
  ultimately show ?thesis by simp
qed

lemma path_elems_no_slash: "p \<noteq> [] \<Longrightarrow> hd p \<noteq> SLASH \<Longrightarrow> path_elems p \<noteq> []"
  by (cases p) (auto simp: path_elems_Cons)

lemma skipelem_elems:
  "skipelem path name = (case path_elems path of [] \<Rightarrow> None
     | e # es \<Rightarrow> Some (skip_slashes (dropWhile (\<lambda>c. c \<noteq> SLASH) (skip_slashes path)), elem_name name e))"
proof (cases "skip_slashes path")
  case Nil
  then have "path_elems path = []" using path_elems_skip [of path] by simp
  then show ?thesis using Nil by (simp add: skipelem_def)
next
  case (Cons c p)
  let ?e = "takeWhile (\<lambda>c. c \<noteq> SLASH) (c # p)" and ?q = "dropWhile (\<lambda>c. c \<noteq> SLASH) (c # p)"
  have te: "take_elem (c # p) = (?e, ?q)" using take_elem_eq [of "c # p"] by (metis surj_pair)
  have el: "path_elems path = ?e # path_elems ?q"
    using path_elems_skip [of path] path_elems_Cons [OF skip_slashes_hd [OF Cons]] Cons by simp
  have "(if DIRSIZ \<le> length e then blit name 0 (cbytes e) 0 DIRSIZ else (blit name 0 (cbytes e) 0 (length e))(length e := 0))
      = elem_name name e" for e
    by (auto simp: elem_name_def blit_def cbytes_def fun_eq_iff)
  then show ?thesis using Cons te el by (simp add: skipelem_def Let_def)
qed

lemma skipelem_rest:
  assumes "path_elems path = e # es"
  defines "r \<equiv> skip_slashes (dropWhile (\<lambda>c. c \<noteq> SLASH) (skip_slashes path))"
  shows "path_elems r = es" "r = [] \<longleftrightarrow> es = []"
proof -
  obtain c p where cp: "skip_slashes path = c # p"
    using assms(1) path_elems_skip [of path] by (cases "skip_slashes path") auto
  show 1: "path_elems r = es"
    using assms(1) path_elems_skip [of path] path_elems_Cons [OF skip_slashes_hd [OF cp]] cp
    by (simp add: r_def del: dropWhile.simps takeWhile.simps)
  have "path_elems r \<noteq> []" if "r \<noteq> []"
  proof (rule path_elems_no_slash [OF that])
    show "hd r \<noteq> SLASH" using that skip_slashes_hd unfolding r_def by (metis list.collapse)
  qed
  then show "r = [] \<longleftrightarrow> es = []" using 1 by auto
qed

section \<open>Properties\<close>

text \<open>
  C26: resolving a path with \<^verbatim>\<open>namex\<close> visits exactly the elements of the path (the nonempty pieces between slashes, cut to
  DIRSIZ bytes) in order, one directory lookup each, stopping one element early for \<^verbatim>\<open>nameiparent\<close>; so it ends for every path.
\<close>

theorem namex_walks_elements:
  "namex_from dv ip path parent name = walk dv ip (path_elems path) parent name"
proof (induction "path_elems path" arbitrary: ip path name)
  case Nil
  then show ?case by (subst namex_from.simps) (simp add: skipelem_elems)
next
  case (Cons e es)
  note es = Cons.hyps(2) [symmetric]
  note rest = skipelem_rest [OF es]
  show ?case
    unfolding es using rest Cons.hyps(1) [of "skip_slashes (dropWhile (\<lambda>c. c \<noteq> SLASH) (skip_slashes path))"]
    by (subst namex_from.simps) (simp add: skipelem_elems es cong: if_cong)
qed

end
