(* ===== verification/Ring.thy ===== *)
theory Ring
  imports Prelude
begin

text \<open>
  Bounded first-in first-out buffers kept in an array with a read and a write counter, the way \<^verbatim>\<open>pipe.c\<close> and
  \<^verbatim>\<open>console.c\<close> do it: the counters are 32-bit words that only grow and wrap, the array is indexed by a counter modulo
  its length. The locale is the contract; the lemmas on counters prove it for the concrete buffers.
\<close>

locale fifo =
  fixes inv :: "'q \<Rightarrow> bool" and cap :: nat and items :: "'q \<Rightarrow> 'b list"
    and put :: "'b \<Rightarrow> 'q \<Rightarrow> 'q" and front :: "'q \<Rightarrow> 'b" and drop_front :: "'q \<Rightarrow> 'q"
  assumes items_le: "inv q \<Longrightarrow> length (items q) \<le> cap"
    and put_inv: "inv q \<Longrightarrow> length (items q) < cap \<Longrightarrow> inv (put x q)"
    and put_items: "inv q \<Longrightarrow> length (items q) < cap \<Longrightarrow> items (put x q) = items q @ [x]"
    and drop_inv: "inv q \<Longrightarrow> items q \<noteq> [] \<Longrightarrow> inv (drop_front q)"
    and front_items: "inv q \<Longrightarrow> items q \<noteq> [] \<Longrightarrow> items q = front q # items (drop_front q)"
begin

text \<open>What goes in comes out in the same order.\<close>

primrec puts :: "'b list \<Rightarrow> 'q \<Rightarrow> 'q" where
  "puts [] q = q"
| "puts (x # xs) q = puts xs (put x q)"

primrec gets :: "nat \<Rightarrow> 'q \<Rightarrow> 'b list \<times> 'q" where
  "gets 0 q = ([], q)"
| "gets (Suc n) q = (if items q = [] then ([], q) else (let (xs, r) = gets n (drop_front q) in (front q # xs, r)))"

lemma puts_items:
  "inv q \<Longrightarrow> length (items q) + length xs \<le> cap \<Longrightarrow> inv (puts xs q) \<and> items (puts xs q) = items q @ xs"
  by (induction xs arbitrary: q) (auto simp: put_inv put_items)

lemma gets_items:
  "inv q \<Longrightarrow> gets n q = (xs, r) \<Longrightarrow> inv r \<and> xs = take n (items q) \<and> items r = drop n (items q)"
proof (induction n arbitrary: q xs)
  case (Suc n)
  show ?case
  proof (cases "items q = []")
    case False
    obtain ys where ys: "gets n (drop_front q) = (ys, r)" "xs = front q # ys"
      using Suc.prems(2) False by (auto split: prod.splits)
    have "inv r \<and> ys = take n (items (drop_front q)) \<and> items r = drop n (items (drop_front q))"
      by (rule Suc.IH [OF drop_inv [OF Suc.prems(1) False] ys(1)])
    then show ?thesis using ys(2) front_items [OF Suc.prems(1) False] by (metis drop_Suc_Cons take_Suc_Cons)
  qed (use Suc.prems in auto)
qed auto

end

section \<open>Counters modulo a power of two\<close>

lemma unat_add_mod:
  assumes "n dvd 2 ^ 32"
  shows "unat ((r :: uint) + of_nat k) mod n = (unat r + k) mod n"
proof -
  have "unat (r + of_nat k) = (unat r + k) mod 2 ^ 32"
    by (simp add: unat_word_ariths unat_of_nat mod_add_right_eq)
  then show ?thesis using assms by (simp add: mod_mod_cancel)
qed

lemma unat_succ_mod: "n dvd 2 ^ 32 \<Longrightarrow> unat ((r :: uint) + 1) mod n = (unat r + 1) mod n"
  using unat_add_mod [of n r 1] by simp

definition ring_items :: "nat \<Rightarrow> (nat \<Rightarrow> 'b) \<Rightarrow> uint \<Rightarrow> uint \<Rightarrow> 'b list" where
  "ring_items n d r w = map (\<lambda>k. d ((unat r + k) mod n)) [0..<unat (w - r)]"

lemma length_ring_items [simp]: "length (ring_items n d r w) = unat (w - r)"
  by (simp add: ring_items_def)

lemma ring_items_empty: "ring_items n d r w = [] \<longleftrightarrow> r = w"
  by (auto simp: ring_items_def unat_eq_0)

lemma ring_full: "n < 2 ^ 32 \<Longrightarrow> unat (w - r) = n \<longleftrightarrow> (w :: uint) = r + of_nat n"
proof
  assume "n < 2 ^ 32" "unat (w - r) = n"
  then have "w - r = of_nat n" by auto
  then show "w = r + of_nat n" by (metis diff_add_cancel add.commute)
next
  assume "n < 2 ^ 32" "w = r + of_nat n"
  then show "unat (w - r) = n" by (simp add: unat_of_nat)
qed

lemma ring_put:
  assumes n: "n dvd 2 ^ 32" "n < 2 ^ 32" and lt: "unat (w - r) < n"
  shows "unat (w + 1 - r) = unat (w - r) + 1"
    "ring_items n (d(unat w mod n := x)) r (w + 1) = ring_items n d r w @ [x]"
proof -
  let ?l = "unat (w - r)"
  have "w + 1 - r = (w - r) + 1" by simp
  then have "unat (w + 1 - r) = (?l + 1) mod 2 ^ 32" by (simp only: unat_word_ariths) simp
  then show len: "unat (w + 1 - r) = ?l + 1" using lt n(2) by simp
  have w: "unat w mod n = (unat r + ?l) mod n" using unat_add_mod [OF n(1), of r ?l] by simp
  have other: "(unat r + k) mod n \<noteq> unat w mod n" if "k < ?l" for k
  proof
    assume "(unat r + k) mod n = unat w mod n"
    then have "(unat r + k) mod n = (unat r + ?l) mod n" using w by simp
    then have "n dvd ?l - k" using that mod_eq_dvd_iff_nat [of "unat r + k" "unat r + ?l" n] by simp
    then show False using that lt dvd_imp_le [of n "?l - k"] by simp
  qed
  show "ring_items n (d(unat w mod n := x)) r (w + 1) = ring_items n d r w @ [x]"
    unfolding ring_items_def len using w other by simp
qed

lemma ring_get:
  assumes n: "n dvd 2 ^ 32" and ne: "r \<noteq> w"
  shows "ring_items n d r w = d (unat r mod n) # ring_items n d (r + 1) w"
    "unat (w - (r + 1)) < unat (w - r)"
proof -
  have pos: "0 < unat (w - r)" using ne by (simp add: unat_gt_0)
  have "w - (r + 1) = (w - r) - 1" by simp
  then have len: "unat (w - (r + 1)) = unat (w - r) - 1"
    using ne by (metis eq_iff_diff_eq_0 unat_minus_one)
  then show "unat (w - (r + 1)) < unat (w - r)" using pos by simp
  have "[0..<unat (w - r)] = 0 # map Suc [0..<unat (w - (r + 1))]"
    using pos len by (metis Suc_diff_1 map_Suc_upt upt_conv_Cons)
  then have "ring_items n d r w = d (unat r mod n) # map (\<lambda>k. d ((unat r + Suc k) mod n)) [0..<unat (w - (r + 1))]"
    by (simp add: ring_items_def comp_def)
  moreover have "(unat r + Suc k) mod n = (unat (r + 1) + k) mod n" for k
    using unat_succ_mod [OF n, of r] by (metis Suc_eq_plus1 add.assoc add.commute mod_add_cong)
  ultimately show "ring_items n d r w = d (unat r mod n) # ring_items n d (r + 1) w"
    by (simp add: ring_items_def)
qed

lemma ring_back:
  assumes n: "n dvd 2 ^ 32" and ne: "r \<noteq> w"
  shows "ring_items n d r w = ring_items n d r (w - 1) @ [d (unat (w - 1) mod n)]"
    "unat (w - 1 - r) = unat (w - r) - 1"
proof -
  have pos: "0 < unat (w - r)" using ne by (simp add: unat_gt_0)
  have "w - 1 - r = (w - r) - 1" by simp
  then show len: "unat (w - 1 - r) = unat (w - r) - 1" using ne by (metis eq_iff_diff_eq_0 unat_minus_one)
  have up: "[0..<unat (w - r)] = [0..<unat (w - 1 - r)] @ [unat (w - 1 - r)]"
    using pos len by (metis Suc_diff_1 le0 upt_Suc_append)
  have "(unat r + unat (w - 1 - r)) mod n = unat (w - 1) mod n"
    using unat_add_mod [OF n, of r "unat (w - 1 - r)"] by simp
  then show "ring_items n d r w = ring_items n d r (w - 1) @ [d (unat (w - 1) mod n)]"
    unfolding ring_items_def up by simp
qed

end
