(* ===== verification/Pipe.thy ===== *)
theory Pipe
  imports Fs_Dir Ring
begin

text \<open>
  Pipes, \<^verbatim>\<open>pipe.c\<close>. A \<^verbatim>\<open>struct pipe\<close> fills a page of the page allocator; it is kept by the address of that page. The counters
  \<^verbatim>\<open>nread\<close> and \<^verbatim>\<open>nwrite\<close> are 32-bit words that wrap. \<^verbatim>\<open>piperead\<close> and \<^verbatim>\<open>pipewrite\<close> run until they return or sleep; a writer
  that has slept goes on with \<open>pipewrite_from\<close> at the byte it had reached. \<^verbatim>\<open>pipealloc\<close>, which opens files, is in theory File.
\<close>

abbreviation (input) PIPESIZE :: nat where "PIPESIZE \<equiv> 512"

record pipe =
  pi_data :: bytes
  pi_nread :: uint
  pi_nwrite :: uint
  pi_readopen :: bool
  pi_writeopen :: bool

record pipe_state = fs_state +
  pipes :: "uint \<Rightarrow> pipe"

definition upd_pipe :: "uint \<Rightarrow> (pipe \<Rightarrow> pipe) \<Rightarrow> ('a pipe_state_scheme, unit) kprog" where
  "upd_pipe p f = kmod (\<lambda>s. s\<lparr>pipes := (pipes s)(p := f (pipes s p))\<rparr>)"

definition get_pipe :: "uint \<Rightarrow> ('a pipe_state_scheme, pipe) kprog" where
  "get_pipe p = kget (\<lambda>s. pipes s p)"

definition killed :: "('a ptable_state_scheme, bool) kprog" where
  "killed = kbind myproc (\<lambda>p. kget (\<lambda>s. p_killed (ptab s p)))"

definition pipeclose :: "uint \<Rightarrow> bool \<Rightarrow> ('a pipe_state_scheme, unit) kprog" where
  "pipeclose p writable =
     kseq (if writable
       then kseq (upd_pipe p (\<lambda>q. q\<lparr>pi_writeopen := False\<rparr>)) (wakeup (ChanPipeRead p))
       else kseq (upd_pipe p (\<lambda>q. q\<lparr>pi_readopen := False\<rparr>)) (wakeup (ChanPipeWrite p)))
     (kbind (get_pipe p) (\<lambda>q.
      if \<not> pi_readopen q \<and> \<not> pi_writeopen q then kfree p else kret ()))"

definition pipe_put :: "uchar \<Rightarrow> pipe \<Rightarrow> pipe" where
  "pipe_put c q = q\<lparr>pi_data := (pi_data q)(unat (pi_nwrite q) mod PIPESIZE := c), pi_nwrite := pi_nwrite q + 1\<rparr>"

definition pipe_front :: "pipe \<Rightarrow> uchar" where
  "pipe_front q = pi_data q (unat (pi_nread q) mod PIPESIZE)"

definition pipe_drop :: "pipe \<Rightarrow> pipe" where
  "pipe_drop q = q\<lparr>pi_nread := pi_nread q + 1\<rparr>"

text \<open>\<open>i\<close> bytes are written, \<open>k\<close> remain.\<close>

fun pipewrite_from :: "uint \<Rightarrow> bytes \<Rightarrow> nat \<Rightarrow> nat \<Rightarrow> int \<Rightarrow> ('a pipe_state_scheme, int) kprog" where
  "pipewrite_from p addr i 0 n = kseq (wakeup (ChanPipeRead p)) (kret n)"
| "pipewrite_from p addr i (Suc k) n =
     kbind (get_pipe p) (\<lambda>q.
     if pi_nwrite q = pi_nread q + of_nat PIPESIZE then
       kbind (if \<not> pi_readopen q then kret True else killed) (\<lambda>b.
       if b then kret (- 1)
       else kseq (wakeup (ChanPipeRead p)) (sleep (ChanPipeWrite p)))
     else kseq (upd_pipe p (pipe_put (addr i))) (pipewrite_from p addr (Suc i) k n))"

definition pipewrite :: "uint \<Rightarrow> bytes \<Rightarrow> int \<Rightarrow> ('a pipe_state_scheme, int) kprog" where
  "pipewrite p addr n = pipewrite_from p addr 0 (nat n) n"

fun piperead_from :: "uint \<Rightarrow> bytes \<Rightarrow> nat \<Rightarrow> nat \<Rightarrow> ('a pipe_state_scheme, nat \<times> bytes) kprog" where
  "piperead_from p addr i 0 = kret (i, addr)"
| "piperead_from p addr i (Suc k) =
     kbind (get_pipe p) (\<lambda>q.
     if pi_nread q = pi_nwrite q then kret (i, addr)
     else kseq (upd_pipe p pipe_drop) (piperead_from p (addr(i := pipe_front q)) (Suc i) k))"

definition piperead :: "uint \<Rightarrow> bytes \<Rightarrow> int \<Rightarrow> ('a pipe_state_scheme, int \<times> bytes) kprog" where
  "piperead p addr n =
     kbind (get_pipe p) (\<lambda>q.
     if pi_nread q = pi_nwrite q \<and> pi_writeopen q then
       kbind killed (\<lambda>b. if b then kret (- 1, addr) else sleep (ChanPipeRead p))
     else
       kbind (piperead_from p addr 0 (nat n)) (\<lambda>(i, addr).
       kseq (wakeup (ChanPipeWrite p)) (kret (int i, addr))))"

section \<open>The ring buffer is a queue\<close>

definition pipe_inv :: "pipe \<Rightarrow> bool" where
  "pipe_inv q \<longleftrightarrow> unat (pi_nwrite q - pi_nread q) \<le> PIPESIZE"

definition pipe_items :: "pipe \<Rightarrow> uchar list" where
  "pipe_items q = ring_items PIPESIZE (pi_data q) (pi_nread q) (pi_nwrite q)"

lemma pipesize_dvd: "PIPESIZE dvd 2 ^ 32" "PIPESIZE < 2 ^ 32"
  by simp_all

lemma pipe_items_empty: "pipe_items q = [] \<longleftrightarrow> pi_nread q = pi_nwrite q"
  by (simp add: pipe_items_def ring_items_empty)

lemma pipe_full: "length (pipe_items q) = PIPESIZE \<longleftrightarrow> pi_nwrite q = pi_nread q + of_nat PIPESIZE"
  unfolding pipe_items_def length_ring_items by (rule ring_full) simp

interpretation pq: fifo pipe_inv PIPESIZE pipe_items pipe_put pipe_front pipe_drop
proof
  fix q x
  assume inv: "pipe_inv q"
  show "length (pipe_items q) \<le> PIPESIZE" using inv by (simp add: pipe_inv_def pipe_items_def)
  show "pipe_inv (pipe_put x q)" if "length (pipe_items q) < PIPESIZE"
    using ring_put(1) [OF pipesize_dvd, of "pi_nwrite q" "pi_nread q"] that
    by (simp add: pipe_inv_def pipe_put_def pipe_items_def)
  show "pipe_items (pipe_put x q) = pipe_items q @ [x]" if "length (pipe_items q) < PIPESIZE"
    using ring_put(2) [OF pipesize_dvd, of "pi_nwrite q" "pi_nread q" "pi_data q" x] that
    by (simp add: pipe_put_def pipe_items_def)
  show "pipe_inv (pipe_drop q)" if "pipe_items q \<noteq> []"
    using ring_get(2) [OF pipesize_dvd(1), of "pi_nread q" "pi_nwrite q"] that inv
    by (simp add: pipe_inv_def pipe_drop_def pipe_items_empty)
  show "pipe_items q = pipe_front q # pipe_items (pipe_drop q)" if "pipe_items q \<noteq> []"
    using ring_get(1) [OF pipesize_dvd(1), of "pi_nread q" "pi_nwrite q" "pi_data q"] that
    by (simp add: pipe_items_empty) (simp add: pipe_items_def pipe_front_def pipe_drop_def)
qed

section \<open>Writing and reading\<close>

lemma pipes_frame [simp]: "pipes (wakeup1 c s) = pipes s" "pipes (upd_proc q f s) = pipes s"
  by (simp_all add: wakeup1_def upd_proc_def)

lemma killed_Ok: "killed s = (case cur s of None \<Rightarrow> Panic ''trap'' | Some p \<Rightarrow> Ok (p_killed (ptab s p)) s)"
  by (simp add: killed_def myproc_def kbind_def kget_def split: option.split)

lemma sleep_eq: "sleep c s = (case cur s of None \<Rightarrow> Panic ''sleep''
    | Some p \<Rightarrow> Sleeps c (upd_proc p (\<lambda>q. q\<lparr>p_chan := Some c, p_state := SLEEPING\<rparr>) s))"
  by (simp add: sleep_def)

lemmas run_simps = kbind_def kseq_def kget_def kret_def kmod_def get_pipe_def upd_pipe_def killed_Ok sleep_eq

text \<open>Effect of a run of the writer on the pipe: it adds \<open>j\<close> bytes, and stops short only at a full pipe.\<close>

definition wrote :: "uint \<Rightarrow> bytes \<Rightarrow> nat \<Rightarrow> nat \<Rightarrow> 'a pipe_state_scheme \<Rightarrow> 'a pipe_state_scheme \<Rightarrow> bool" where
  "wrote p addr i j s t \<longleftrightarrow> pipe_inv (pipes t p) \<and> pi_nwrite (pipes t p) = pi_nwrite (pipes s p) + of_nat j \<and>
     pipe_items (pipes t p) = pipe_items (pipes s p) @ map addr [i..<i + j]"

lemma upt_shift: "[i..<i + Suc j] = i # [Suc i..<Suc i + j]"
  by (simp add: upt_conv_Cons del: upt_Suc)

lemma wrote_0: "pipe_inv (pipes t p) \<Longrightarrow> pipes t p = pipes s p \<Longrightarrow> wrote p addr i 0 s t"
  by (simp add: wrote_def)

lemma wrote_Suc:
  assumes inv: "pipe_inv (pipes s p)" and nf: "length (pipe_items (pipes s p)) < PIPESIZE"
    and w: "wrote p addr (Suc i) j (s\<lparr>pipes := (pipes s)(p := pipe_put (addr i) (pipes s p))\<rparr>) t"
  shows "wrote p addr i (Suc j) s t"
proof -
  have "pi_nwrite (pipe_put (addr i) (pipes s p)) = pi_nwrite (pipes s p) + 1" by (simp add: pipe_put_def)
  then show ?thesis using w pq.put_items [OF inv nf, of "addr i"]
    unfolding wrote_def upt_shift by (simp del: upt_Suc)
qed

lemma pipewrite_from_result:
  "pipe_inv (pipes s p) \<Longrightarrow>
   (case pipewrite_from p addr i k n s of
      Ok r t \<Rightarrow> (\<exists>j \<le> k. wrote p addr i j s t \<and> (r = n \<and> j = k \<or> r = - 1 \<and> length (pipe_items (pipes t p)) = PIPESIZE))
    | Sleeps c t \<Rightarrow> c = ChanPipeWrite p \<and> length (pipe_items (pipes t p)) = PIPESIZE \<and> pi_readopen (pipes t p) \<and>
        (\<exists>j < k. wrote p addr i j s t)
    | Panic e \<Rightarrow> cur s = None)"
proof (induction k arbitrary: i s)
  case 0
  then show ?case by (simp add: run_simps wrote_0)
next
  case (Suc k)
  show ?case
  proof (cases "pi_nwrite (pipes s p) = pi_nread (pipes s p) + of_nat PIPESIZE")
    case True
    then have full: "length (pipe_items (pipes s p)) = PIPESIZE" using pipe_full by blast
    have "pipewrite_from p addr i (Suc k) n s = (if \<not> pi_readopen (pipes s p) then Ok (- 1) s else
        case cur s of None \<Rightarrow> Panic ''trap'' | Some q \<Rightarrow> if p_killed (ptab s q) then Ok (- 1) s
          else Sleeps (ChanPipeWrite p) (upd_proc q (\<lambda>q. q\<lparr>p_chan := Some (ChanPipeWrite p), p_state := SLEEPING\<rparr>)
             (wakeup1 (ChanPipeRead p) s)))"
      using True by (auto simp: run_simps split: option.split)
    then show ?thesis using Suc.prems full by (auto simp: wrote_0 split: option.split)
  next
    case False
    let ?s = "s\<lparr>pipes := (pipes s)(p := pipe_put (addr i) (pipes s p))\<rparr>"
    have lt: "length (pipe_items (pipes s p)) < PIPESIZE"
      using False pipe_full [of "pipes s p"] pq.items_le [OF Suc.prems] by linarith
    have run: "pipewrite_from p addr i (Suc k) n s = pipewrite_from p addr (Suc i) k n ?s"
      using False by (simp add: run_simps)
    have "pipe_inv (pipes ?s p)" using pq.put_inv [OF Suc.prems lt] by simp
    from Suc.IH [OF this, of "Suc i"] show ?thesis
      unfolding run using wrote_Suc [OF Suc.prems lt, of addr i] by (fastforce split: outcome.splits)
  qed
qed

lemma piperead_from_result:
  "pipe_inv (pipes s p) \<Longrightarrow> \<exists>j dst' t. piperead_from p dst i k s = Ok (i + j, dst') t \<and> j = min k (length (pipe_items (pipes s p))) \<and>
     map dst' [i..<i + j] = take k (pipe_items (pipes s p)) \<and> (\<forall>x. x < i \<longrightarrow> dst' x = dst x) \<and>
     pipe_inv (pipes t p) \<and> pipe_items (pipes t p) = drop k (pipe_items (pipes s p)) \<and> ptab t = ptab s \<and> cur t = cur s"
proof (induction k arbitrary: i s dst)
  case 0
  then show ?case by (simp add: run_simps)
next
  case (Suc k)
  show ?case
  proof (cases "pi_nread (pipes s p) = pi_nwrite (pipes s p)")
    case True
    then have "pipe_items (pipes s p) = []" using pipe_items_empty by blast
    then show ?thesis using True Suc.prems by (simp add: run_simps)
  next
    case False
    let ?s = "s\<lparr>pipes := (pipes s)(p := pipe_drop (pipes s p))\<rparr>"
    let ?c = "pipe_front (pipes s p)"
    have ne: "pipe_items (pipes s p) \<noteq> []" using False pipe_items_empty by blast
    have run: "piperead_from p dst i (Suc k) s = piperead_from p (dst(i := ?c)) (Suc i) k ?s"
      using False by (simp add: run_simps)
    have "pipe_inv (pipes ?s p)" using pq.drop_inv [OF Suc.prems ne] by simp
    from Suc.IH [OF this, of "dst(i := ?c)" "Suc i"] obtain j dst' t where
      r: "piperead_from p (dst(i := ?c)) (Suc i) k ?s = Ok (Suc i + j, dst') t" "j = min k (length (pipe_items (pipes ?s p)))"
        "map dst' [Suc i..<Suc i + j] = take k (pipe_items (pipes ?s p))" "\<And>x. x < Suc i \<Longrightarrow> dst' x = (dst(i := ?c)) x"
        "pipe_inv (pipes t p)" "pipe_items (pipes t p) = drop k (pipe_items (pipes ?s p))" "ptab t = ptab s" "cur t = cur s"
      by (auto simp del: upt_Suc fun_upd_apply)
    have it: "pipe_items (pipes s p) = ?c # pipe_items (pipes ?s p)" using pq.front_items [OF Suc.prems ne] by simp
    have "map dst' [i..<i + Suc j] = ?c # map dst' [Suc i..<Suc i + j]" unfolding upt_shift using r(4) [of i] by (simp del: upt_Suc)
    then have "map dst' [i..<i + Suc j] = take (Suc k) (pipe_items (pipes s p))" using r(3) it by simp
    moreover have "Suc j = min (Suc k) (length (pipe_items (pipes s p)))" unfolding it using r(2) by simp
    moreover have "pipe_items (pipes t p) = drop (Suc k) (pipe_items (pipes s p))" unfolding it using r(6) by simp
    moreover have "\<forall>x. x < i \<longrightarrow> dst' x = dst x" using r(4) by simp
    ultimately show ?thesis unfolding run using r(1,5,7,8) by (intro exI [of _ "Suc j"]) auto
  qed
qed

lemma piperead_result:
  assumes inv: "pipe_inv (pipes s p)"
  shows "case piperead p dst n s of
      Ok (r, dst') t \<Rightarrow> pipe_inv (pipes t p) \<and> pipe_items (pipes s p) = map dst' [0..<nat r] @ pipe_items (pipes t p)
    | Sleeps c t \<Rightarrow> c = ChanPipeRead p \<and> pipes t = pipes s \<and> pipe_items (pipes t p) = [] \<and> pi_writeopen (pipes t p)
    | Panic e \<Rightarrow> cur s = None"
proof (cases "pi_nread (pipes s p) = pi_nwrite (pipes s p) \<and> pi_writeopen (pipes s p)")
  case True
  then have "pipe_items (pipes s p) = []" using pipe_items_empty by blast
  then show ?thesis using True inv by (auto simp: piperead_def run_simps split: option.split)
next
  case False
  obtain j dst' t where r: "piperead_from p dst 0 (nat n) s = Ok (j, dst') t" "j = min (nat n) (length (pipe_items (pipes s p)))"
    "map dst' [0..<j] = take (nat n) (pipe_items (pipes s p))" "pipe_inv (pipes t p)"
    "pipe_items (pipes t p) = drop (nat n) (pipe_items (pipes s p))"
    using piperead_from_result [OF inv, of dst 0 "nat n"] by auto
  then have "pipe_items (pipes s p) = map dst' [0..<j] @ pipe_items (pipes t p)" by simp
  moreover have "piperead p dst n s = Ok (int j, dst') (wakeup1 (ChanPipeWrite p) t)"
    using False r(1) by (auto simp: piperead_def run_simps)
  ultimately show ?thesis using r(4) by simp
qed

section \<open>Properties\<close>

text \<open>
  Runs of a pipe: writers and readers are scheduled in any order, may stop at a \<^verbatim>\<open>sleep\<close> and be resumed, and anything that
  leaves the pipe alone may happen between. \<open>w\<close> and \<open>r\<close> collect the bytes taken from the writers' buffers and the bytes
  delivered to the readers.
\<close>

definition sent :: "uint \<Rightarrow> 'a pipe_state_scheme \<Rightarrow> 'a pipe_state_scheme \<Rightarrow> nat" where
  "sent p s t = unat (pi_nwrite (pipes t p) - pi_nwrite (pipes s p))"

inductive pipe_run :: "uint \<Rightarrow> 'a pipe_state_scheme \<Rightarrow> uchar list \<Rightarrow> uchar list \<Rightarrow> 'a pipe_state_scheme \<Rightarrow> bool" for p s where
  start: "pipe_run p s [] [] s"
| write_returns: "pipe_run p s w r t \<Longrightarrow> pipewrite_from p addr i k n t = Ok x u \<Longrightarrow>
     pipe_run p s (w @ map addr [i..<i + sent p t u]) r u"
| write_sleeps: "pipe_run p s w r t \<Longrightarrow> pipewrite_from p addr i k n t = Sleeps c u \<Longrightarrow>
     pipe_run p s (w @ map addr [i..<i + sent p t u]) r u"
| read_returns: "pipe_run p s w r t \<Longrightarrow> piperead p dst n t = Ok (x, dst') u \<Longrightarrow>
     pipe_run p s w (r @ map dst' [0..<nat x]) u"
| read_sleeps: "pipe_run p s w r t \<Longrightarrow> piperead p dst n t = Sleeps c u \<Longrightarrow> pipe_run p s w r u"
| other: "pipe_run p s w r t \<Longrightarrow> pipes u p = pipes t p \<Longrightarrow> pipe_run p s w r u"

lemma wrote_sent:
  assumes "pipe_inv (pipes s p)" "wrote p addr i j s t"
  shows "sent p s t = j"
proof -
  have "length (pipe_items (pipes s p)) + j \<le> PIPESIZE"
    using assms(2) pq.items_le [of "pipes t p"] by (simp add: wrote_def)
  then have "j < 2 ^ 32" by simp
  then show ?thesis using assms(2) by (simp add: wrote_def sent_def unat_of_nat)
qed

text \<open>
  C22: a pipe delivers, in order and without loss or duplication, exactly the bytes written to it: in every interleaving of
  writers and readers, what was in the pipe at the start followed by what was written is what was read followed by what is
  still in the pipe, which never holds more than PIPESIZE bytes, whatever the values of the wrapping counters.
\<close>

theorem pipe_is_fifo:
  assumes run: "pipe_run p s w r t" and inv: "pipe_inv (pipes s p)"
  shows "pipe_items (pipes s p) @ w = r @ pipe_items (pipes t p) \<and> length (pipe_items (pipes t p)) \<le> PIPESIZE"
proof -
  have "pipe_inv (pipes t p) \<and> pipe_items (pipes s p) @ w = r @ pipe_items (pipes t p)"
    using run
  proof induction
    case (write_returns w r t addr i k n x u)
    then obtain j where "wrote p addr i j t u" using pipewrite_from_result [where s = t and p = p and addr = addr and i = i and k = k and n = n] by auto
    then show ?case using write_returns wrote_sent [of t p addr i j u] by (auto simp: wrote_def)
  next
    case (write_sleeps w r t addr i k n c u)
    then obtain j where "wrote p addr i j t u" using pipewrite_from_result [where s = t and p = p and addr = addr and i = i and k = k and n = n] by auto
    then show ?case using write_sleeps wrote_sent [of t p addr i j u] by (auto simp: wrote_def)
  next
    case (read_returns w r t dst n x dst' u)
    then show ?case using piperead_result [where s = t and p = p and dst = dst and n = n] by auto
  next
    case (read_sleeps w r t dst n c u)
    then show ?case using piperead_result [where s = t and p = p and dst = dst and n = n] by auto
  qed (use inv in auto)
  then show ?thesis using pq.items_le by blast
qed

definition demo_pipe :: pipe_state where
  "demo_pipe = fs_state.extend demo_inodes \<lparr>pipes = (\<lambda>_. \<lparr>pi_data = (\<lambda>_. 0), pi_nread = - 1, pi_nwrite = - 1,
     pi_readopen = True, pi_writeopen = True\<rparr>)\<rparr>"

theorem pipe_is_fifo_witness:
  "\<exists>t. pipewrite 0 (\<lambda>i. of_nat i + 7) 2 demo_pipe = Ok 2 t \<and> pipe_run 0 demo_pipe [7, 8] [] t \<and>
     pipe_items (pipes demo_pipe 0) @ [7, 8] = [] @ pipe_items (pipes t 0) \<and> length (pipe_items (pipes t 0)) \<le> PIPESIZE"
proof -
  have p: "pipes demo_pipe 0 = \<lparr>pi_data = (\<lambda>_. 0), pi_nread = - 1, pi_nwrite = - 1, pi_readopen = True, pi_writeopen = True\<rparr>"
    by (simp add: demo_pipe_def fs_state.defs)
  have two: "nat 2 = Suc (Suc 0)" by simp
  obtain t where t: "pipewrite 0 (\<lambda>i. of_nat i + 7) 2 demo_pipe = Ok 2 t" "pi_nwrite (pipes t 0) = 1"
    unfolding pipewrite_def two by (simp add: run_simps p pipe_put_def)
  have s: "sent 0 demo_pipe t = 2" using t(2) p by (simp add: sent_def)
  have run: "pipe_run 0 demo_pipe ([] @ map (\<lambda>i. of_nat i + 7) [0..<0 + sent 0 demo_pipe t]) [] t"
    using pipe_run.start t(1) [unfolded pipewrite_def] by (rule pipe_run.write_returns)
  have "map (\<lambda>i. of_nat i + 7 :: uchar) [0..<2] = [7, 8]" by (simp add: upt_rec)
  then have run: "pipe_run 0 demo_pipe [7, 8] [] t" using run s by simp
  have "pipe_inv (pipes demo_pipe 0)" by (simp add: pipe_inv_def p)
  from pipe_is_fifo [OF run this] show ?thesis using t(1) run by blast
qed

end
