(* ===== verification/File.thy ===== *)
theory File
  imports Pipe
begin

text \<open>
  Open files, \<^verbatim>\<open>file.c\<close>, and \<^verbatim>\<open>pipealloc\<close> of \<^verbatim>\<open>pipe.c\<close>. A \<^verbatim>\<open>struct file*\<close> is an index into the file table; a null pointer is
  \<open>None\<close>. The char fields \<^verbatim>\<open>readable\<close> and \<^verbatim>\<open>writable\<close>, which only hold 0 and 1, are booleans. The lock of the table
  brackets each update and is left out.
\<close>

datatype fd_type = FD_NONE | FD_PIPE | FD_INODE

record file_struct =
  f_type :: fd_type
  f_ref :: int
  f_readable :: bool
  f_writable :: bool
  f_pipe :: uint
  f_ip :: nat
  f_off :: uint

record file_state = pipe_state +
  ftable :: "nat \<Rightarrow> file_struct"

definition get_file :: "nat \<Rightarrow> ('a file_state_scheme, file_struct) kprog" where
  "get_file f = kget (\<lambda>s. ftable s f)"

definition upd_file :: "nat \<Rightarrow> (file_struct \<Rightarrow> file_struct) \<Rightarrow> ('a file_state_scheme, unit) kprog" where
  "upd_file f g = kmod (\<lambda>s. s\<lparr>ftable := (ftable s)(f := g (ftable s f))\<rparr>)"

definition filealloc :: "('a file_state_scheme, nat option) kprog" where
  "filealloc =
     kbind (kget (\<lambda>s. find (\<lambda>f. f_ref (ftable s f) = 0) [0..<NFILE])) (\<lambda>r.
     case r of
       Some f \<Rightarrow> kseq (upd_file f (\<lambda>x. x\<lparr>f_ref := 1\<rparr>)) (kret (Some f))
     | None \<Rightarrow> kret None)"

definition filedup :: "nat \<Rightarrow> ('a file_state_scheme, nat) kprog" where
  "filedup f =
     kbind (get_file f) (\<lambda>x.
     if f_ref x < 1 then kpanic ''filedup''
     else kseq (upd_file f (\<lambda>x. x\<lparr>f_ref := f_ref x + 1\<rparr>)) (kret f))"

definition fileclose :: "nat \<Rightarrow> ('a file_state_scheme, unit) kprog" where
  "fileclose f =
     kbind (get_file f) (\<lambda>x.
     if f_ref x < 1 then kpanic ''fileclose''
     else kseq (upd_file f (\<lambda>x. x\<lparr>f_ref := f_ref x - 1\<rparr>))
       (kbind (get_file f) (\<lambda>ff.
        if f_ref ff > 0 then kret ()
        else kseq (upd_file f (\<lambda>x. x\<lparr>f_ref := 0, f_type := FD_NONE\<rparr>))
          (case f_type ff of
             FD_PIPE \<Rightarrow> pipeclose (f_pipe ff) (f_writable ff)
           | FD_INODE \<Rightarrow> kseq begin_op (kseq (iput (f_ip ff)) end_op)
           | FD_NONE \<Rightarrow> kret ()))))"

text \<open>The \<^verbatim>\<open>struct stat\<close> the caller passes is filled only when the result is 0.\<close>

definition filestat :: "nat \<Rightarrow> ('a file_state_scheme, stat option) kprog" where
  "filestat f =
     kbind (get_file f) (\<lambda>x.
     if f_type x = FD_INODE then
       kseq (ilock (f_ip x))
       (kbind (stati (f_ip x)) (\<lambda>st.
        kseq (iunlock (f_ip x)) (kret (Some st))))
     else kret None)"

definition fileread :: "('a file_state_scheme) devsw \<Rightarrow> nat \<Rightarrow> bytes \<Rightarrow> int \<Rightarrow> ('a file_state_scheme, int \<times> bytes) kprog" where
  "fileread dv f addr n =
     kbind (get_file f) (\<lambda>x.
     if \<not> f_readable x then kret (- 1, addr)
     else case f_type x of
       FD_PIPE \<Rightarrow> piperead (f_pipe x) addr n
     | FD_INODE \<Rightarrow>
         kseq (ilock (f_ip x))
         (kbind (get_file f) (\<lambda>x.
          kbind (readi dv (f_ip x) addr (f_off x) (of_int n)) (\<lambda>(r, addr).
          kseq (if r > 0 then upd_file f (\<lambda>x. x\<lparr>f_off := f_off x + of_int r\<rparr>) else kret ())
          (kseq (iunlock (f_ip x)) (kret (r, addr))))))
     | FD_NONE \<Rightarrow> kpanic ''fileread'')"

abbreviation (input) WRITE_MAX :: int where "WRITE_MAX \<equiv> ((int LOGSIZE - 1 - 1 - 2) div 2) * 512"

function filewrite_from :: "('a file_state_scheme) devsw \<Rightarrow> nat \<Rightarrow> bytes \<Rightarrow> int \<Rightarrow> int \<Rightarrow> ('a file_state_scheme, int) kprog" where
  "filewrite_from dv f addr i n =
     (if i < n then
        (let n1 = (if n - i > WRITE_MAX then WRITE_MAX else n - i) in
         kseq begin_op
         (kbind (get_file f) (\<lambda>x.
          kseq (ilock (f_ip x))
          (kbind (get_file f) (\<lambda>x.
           kbind (writei dv (f_ip x) (\<lambda>k. addr (nat i + k)) (f_off x) (of_int n1)) (\<lambda>r.
           kseq (if r > 0 then upd_file f (\<lambda>x. x\<lparr>f_off := f_off x + of_int r\<rparr>) else kret ())
           (kseq (iunlock (f_ip x))
           (kseq end_op
           (if r < 0 then kret (if i = n then n else - 1)
            else if r \<noteq> n1 then kpanic ''short filewrite''
            else filewrite_from dv f addr (i + n1) n)))))))))
      else kret (if i = n then n else - 1))"
  by pat_completeness auto
termination
  by (relation "measure (\<lambda>(dv, f, addr, i, n). nat (n - i))") auto

declare filewrite_from.simps [simp del]

definition filewrite :: "('a file_state_scheme) devsw \<Rightarrow> nat \<Rightarrow> bytes \<Rightarrow> int \<Rightarrow> ('a file_state_scheme, int) kprog" where
  "filewrite dv f addr n =
     kbind (get_file f) (\<lambda>x.
     if \<not> f_writable x then kret (- 1)
     else case f_type x of
       FD_PIPE \<Rightarrow> pipewrite (f_pipe x) addr n
     | FD_INODE \<Rightarrow> filewrite_from dv f addr 0 n
     | FD_NONE \<Rightarrow> kpanic ''filewrite'')"

text \<open>The label \<^verbatim>\<open>bad\<close> of \<^verbatim>\<open>pipealloc\<close>: free what was obtained.\<close>

definition pipealloc_bad :: "uint \<Rightarrow> nat option \<Rightarrow> nat option \<Rightarrow> ('a file_state_scheme, (nat \<times> nat) option) kprog" where
  "pipealloc_bad p f0 f1 =
     kseq (if p \<noteq> 0 then kfree p else kret ())
     (kseq (case f0 of Some f \<Rightarrow> fileclose f | None \<Rightarrow> kret ())
     (kseq (case f1 of Some f \<Rightarrow> fileclose f | None \<Rightarrow> kret ())
     (kret None)))"

definition pipealloc :: "('a file_state_scheme, (nat \<times> nat) option) kprog" where
  "pipealloc =
     kbind filealloc (\<lambda>f0.
     case f0 of
       None \<Rightarrow> pipealloc_bad 0 None None
     | Some r \<Rightarrow>
         kbind filealloc (\<lambda>f1.
         case f1 of
           None \<Rightarrow> pipealloc_bad 0 f0 None
         | Some w \<Rightarrow>
             kbind kalloc (\<lambda>p.
             if p = 0 then pipealloc_bad 0 f0 f1
             else
               kseq (upd_pipe p (\<lambda>q. q\<lparr>pi_readopen := True, pi_writeopen := True, pi_nwrite := 0, pi_nread := 0\<rparr>))
               (kseq (upd_file r (\<lambda>x. x\<lparr>f_type := FD_PIPE, f_readable := True, f_writable := False, f_pipe := p\<rparr>))
               (kseq (upd_file w (\<lambda>x. x\<lparr>f_type := FD_PIPE, f_readable := False, f_writable := True, f_pipe := p\<rparr>))
               (kret (Some (r, w))))))))"

text \<open>A concrete state: no file is open.\<close>

definition demo_file :: file_state where
  "demo_file = pipe_state.extend demo_pipe \<lparr>ftable = (\<lambda>_. \<lparr>f_type = FD_NONE, f_ref = 0, f_readable = False, f_writable = False,
     f_pipe = 0, f_ip = 0, f_off = 0\<rparr>)\<rparr>"

end
