(* ===== verification/Spinlock.thy ===== *)
theory Spinlock
  imports Layout
begin

text \<open>
  Spin locks and the nesting of interrupt disabling, \<^verbatim>\<open>spinlock.c\<close>, with \<^verbatim>\<open>struct cpu\<close> of \<^verbatim>\<open>proc.h\<close>. A CPU is known by its index in
  \<^verbatim>\<open>cpus\<close>. Several CPUs run \<^verbatim>\<open>acquire\<close> and \<^verbatim>\<open>release\<close> on one lock at the same time, so these are broken into their accesses
  to shared memory: each of the operations below is executed atomically, and \<open>lk_step\<close> lets any CPU take its next one. The
  components that use locks leave them out: their routines run between an \<^verbatim>\<open>acquire\<close> and the matching \<^verbatim>\<open>release\<close>.
\<close>

record segdesc =
  lim_15_0 :: uint
  base_15_0 :: uint
  base_23_16 :: uint
  sd_type :: uint
  sd_s :: uint
  sd_dpl :: uint
  sd_p :: uint
  lim_19_16 :: uint
  sd_avl :: uint
  sd_rsv1 :: uint
  sd_db :: uint
  sd_g :: uint
  base_31_24 :: uint

text \<open>
  \<open>c_addr\<close> is the address of the struct; \<open>c_if\<close>, \<open>c_cr3\<close>, \<open>c_tr\<close>, \<open>c_gs\<close> and \<open>c_gdtr\<close> are the processor's interrupt flag and
  registers.
\<close>

record cpu =
  c_id :: uchar
  c_addr :: uint
  c_if :: bool
  c_gdtr :: "uint \<times> uint"
  c_cr3 :: uint
  c_tr :: uint
  c_gs :: uint
  c_ts_ss0 :: ushort
  c_ts_esp0 :: uint
  c_gdt :: "nat \<Rightarrow> segdesc"
  c_ncli :: int
  c_intena :: bool

record spinlock =
  lk_locked :: uint
  lk_cpu :: "nat option"
  lk_pcs :: "nat \<Rightarrow> uint"

definition initlock :: "spinlock \<Rightarrow> spinlock" where
  "initlock lk = lk\<lparr>lk_locked := 0, lk_cpu := None\<rparr>"

definition pushcli :: "cpu \<Rightarrow> cpu" where
  "pushcli c = c\<lparr>c_if := False, c_ncli := c_ncli c + 1, c_intena := (if c_ncli c = 0 then c_if c else c_intena c)\<rparr>"

definition popcli :: "cpu \<Rightarrow> string + cpu" where
  "popcli c =
     (if c_if c then Inl ''popcli - interruptible''
      else if c_ncli c - 1 < 0 then Inl ''popcli''
      else Inr (c\<lparr>c_ncli := c_ncli c - 1, c_if := (c_ncli c - 1 = 0 \<and> c_intena c)\<rparr>))"

definition holding :: "nat \<Rightarrow> spinlock \<Rightarrow> bool" where
  "holding c lk \<longleftrightarrow> lk_locked lk \<noteq> 0 \<and> lk_cpu lk = Some c"

definition xchg_locked :: "uint \<Rightarrow> spinlock \<Rightarrow> uint \<times> spinlock" where
  "xchg_locked v lk = (lk_locked lk, lk\<lparr>lk_locked := v\<rparr>)"

text \<open>\<^verbatim>\<open>getcallerpcs\<close>: follow the chain of saved frame pointers, at most ten deep, then fill up with zeros.\<close>

fun callerpcs_from :: "memory \<Rightarrow> uint \<Rightarrow> nat \<Rightarrow> nat \<Rightarrow> (nat \<Rightarrow> uint) \<Rightarrow> (nat \<Rightarrow> uint)" where
  "callerpcs_from m ebp i 0 pcs = pcs"
| "callerpcs_from m ebp i (Suc k) pcs =
     (if ebp = 0 \<or> ebp < KERNBASE \<or> ebp = 0xffffffff then (\<lambda>j. if i \<le> j \<and> j < i + Suc k then 0 else pcs j)
      else callerpcs_from m (load32 m ebp) (Suc i) k (pcs(i := load32 m (ebp + 4))))"

definition getcallerpcs :: "memory \<Rightarrow> uint \<Rightarrow> (nat \<Rightarrow> uint) \<Rightarrow> (nat \<Rightarrow> uint)" where
  "getcallerpcs m v pcs = callerpcs_from m (v - 8) 0 10 pcs"

section \<open>One lock, many processors\<close>

text \<open>Where a CPU is in its use of the lock.\<close>

datatype lpc = Outside | Entered | Spinning | Acquired | Inside | Cleared | Released | Halted string

record lk_state =
  the_lock :: spinlock
  cpus :: "nat \<Rightarrow> cpu"
  lpcs :: "nat \<Rightarrow> lpc"

definition goto :: "nat \<Rightarrow> lpc \<Rightarrow> lk_state \<Rightarrow> lk_state" where
  "goto c p s = s\<lparr>lpcs := (lpcs s)(c := p)\<rparr>"

definition acquire_enter :: "nat \<Rightarrow> lk_state \<Rightarrow> lk_state" where
  "acquire_enter c s = goto c Entered (s\<lparr>cpus := (cpus s)(c := pushcli (cpus s c))\<rparr>)"

definition acquire_check :: "nat \<Rightarrow> lk_state \<Rightarrow> lk_state" where
  "acquire_check c s = goto c (if holding c (the_lock s) then Halted ''acquire'' else Spinning) s"

definition acquire_spin :: "nat \<Rightarrow> lk_state \<Rightarrow> lk_state" where
  "acquire_spin c s =
     (let (old, lk) = xchg_locked 1 (the_lock s) in
      goto c (if old \<noteq> 0 then Spinning else Acquired) (s\<lparr>the_lock := lk\<rparr>))"

definition acquire_record :: "memory \<Rightarrow> uint \<Rightarrow> nat \<Rightarrow> lk_state \<Rightarrow> lk_state" where
  "acquire_record m v c s =
     goto c Inside (s\<lparr>the_lock := (the_lock s)\<lparr>lk_cpu := Some c, lk_pcs := getcallerpcs m v (lk_pcs (the_lock s))\<rparr>\<rparr>)"

definition release_check :: "nat \<Rightarrow> lk_state \<Rightarrow> lk_state" where
  "release_check c s =
     (if \<not> holding c (the_lock s) then goto c (Halted ''release'') s
      else goto c Cleared (s\<lparr>the_lock := (the_lock s)\<lparr>lk_pcs := (lk_pcs (the_lock s))(0 := 0), lk_cpu := None\<rparr>\<rparr>))"

definition release_unlock :: "nat \<Rightarrow> lk_state \<Rightarrow> lk_state" where
  "release_unlock c s = goto c Released (s\<lparr>the_lock := snd (xchg_locked 0 (the_lock s))\<rparr>)"

definition release_popcli :: "nat \<Rightarrow> lk_state \<Rightarrow> lk_state" where
  "release_popcli c s =
     (case popcli (cpus s c) of
        Inl e \<Rightarrow> goto c (Halted e) s
      | Inr p \<Rightarrow> goto c Outside (s\<lparr>cpus := (cpus s)(c := p)\<rparr>))"

text \<open>
  Steps. The last three are what a CPU does besides: enter and leave the critical sections of other locks (\<^verbatim>\<open>pushcli\<close> and a
  matching \<^verbatim>\<open>popcli\<close>, nested inside the section of this lock if it is in one), and \<^verbatim>\<open>sti\<close> when it is in none.
\<close>

definition depth :: "lpc \<Rightarrow> int" where
  "depth p = (if p = Outside then 0 else 1)"

inductive lk_step :: "lk_state \<Rightarrow> lk_state \<Rightarrow> bool" where
  "lpcs s c = Outside \<Longrightarrow> lk_step s (acquire_enter c s)"
| "lpcs s c = Entered \<Longrightarrow> lk_step s (acquire_check c s)"
| "lpcs s c = Spinning \<Longrightarrow> lk_step s (acquire_spin c s)"
| "lpcs s c = Acquired \<Longrightarrow> lk_step s (acquire_record m v c s)"
| "lpcs s c = Inside \<Longrightarrow> lk_step s (release_check c s)"
| "lpcs s c = Cleared \<Longrightarrow> lk_step s (release_unlock c s)"
| "lpcs s c = Released \<Longrightarrow> lk_step s (release_popcli c s)"
| "lpcs s c \<in> {Outside, Inside} \<Longrightarrow> lk_step s (s\<lparr>cpus := (cpus s)(c := pushcli (cpus s c))\<rparr>)"
| "lpcs s c \<in> {Outside, Inside} \<Longrightarrow> c_ncli (cpus s c) > depth (lpcs s c) \<Longrightarrow> popcli (cpus s c) = Inr p \<Longrightarrow>
     lk_step s (s\<lparr>cpus := (cpus s)(c := p)\<rparr>)"
| "lpcs s c = Outside \<Longrightarrow> c_ncli (cpus s c) = 0 \<Longrightarrow> lk_step s (s\<lparr>cpus := (cpus s)(c := (cpus s c)\<lparr>c_if := b\<rparr>)\<rparr>)"

definition lk_init :: "lk_state \<Rightarrow> bool" where
  "lk_init s \<longleftrightarrow> the_lock s = initlock (the_lock s) \<and> (\<forall>c. lpcs s c = Outside \<and> c_ncli (cpus s c) = 0)"

section \<open>Invariant\<close>

text \<open>\<open>owns\<close>: the CPU has taken the lock and not yet given it back.\<close>

definition owns :: "lpc \<Rightarrow> bool" where
  "owns p \<longleftrightarrow> p \<in> {Acquired, Inside, Cleared}"

lemma pushcli_fields [simp]: "c_ncli (pushcli c) = c_ncli c + 1" "\<not> c_if (pushcli c)"
  by (simp_all add: pushcli_def)

lemma popcli_Inr: "popcli c = Inr p \<Longrightarrow> c_ncli p = c_ncli c - 1 \<and> 0 \<le> c_ncli p \<and> (c_ncli p > 0 \<longrightarrow> \<not> c_if p)"
  by (auto simp: popcli_def split: if_splits)

lemma popcli_ok: "\<not> c_if c \<Longrightarrow> 0 < c_ncli c \<Longrightarrow> \<exists>p. popcli c = Inr p"
  by (simp add: popcli_def)

lemma goto_simps [simp]: "the_lock (goto c p s) = the_lock s" "cpus (goto c p s) = cpus s" "lpcs (goto c p s) = (lpcs s)(c := p)"
  by (simp_all add: goto_def)

lemma owns_simps [simp]: "\<not> owns Outside" "\<not> owns Entered" "\<not> owns Spinning" "owns Acquired" "owns Inside" "owns Cleared" "\<not> owns Released"
  by (simp_all add: owns_def)

lemma depth_simps [simp]: "depth Outside = 0" "p \<noteq> Outside \<Longrightarrow> depth p = 1"
  by (simp_all add: depth_def)

text \<open>The invariant in parts: the CPUs' nesting depth, and who owns the lock.\<close>

definition cli_inv :: "lk_state \<Rightarrow> bool" where
  "cli_inv s \<longleftrightarrow> (\<forall>c. depth (lpcs s c) \<le> c_ncli (cpus s c) \<and> (c_ncli (cpus s c) > 0 \<longrightarrow> \<not> c_if (cpus s c)))"

definition own_inv :: "lk_state \<Rightarrow> bool" where
  "own_inv s \<longleftrightarrow> (\<forall>c d. owns (lpcs s c) \<and> owns (lpcs s d) \<longrightarrow> c = d) \<and>
     (lk_locked (the_lock s) \<noteq> 0 \<longleftrightarrow> (\<exists>c. owns (lpcs s c))) \<and>
     (\<forall>c. lk_cpu (the_lock s) = Some c \<longleftrightarrow> lpcs s c = Inside)"

definition no_halt :: "lk_state \<Rightarrow> bool" where
  "no_halt s \<longleftrightarrow> (\<forall>c e. lpcs s c \<noteq> Halted e)"

definition lk_inv :: "lk_state \<Rightarrow> bool" where
  "lk_inv s \<longleftrightarrow> no_halt s \<and> own_inv s \<and> cli_inv s"

lemmas lk_inv_parts = lk_inv_def

lemma cli_invD: "cli_inv s \<Longrightarrow> depth (lpcs s c) \<le> c_ncli (cpus s c)" "cli_inv s \<Longrightarrow> c_ncli (cpus s c) > 0 \<Longrightarrow> \<not> c_if (cpus s c)"
  by (simp_all add: cli_inv_def)

lemma holding_Inside: "own_inv s \<Longrightarrow> holding c (the_lock s) \<longleftrightarrow> lpcs s c = Inside"
  unfolding own_inv_def holding_def by (metis owns_simps(5))

lemma own_inv_move:
  assumes "own_inv s" "owns (lpcs s c) \<longleftrightarrow> owns p" "lpcs s c \<noteq> Inside" "p \<noteq> Inside"
  shows "own_inv (goto c p (s\<lparr>cpus := u\<rparr>))" "own_inv (goto c p s)"
  using assms by (auto simp: own_inv_def)

lemma cli_inv_goto: "cli_inv s \<Longrightarrow> lpcs s c \<noteq> Outside \<Longrightarrow> p \<noteq> Outside \<Longrightarrow> cli_inv (goto c p s)"
  using cli_invD(1) [of s c] by (simp add: cli_inv_def)

lemma cli_inv_goto_lock: "cli_inv s \<Longrightarrow> lpcs s c \<noteq> Outside \<Longrightarrow> p \<noteq> Outside \<Longrightarrow> cli_inv (goto c p (s\<lparr>the_lock := l\<rparr>))"
  using cli_invD(1) [of s c] by (simp add: cli_inv_def)

lemma no_halt_goto: "no_halt s \<Longrightarrow> (\<And>e. p \<noteq> Halted e) \<Longrightarrow> no_halt (goto c p s)"
  by (simp add: no_halt_def)

lemma lk_step_no_halt: "lk_step s t \<Longrightarrow> lk_inv s \<Longrightarrow> no_halt t"
proof (induction rule: lk_step.induct)
  case (2 s c)
  then show ?case by (simp add: lk_inv_parts acquire_check_def holding_Inside no_halt_goto)
next
  case (5 s c)
  then show ?case by (simp add: lk_inv_parts release_check_def holding_Inside) (simp add: no_halt_def)
next
  case (7 s c)
  then have "0 < c_ncli (cpus s c)" "\<not> c_if (cpus s c)"
    using cli_invD [of s c] by (simp_all add: lk_inv_parts)
  then obtain p where "popcli (cpus s c) = Inr p" using popcli_ok by blast
  then show ?case using 7 by (simp add: release_popcli_def lk_inv_parts no_halt_def)
qed (auto simp: lk_inv_parts no_halt_def acquire_enter_def acquire_spin_def acquire_record_def release_unlock_def xchg_locked_def)

lemma lk_step_own_inv: "lk_step s t \<Longrightarrow> lk_inv s \<Longrightarrow> own_inv t"
proof (induction rule: lk_step.induct)
  case (2 s c)
  then show ?case by (simp add: lk_inv_parts acquire_check_def holding_Inside own_inv_move)
next
  case (3 s c)
  show ?case
  proof (cases "lk_locked (the_lock s) = 0")
    case True
    then have "\<not> owns (lpcs s d)" for d using 3(2) by (simp add: lk_inv_parts own_inv_def)
    then show ?thesis using 3 True by (auto simp: lk_inv_parts acquire_spin_def xchg_locked_def own_inv_def)
  next
    case False
    then obtain d where "owns (lpcs s d)" using 3(2) by (auto simp: lk_inv_parts own_inv_def)
    moreover have "d \<noteq> c" using calculation 3(1) by auto
    ultimately show ?thesis using 3 False by (auto simp: lk_inv_parts acquire_spin_def xchg_locked_def own_inv_def)
  qed
next
  case (4 s c m v)
  then show ?case unfolding lk_inv_parts acquire_record_def own_inv_def
    by (auto split: if_splits) (metis owns_simps(4,5))
next
  case (5 s c)
  then have "holding c (the_lock s)" by (simp add: lk_inv_parts holding_Inside)
  then show ?case using 5 by (auto simp: lk_inv_parts release_check_def own_inv_def holding_def)
next
  case (6 s c)
  then show ?case by (auto simp: lk_inv_parts release_unlock_def xchg_locked_def own_inv_def)
next
  case (7 s c)
  then have "0 < c_ncli (cpus s c)" "\<not> c_if (cpus s c)"
    using cli_invD [of s c] by (simp_all add: lk_inv_parts)
  then obtain p where "popcli (cpus s c) = Inr p" using popcli_ok by blast
  then show ?case using 7 by (simp add: release_popcli_def lk_inv_parts own_inv_move)
qed (simp_all add: lk_inv_parts own_inv_move acquire_enter_def, simp_all add: own_inv_def)

lemma lk_step_cli_inv: "lk_step s t \<Longrightarrow> lk_inv s \<Longrightarrow> cli_inv t"
proof (induction rule: lk_step.induct)
  case (7 s c)
  then have "0 < c_ncli (cpus s c)" "\<not> c_if (cpus s c)"
    using cli_invD [of s c] by (simp_all add: lk_inv_parts)
  then obtain p where p: "popcli (cpus s c) = Inr p" using popcli_ok by blast
  then show ?case using 7 popcli_Inr [OF p] by (simp add: release_popcli_def lk_inv_parts cli_inv_def)
next
  case (9 s c p)
  then show ?case using popcli_Inr [OF 9(3)] by (auto simp: lk_inv_parts cli_inv_def)
next
  case (1 s c)
  then show ?case using cli_invD(1) [of s c] by (simp add: lk_inv_parts acquire_enter_def cli_inv_def)
next
  case (8 s c)
  then have "0 \<le> c_ncli (cpus s c)" using cli_invD(1) [of s c] by (auto simp: lk_inv_parts depth_def split: if_splits)
  then show ?case using 8 cli_invD(1) [of s c] by (auto simp: lk_inv_parts cli_inv_def)
next
  case (10 s c b)
  then show ?case by (auto simp: lk_inv_parts cli_inv_def)
qed (auto simp: lk_inv_parts acquire_check_def acquire_spin_def acquire_record_def release_check_def release_unlock_def xchg_locked_def
    intro!: cli_inv_goto cli_inv_goto_lock)

lemma lk_init_inv: "lk_init s \<Longrightarrow> lk_inv s"
proof -
  assume i: "lk_init s"
  then have "the_lock s = initlock (the_lock s)" by (simp add: lk_init_def)
  then have "lk_locked (the_lock s) = 0" "lk_cpu (the_lock s) = None"
    by (metis initlock_def spinlock.select_convs(1,2) spinlock.surjective spinlock.update_convs(1,2))+
  then show ?thesis using i by (auto simp: lk_inv_parts lk_init_def no_halt_def own_inv_def cli_inv_def)
qed

lemma lk_reach_inv: "lk_step\<^sup>*\<^sup>* s t \<Longrightarrow> lk_inv s \<Longrightarrow> lk_inv t"
  by (induction rule: rtranclp_induct)
    (auto simp: lk_inv_parts [of t for t] dest: lk_step_no_halt lk_step_own_inv lk_step_cli_inv)

section \<open>Properties\<close>

text \<open>
  C21: spin locks give mutual exclusion. In every state that any number of processors reach by interleaving the memory
  accesses of \<^verbatim>\<open>acquire\<close> and \<^verbatim>\<open>release\<close>, with sections of other locks nested in between, at most one processor is between its
  successful \<^verbatim>\<open>xchg\<close> and its release, that processor runs with interrupts off, and none of the panics of \<^verbatim>\<open>acquire\<close>,
  \<^verbatim>\<open>release\<close> and \<^verbatim>\<open>popcli\<close> has been reached.
\<close>

theorem spinlock_mutual_exclusion:
  assumes init: "lk_init s" and reach: "lk_step\<^sup>*\<^sup>* s t"
  shows "(owns (lpcs t c) \<and> owns (lpcs t d) \<longrightarrow> c = d) \<and> (owns (lpcs t c) \<longrightarrow> \<not> c_if (cpus t c)) \<and>
    (\<forall>e. lpcs t c \<noteq> Halted e) \<and> (holding c (the_lock t) \<longleftrightarrow> lpcs t c = Inside)"
proof -
  have inv: "no_halt t" "own_inv t" "cli_inv t" using lk_reach_inv [OF reach lk_init_inv [OF init]] by (simp_all add: lk_inv_def)
  have "\<not> c_if (cpus t c)" if "owns (lpcs t c)"
  proof -
    have "depth (lpcs t c) = 1" using that by (cases "lpcs t c") (simp_all add: owns_def)
    then show ?thesis using cli_invD [OF inv(3), of c] by simp
  qed
  then show ?thesis using inv holding_Inside [OF inv(2)] by (simp add: no_halt_def own_inv_def)
qed

definition demo_lock :: lk_state where
  "demo_lock = \<lparr>the_lock = \<lparr>lk_locked = 0, lk_cpu = None, lk_pcs = (\<lambda>_. 0)\<rparr>,
     cpus = (\<lambda>_. \<lparr>c_id = 0, c_addr = 0x80110000, c_if = True, c_gdtr = (0, 0), c_cr3 = 0, c_tr = 0, c_gs = 0, c_ts_ss0 = 0, c_ts_esp0 = 0,
       c_gdt = (\<lambda>_. \<lparr>lim_15_0 = 0, base_15_0 = 0, base_23_16 = 0, sd_type = 0, sd_s = 0, sd_dpl = 0, sd_p = 0, lim_19_16 = 0,
         sd_avl = 0, sd_rsv1 = 0, sd_db = 0, sd_g = 0, base_31_24 = 0\<rparr>), c_ncli = 0, c_intena = False\<rparr>),
     lpcs = (\<lambda>_. Outside)\<rparr>"

text \<open>Two processors race: processor 0 wins the lock, processor 1 spins.\<close>

definition demo_race :: lk_state where
  "demo_race = acquire_spin 1 (acquire_spin 0 (acquire_check 1 (acquire_enter 1 (acquire_check 0 (acquire_enter 0 demo_lock)))))"

lemmas demo_race_simps = demo_race_def demo_lock_def acquire_spin_def acquire_check_def acquire_enter_def goto_def xchg_locked_def holding_def

theorem spinlock_mutual_exclusion_witness:
  "lk_init demo_lock \<and> lk_step\<^sup>*\<^sup>* demo_lock demo_race \<and> lpcs demo_race 0 = Acquired \<and> lpcs demo_race 1 = Spinning \<and>
    \<not> c_if (cpus demo_race 0)"
proof -
  have i: "lk_init demo_lock" by (simp add: lk_init_def demo_lock_def initlock_def)
  have "lk_step demo_lock (acquire_enter 0 demo_lock)"
    by (rule lk_step.intros(1)) (simp add: demo_lock_def)
  moreover have "lk_step (acquire_enter 0 demo_lock) (acquire_check 0 (acquire_enter 0 demo_lock))"
    by (rule lk_step.intros(2)) (simp add: demo_race_simps)
  moreover have "lk_step (acquire_check 0 (acquire_enter 0 demo_lock)) (acquire_enter 1 (acquire_check 0 (acquire_enter 0 demo_lock)))"
    by (rule lk_step.intros(1)) (simp add: demo_race_simps)
  moreover have "lk_step (acquire_enter 1 (acquire_check 0 (acquire_enter 0 demo_lock)))
     (acquire_check 1 (acquire_enter 1 (acquire_check 0 (acquire_enter 0 demo_lock))))"
    by (rule lk_step.intros(2)) (simp add: demo_race_simps)
  moreover have "lk_step (acquire_check 1 (acquire_enter 1 (acquire_check 0 (acquire_enter 0 demo_lock))))
     (acquire_spin 0 (acquire_check 1 (acquire_enter 1 (acquire_check 0 (acquire_enter 0 demo_lock)))))"
    by (rule lk_step.intros(3)) (simp add: demo_race_simps)
  moreover have "lk_step (acquire_spin 0 (acquire_check 1 (acquire_enter 1 (acquire_check 0 (acquire_enter 0 demo_lock))))) demo_race"
    unfolding demo_race_def by (rule lk_step.intros(3)) (simp add: demo_race_simps)
  ultimately have r: "lk_step\<^sup>*\<^sup>* demo_lock demo_race" by (meson rtranclp.rtrancl_refl rtranclp.rtrancl_into_rtrancl)
  have l: "lpcs demo_race 0 = Acquired" "lpcs demo_race 1 = Spinning" by (simp_all add: demo_race_simps)
  then show ?thesis using spinlock_mutual_exclusion [OF i r, of 0 0] i r by simp
qed

end
