(* ===== verification/Vm.thy ===== *)
theory Vm
  imports File Spinlock
begin

text \<open>
  Page tables and address spaces, \<^verbatim>\<open>vm.c\<close>, with the macros of \<^verbatim>\<open>mmu.h\<close> it uses. Page directories and page tables are kept in
  the machine's memory, at the addresses and with the entries the code computes; a null pointer is 0. \<open>kdata\<close> is the
  linker symbol \<^verbatim>\<open>data\<close>, \<open>mycpu\<close> the \<^verbatim>\<open>struct cpu\<close> of the processor that runs the code. The loops over the user pages count in
  natural numbers: sizes are at most KERNBASE, which \<^verbatim>\<open>allocuvm\<close> enforces, so the C counters do not wrap. Console output
  of \<^verbatim>\<open>cprintf\<close> is left out.
\<close>

record vm_state = file_state +
  kdata :: uint
  kpgdir :: uint
  mycpu :: cpu

section \<open>Addresses and entries (mmu.h)\<close>

definition PDX :: "uint \<Rightarrow> uint" where "PDX va = drop_bit 22 va AND 0x3FF"
definition PTX :: "uint \<Rightarrow> uint" where "PTX va = drop_bit 12 va AND 0x3FF"
definition PGADDR :: "uint \<Rightarrow> uint \<Rightarrow> uint \<Rightarrow> uint" where "PGADDR d t off = push_bit 22 d OR push_bit 12 t OR off"
definition PTE_ADDR :: "uint \<Rightarrow> uint" where "PTE_ADDR pte = pte AND NOT 0xFFF"
definition PTE_FLAGS :: "uint \<Rightarrow> uint" where "PTE_FLAGS pte = pte AND 0xFFF"
definition PTE_P :: uint where "PTE_P = 0x001"
definition PTE_W :: uint where "PTE_W = 0x002"
definition PTE_U :: uint where "PTE_U = 0x004"

definition SEG :: "uint \<Rightarrow> uint \<Rightarrow> uint \<Rightarrow> uint \<Rightarrow> segdesc" where
  "SEG type base lim dpl = \<lparr>lim_15_0 = drop_bit 12 lim AND 0xffff, base_15_0 = base AND 0xffff,
     base_23_16 = drop_bit 16 base AND 0xff, sd_type = type, sd_s = 1, sd_dpl = dpl, sd_p = 1,
     lim_19_16 = drop_bit 28 lim, sd_avl = 0, sd_rsv1 = 0, sd_db = 1, sd_g = 1, base_31_24 = drop_bit 24 base\<rparr>"

definition SEG16 :: "uint \<Rightarrow> uint \<Rightarrow> uint \<Rightarrow> uint \<Rightarrow> segdesc" where
  "SEG16 type base lim dpl = \<lparr>lim_15_0 = lim AND 0xffff, base_15_0 = base AND 0xffff,
     base_23_16 = drop_bit 16 base AND 0xff, sd_type = type, sd_s = 1, sd_dpl = dpl, sd_p = 1,
     lim_19_16 = drop_bit 16 lim, sd_avl = 0, sd_rsv1 = 0, sd_db = 1, sd_g = 0, base_31_24 = drop_bit 24 base\<rparr>"

abbreviation (input) SEG_KCODE :: nat where "SEG_KCODE \<equiv> 1"
abbreviation (input) SEG_KDATA :: nat where "SEG_KDATA \<equiv> 2"
abbreviation (input) SEG_KCPU :: nat where "SEG_KCPU \<equiv> 3"
abbreviation (input) SEG_UCODE :: nat where "SEG_UCODE \<equiv> 4"
abbreviation (input) SEG_UDATA :: nat where "SEG_UDATA \<equiv> 5"
abbreviation (input) SEG_TSS :: nat where "SEG_TSS \<equiv> 6"
abbreviation (input) DPL_USER :: uint where "DPL_USER \<equiv> 3"
abbreviation (input) STA_X :: uint where "STA_X \<equiv> 8"
abbreviation (input) STA_W :: uint where "STA_W \<equiv> 2"
abbreviation (input) STA_R :: uint where "STA_R \<equiv> 2"
abbreviation (input) STS_T32A :: uint where "STS_T32A \<equiv> 9"

text \<open>Offsets of the fields \<^verbatim>\<open>ts\<close>, \<^verbatim>\<open>gdt\<close> and \<^verbatim>\<open>cpu\<close> in \<^verbatim>\<open>struct cpu\<close>.\<close>

abbreviation (input) CPU_TS :: uint where "CPU_TS \<equiv> 8"
abbreviation (input) CPU_GDT :: uint where "CPU_GDT \<equiv> 112"
abbreviation (input) CPU_CPU :: uint where "CPU_CPU \<equiv> 180"

definition upd_cpu :: "(cpu \<Rightarrow> cpu) \<Rightarrow> ('a vm_state_scheme, unit) kprog" where
  "upd_cpu f = kmod (\<lambda>s. s\<lparr>mycpu := f (mycpu s)\<rparr>)"

definition seginit :: "('a vm_state_scheme, unit) kprog" where
  "seginit =
     kseq (upd_cpu (\<lambda>c. c\<lparr>c_gdt := (c_gdt c)(
        SEG_KCODE := SEG (STA_X OR STA_R) 0 0xffffffff 0,
        SEG_KDATA := SEG STA_W 0 0xffffffff 0,
        SEG_UCODE := SEG (STA_X OR STA_R) 0 0xffffffff DPL_USER,
        SEG_UDATA := SEG STA_W 0 0xffffffff DPL_USER,
        SEG_KCPU := SEG STA_W (c_addr c + CPU_CPU) 8 0)\<rparr>))
     (kseq (upd_cpu (\<lambda>c. c\<lparr>c_gdtr := (c_addr c + CPU_GDT, 56), c_gs := push_bit 3 (of_nat SEG_KCPU)\<rparr>))
     (kmod (\<lambda>s. s\<lparr>cur := None\<rparr>)))"

section \<open>Walking and filling page tables\<close>

definition rd32 :: "uint \<Rightarrow> ('a kmem_state_scheme, uint) kprog" where
  "rd32 a = kget (\<lambda>s. load32 (mem s) a)"

definition wr32 :: "uint \<Rightarrow> uint \<Rightarrow> ('a kmem_state_scheme, unit) kprog" where
  "wr32 a v = kmod (\<lambda>s. s\<lparr>mem := store32 (mem s) a v\<rparr>)"

definition kmemset :: "uint \<Rightarrow> uint \<Rightarrow> uint \<Rightarrow> ('a kmem_state_scheme, unit) kprog" where
  "kmemset dst c n = kmod (\<lambda>s. s\<lparr>mem := memset dst c n (mem s)\<rparr>)"

definition kmemmove :: "uint \<Rightarrow> uint \<Rightarrow> uint \<Rightarrow> ('a kmem_state_scheme, unit) kprog" where
  "kmemmove dst src n = kmod (\<lambda>s. s\<lparr>mem := memmove dst src n (mem s)\<rparr>)"

text \<open>Memory after \<open>n\<close> bytes of a buffer have been stored at \<open>a\<close>.\<close>

definition put_mem :: "memory \<Rightarrow> uint \<Rightarrow> nat \<Rightarrow> bytes \<Rightarrow> memory" where
  "put_mem m a n b = (\<lambda>x. if unat (x - a) < n then b (unat (x - a)) else m x)"

definition walkpgdir :: "uint \<Rightarrow> uint \<Rightarrow> bool \<Rightarrow> ('a kmem_state_scheme, uint) kprog" where
  "walkpgdir pgdir va alloc =
     (let pde = pgdir + 4 * PDX va in
      kbind (rd32 pde) (\<lambda>e.
      if e AND PTE_P \<noteq> 0 then kret (p2v (PTE_ADDR e) + 4 * PTX va)
      else if \<not> alloc then kret 0
      else
        kbind kalloc (\<lambda>pgtab.
        if pgtab = 0 then kret 0
        else
          kseq (kmemset pgtab 0 PGSIZE)
          (kseq (wr32 pde (v2p pgtab OR PTE_P OR PTE_W OR PTE_U))
          (kret (pgtab + 4 * PTX va))))))"

text \<open>\<open>k\<close> pages follow the page at \<open>a\<close>: the test \<^verbatim>\<open>a == last\<close> is \<open>k = 0\<close>.\<close>

fun mappages_from :: "uint \<Rightarrow> uint \<Rightarrow> nat \<Rightarrow> uint \<Rightarrow> uint \<Rightarrow> ('a kmem_state_scheme, int) kprog" where
  "mappages_from pgdir a k pa perm =
     kbind (walkpgdir pgdir a True) (\<lambda>pte.
     if pte = 0 then kret (- 1)
     else
       kbind (rd32 pte) (\<lambda>e.
       if e AND PTE_P \<noteq> 0 then kpanic ''remap''
       else
         kseq (wr32 pte (pa OR perm OR PTE_P))
         (case k of
            0 \<Rightarrow> kret 0
          | Suc k \<Rightarrow> mappages_from pgdir (a + PGSIZE) k (pa + PGSIZE) perm)))"

declare mappages_from.simps [simp del]

definition mappages :: "uint \<Rightarrow> uint \<Rightarrow> uint \<Rightarrow> uint \<Rightarrow> uint \<Rightarrow> ('a kmem_state_scheme, int) kprog" where
  "mappages pgdir va sz pa perm =
     (let a = PGROUNDDOWN va; last = PGROUNDDOWN (va + sz - 1) in
      mappages_from pgdir a (unat ((last - a) div PGSIZE)) pa perm)"

section \<open>The kernel's mappings\<close>

record kmap_entry =
  km_virt :: uint
  km_phys_start :: uint
  km_phys_end :: uint
  km_perm :: uint

definition kmap :: "uint \<Rightarrow> kmap_entry list" where
  "kmap data =
     [\<lparr>km_virt = KERNBASE, km_phys_start = 0, km_phys_end = EXTMEM, km_perm = PTE_W\<rparr>,
      \<lparr>km_virt = KERNLINK, km_phys_start = v2p KERNLINK, km_phys_end = v2p data, km_perm = 0\<rparr>,
      \<lparr>km_virt = data, km_phys_start = v2p data, km_phys_end = PHYSTOP, km_perm = PTE_W\<rparr>,
      \<lparr>km_virt = DEVSPACE, km_phys_start = DEVSPACE, km_phys_end = 0, km_perm = PTE_W\<rparr>]"

fun setupkvm_from :: "uint \<Rightarrow> kmap_entry list \<Rightarrow> ('a kmem_state_scheme, uint) kprog" where
  "setupkvm_from pgdir [] = kret pgdir"
| "setupkvm_from pgdir (k # ks) =
     kbind (mappages pgdir (km_virt k) (km_phys_end k - km_phys_start k) (km_phys_start k) (km_perm k)) (\<lambda>r.
     if r < 0 then kret 0 else setupkvm_from pgdir ks)"

definition setupkvm :: "('a vm_state_scheme, uint) kprog" where
  "setupkvm =
     kbind kalloc (\<lambda>pgdir.
     if pgdir = 0 then kret 0
     else
       kseq (kmemset pgdir 0 PGSIZE)
       (if p2v PHYSTOP > DEVSPACE then kpanic ''PHYSTOP too high''
        else kbind (kget kdata) (\<lambda>data. setupkvm_from pgdir (kmap data))))"

definition switchkvm :: "('a vm_state_scheme, unit) kprog" where
  "switchkvm = kbind (kget kpgdir) (\<lambda>d. upd_cpu (\<lambda>c. c\<lparr>c_cr3 := v2p d\<rparr>))"

definition kvmalloc :: "('a vm_state_scheme, unit) kprog" where
  "kvmalloc = kbind setupkvm (\<lambda>d. kseq (kmod (\<lambda>s. s\<lparr>kpgdir := d\<rparr>)) switchkvm)"

text \<open>\<^verbatim>\<open>switchuvm\<close> takes the kernel stack from the current process \<^verbatim>\<open>proc\<close> and the page table from its argument.\<close>

definition switchuvm :: "nat \<Rightarrow> ('a vm_state_scheme, unit) kprog" where
  "switchuvm p =
     kseq (upd_cpu pushcli)
     (kbind myproc (\<lambda>q.
     kbind (kget (\<lambda>s. p_kstack (ptab s q))) (\<lambda>kstack.
     kseq (upd_cpu (\<lambda>c. c\<lparr>c_gdt := (c_gdt c)(SEG_TSS := (SEG16 STS_T32A (c_addr c + CPU_TS) 103 0)\<lparr>sd_s := 0\<rparr>),
        c_ts_ss0 := push_bit 3 (of_nat SEG_KDATA), c_ts_esp0 := kstack + KSTACKSIZE, c_tr := push_bit 3 (of_nat SEG_TSS)\<rparr>))
     (kbind (kget (\<lambda>s. p_pgdir (ptab s p))) (\<lambda>pgdir.
     if pgdir = 0 then kpanic ''switchuvm: no pgdir''
     else
       kseq (upd_cpu (\<lambda>c. c\<lparr>c_cr3 := v2p pgdir\<rparr>))
       (kbind (kget (\<lambda>s. popcli (mycpu s))) (\<lambda>r.
       case r of Inl e \<Rightarrow> kpanic e | Inr c \<Rightarrow> upd_cpu (\<lambda>_. c))))))))"

section \<open>User address spaces\<close>

text \<open>\<^verbatim>\<open>inituvm\<close> uses the page without testing that \<^verbatim>\<open>kalloc\<close> found one; writing through the null pointer faults.\<close>

definition inituvm :: "uint \<Rightarrow> uint \<Rightarrow> uint \<Rightarrow> ('a kmem_state_scheme, unit) kprog" where
  "inituvm pgdir init sz =
     (if sz \<ge> PGSIZE then kpanic ''inituvm: more than a page''
      else
        kbind kalloc (\<lambda>mem.
        if mem = 0 then kpanic ''trap''
        else
          kseq (kmemset mem 0 PGSIZE)
          (kbind (mappages pgdir 0 PGSIZE (v2p mem) (PTE_W OR PTE_U)) (\<lambda>_.
           kmemmove mem init sz))))"

function loaduvm_from :: "('a fs_state_scheme) devsw \<Rightarrow> uint \<Rightarrow> uint \<Rightarrow> nat \<Rightarrow> uint \<Rightarrow> uint \<Rightarrow> nat \<Rightarrow> ('a fs_state_scheme, int) kprog" where
  "loaduvm_from dv pgdir addr ip offset sz i =
     (if i < unat sz then
        kbind (walkpgdir pgdir (addr + of_nat i) False) (\<lambda>pte.
        if pte = 0 then kpanic ''loaduvm: address should exist''
        else
          kbind (rd32 pte) (\<lambda>e.
          let pa = PTE_ADDR e;
              n = (if sz - of_nat i < PGSIZE then sz - of_nat i else PGSIZE) in
          kbind (kget (\<lambda>s. ptr_view (mem s) (p2v pa))) (\<lambda>dst.
          kbind (readi dv ip dst (offset + of_nat i) n) (\<lambda>(r, b).
          kseq (kmod (\<lambda>s. s\<lparr>mem := put_mem (mem s) (p2v pa) (nat r) b\<rparr>))
          (if of_int r \<noteq> n then kret (- 1) else loaduvm_from dv pgdir addr ip offset sz (i + 4096))))))
      else kret 0)"
  by pat_completeness auto
termination
  by (relation "measure (\<lambda>(dv, pgdir, addr, ip, offset, sz, i). unat sz - i)") auto

definition loaduvm :: "('a fs_state_scheme) devsw \<Rightarrow> uint \<Rightarrow> uint \<Rightarrow> nat \<Rightarrow> uint \<Rightarrow> uint \<Rightarrow> ('a fs_state_scheme, int) kprog" where
  "loaduvm dv pgdir addr ip offset sz =
     (if addr mod PGSIZE \<noteq> 0 then kpanic ''loaduvm: addr must be page aligned''
      else loaduvm_from dv pgdir addr ip offset sz 0)"

function deallocuvm_from :: "uint \<Rightarrow> uint \<Rightarrow> nat \<Rightarrow> ('a kmem_state_scheme, unit) kprog" where
  "deallocuvm_from pgdir oldsz a =
     (if a < unat oldsz then
        kbind (walkpgdir pgdir (of_nat a) False) (\<lambda>pte.
        if pte = 0 then deallocuvm_from pgdir oldsz (a + 1023 * 4096 + 4096)
        else
          kbind (rd32 pte) (\<lambda>e.
          if e AND PTE_P \<noteq> 0 then
            (let pa = PTE_ADDR e in
             if pa = 0 then kpanic ''kfree''
             else kseq (kfree (p2v pa)) (kseq (wr32 pte 0) (deallocuvm_from pgdir oldsz (a + 4096))))
          else deallocuvm_from pgdir oldsz (a + 4096)))
      else kret ())"
  by pat_completeness auto
termination
  by (relation "measure (\<lambda>(pgdir, oldsz, a). unat oldsz - a)") auto

definition deallocuvm :: "uint \<Rightarrow> uint \<Rightarrow> uint \<Rightarrow> ('a kmem_state_scheme, uint) kprog" where
  "deallocuvm pgdir oldsz newsz =
     (if newsz \<ge> oldsz then kret oldsz
      else kseq (deallocuvm_from pgdir oldsz (unat (PGROUNDUP newsz))) (kret newsz))"

text \<open>The result of \<^verbatim>\<open>mappages\<close> is not looked at.\<close>

function allocuvm_from :: "uint \<Rightarrow> uint \<Rightarrow> uint \<Rightarrow> nat \<Rightarrow> ('a kmem_state_scheme, uint) kprog" where
  "allocuvm_from pgdir oldsz newsz a =
     (if a < unat newsz then
        kbind kalloc (\<lambda>mem.
        if mem = 0 then kseq (kbind (deallocuvm pgdir newsz oldsz) (\<lambda>_. kret ())) (kret 0)
        else
          kseq (kmemset mem 0 PGSIZE)
          (kbind (mappages pgdir (of_nat a) PGSIZE (v2p mem) (PTE_W OR PTE_U)) (\<lambda>_.
           allocuvm_from pgdir oldsz newsz (a + 4096))))
      else kret newsz)"
  by pat_completeness auto
termination
  by (relation "measure (\<lambda>(pgdir, oldsz, newsz, a). unat newsz - a)") auto

definition allocuvm :: "uint \<Rightarrow> uint \<Rightarrow> uint \<Rightarrow> ('a kmem_state_scheme, uint) kprog" where
  "allocuvm pgdir oldsz newsz =
     (if newsz \<ge> KERNBASE then kret 0
      else if newsz < oldsz then kret oldsz
      else allocuvm_from pgdir oldsz newsz (unat (PGROUNDUP oldsz)))"

fun freevm_from :: "uint \<Rightarrow> nat list \<Rightarrow> ('a kmem_state_scheme, unit) kprog" where
  "freevm_from pgdir [] = kret ()"
| "freevm_from pgdir (i # is) =
     kbind (rd32 (pgdir + 4 * of_nat i)) (\<lambda>e.
     kseq (if e AND PTE_P \<noteq> 0 then kfree (p2v (PTE_ADDR e)) else kret ()) (freevm_from pgdir is))"

definition freevm :: "uint \<Rightarrow> ('a kmem_state_scheme, unit) kprog" where
  "freevm pgdir =
     (if pgdir = 0 then kpanic ''freevm: no pgdir''
      else
        kbind (deallocuvm pgdir KERNBASE 0) (\<lambda>_.
        kseq (freevm_from pgdir [0..<1024]) (kfree pgdir)))"

definition clearpteu :: "uint \<Rightarrow> uint \<Rightarrow> ('a kmem_state_scheme, unit) kprog" where
  "clearpteu pgdir uva =
     kbind (walkpgdir pgdir uva False) (\<lambda>pte.
     if pte = 0 then kpanic ''clearpteu''
     else kbind (rd32 pte) (\<lambda>e. wr32 pte (e AND NOT PTE_U)))"

function copyuvm_from :: "uint \<Rightarrow> uint \<Rightarrow> uint \<Rightarrow> nat \<Rightarrow> ('a kmem_state_scheme, uint) kprog" where
  "copyuvm_from pgdir d sz i =
     (if i < unat sz then
        kbind (walkpgdir pgdir (of_nat i) False) (\<lambda>pte.
        if pte = 0 then kpanic ''copyuvm: pte should exist''
        else
          kbind (rd32 pte) (\<lambda>e.
          if e AND PTE_P = 0 then kpanic ''copyuvm: page not present''
          else
            kbind kalloc (\<lambda>mem.
            if mem = 0 then kseq (freevm d) (kret 0)
            else
              kseq (kmemmove mem (p2v (PTE_ADDR e)) PGSIZE)
              (kbind (mappages d (of_nat i) PGSIZE (v2p mem) (PTE_FLAGS e)) (\<lambda>r.
               if r < 0 then kseq (freevm d) (kret 0)
               else copyuvm_from pgdir d sz (i + 4096))))))
      else kret d)"
  by pat_completeness auto
termination
  by (relation "measure (\<lambda>(pgdir, d, sz, i). unat sz - i)") auto

definition copyuvm :: "uint \<Rightarrow> uint \<Rightarrow> ('a vm_state_scheme, uint) kprog" where
  "copyuvm pgdir sz = kbind setupkvm (\<lambda>d. if d = 0 then kret 0 else copyuvm_from pgdir d sz 0)"

text \<open>\<^verbatim>\<open>uva2ka\<close> reads through \<^verbatim>\<open>pte\<close> also when \<^verbatim>\<open>walkpgdir\<close> returned a null pointer.\<close>

definition uva2ka :: "uint \<Rightarrow> uint \<Rightarrow> ('a kmem_state_scheme, uint) kprog" where
  "uva2ka pgdir uva =
     kbind (walkpgdir pgdir uva False) (\<lambda>pte.
     kbind (rd32 pte) (\<lambda>e.
     if e AND PTE_P = 0 then kret 0
     else if e AND PTE_U = 0 then kret 0
     else kret (p2v (PTE_ADDR e))))"

lemma page_rest_pos: "0 < unat (PGSIZE - (va - PGROUNDDOWN va))"
proof -
  have d: "unat (PGROUNDDOWN va) = 4096 * (unat va div 4096)" by (rule unat_PGROUNDDOWN)
  then have "unat (PGROUNDDOWN va) \<le> unat va" by simp
  then have "unat (va - PGROUNDDOWN va) = unat va - unat (PGROUNDDOWN va)"
    by (simp add: unat_sub word_le_nat_alt)
  also have "\<dots> = unat va mod 4096" using d by (simp add: minus_mult_div_eq_mod)
  finally have "unat (va - PGROUNDDOWN va) < 4096" by simp
  then show ?thesis by (simp add: unat_sub word_le_nat_alt)
qed

function copyout_from :: "uint \<Rightarrow> uint \<Rightarrow> bytes \<Rightarrow> uint \<Rightarrow> ('a kmem_state_scheme, int) kprog" where
  "copyout_from pgdir va buf len =
     (if len > 0 then
        (let va0 = PGROUNDDOWN va in
         kbind (uva2ka pgdir va0) (\<lambda>pa0.
         if pa0 = 0 then kret (- 1)
         else
           (let n = PGSIZE - (va - va0); n = (if n > len then len else n) in
            kseq (kmod (\<lambda>s. s\<lparr>mem := put_mem (mem s) (pa0 + (va - va0)) (unat n) buf\<rparr>))
            (copyout_from pgdir (va0 + PGSIZE) (\<lambda>k. buf (unat n + k)) (len - n)))))
      else kret 0)"
  by pat_completeness auto
termination
proof (relation "measure (\<lambda>(pgdir, va, buf, len). unat len)", goal_cases)
  case (2 pgdir va buf len va0 pa0 n0 n)
  have "0 < unat n" using 2 page_rest_pos [of va] by (auto simp: word_less_nat_alt)
  moreover have "n \<le> len" using 2 by auto
  ultimately show ?case using unat_sub [of n len] 2(1) by (simp add: word_le_nat_alt word_less_nat_alt)
qed simp

definition copyout :: "uint \<Rightarrow> uint \<Rightarrow> bytes \<Rightarrow> uint \<Rightarrow> ('a kmem_state_scheme, int) kprog" where
  "copyout pgdir va p len = copyout_from pgdir va p len"

declare loaduvm_from.simps [simp del] deallocuvm_from.simps [simp del] allocuvm_from.simps [simp del]
  copyuvm_from.simps [simp del] copyout_from.simps [simp del]

definition demo_vm :: vm_state where
  "demo_vm = file_state.extend demo_file \<lparr>kdata = 0x80108000, kpgdir = 0, mycpu = cpus demo_lock 0\<rparr>"

end
