(* ===== verification/Proc.thy ===== *)
theory Proc
  imports Vm
begin

text \<open>
  Processes, \<^verbatim>\<open>proc.c\<close>. \<^verbatim>\<open>exit\<close>, \<^verbatim>\<open>yield\<close> and \<^verbatim>\<open>sleep\<close> run up to the switch to the scheduler. The scheduler is given as its scan of
  the table, the dispatch of a process up to \<^verbatim>\<open>swtch\<close>, and what follows when the process switches back. The addresses of
  the assembly routines \<^verbatim>\<open>forkret\<close> and \<^verbatim>\<open>trapret\<close> and of the binary \<^verbatim>\<open>initcode\<close>, assigned by the linker, are fields that nothing
  changes. The contents of the trap frame, at the top of the kernel stack in C, are the field \<open>p_tf\<close>; a new kernel
  stack's frame is uninitialised until \<^verbatim>\<open>userinit\<close> or \<^verbatim>\<open>fork\<close> fills it.
\<close>

record proc_state = vm_state +
  sym_forkret :: uint
  sym_trapret :: uint
  sym_initcode :: uint
  sym_initcode_size :: uint
  forkret_first :: bool
  ticks :: uint

abbreviation (input) FL_IF :: uint where "FL_IF \<equiv> 0x200"

definition get_proc :: "nat \<Rightarrow> ('a ptable_state_scheme, proc) kprog" where
  "get_proc p = kget (\<lambda>s. ptab s p)"

definition set_proc :: "nat \<Rightarrow> (proc \<Rightarrow> proc) \<Rightarrow> ('a ptable_state_scheme, unit) kprog" where
  "set_proc p f = kmod (upd_proc p f)"

section \<open>Creating processes\<close>

definition allocproc :: "('a proc_state_scheme, nat option) kprog" where
  "allocproc =
     kbind (kget (\<lambda>s. find (\<lambda>p. p_state (ptab s p) = UNUSED) [0..<NPROC])) (\<lambda>r.
     case r of
       None \<Rightarrow> kret None
     | Some p \<Rightarrow>
         kbind (kget nextpid) (\<lambda>pid.
         kseq (set_proc p (\<lambda>q. q\<lparr>p_state := EMBRYO, p_pid := pid\<rparr>))
         (kseq (kmod (\<lambda>s. s\<lparr>nextpid := pid + 1\<rparr>))
         (kseq (set_proc p (\<lambda>q. q\<lparr>p_handler := (\<lambda>i. if i < 256 then - 1 else p_handler q i)\<rparr>))
         (kbind kalloc (\<lambda>kstack.
         kseq (set_proc p (\<lambda>q. q\<lparr>p_kstack := kstack\<rparr>))
         (if kstack = 0 then kseq (set_proc p (\<lambda>q. q\<lparr>p_state := UNUSED\<rparr>)) (kret None)
          else
            (let sp = kstack + KSTACKSIZE - 76 - 4; context = sp - 20 in
             kbind (kget sym_trapret) (\<lambda>trapret.
             kbind (kget sym_forkret) (\<lambda>forkret.
             kseq (wr32 sp trapret)
             (kseq (set_proc p (\<lambda>q. q\<lparr>p_context := context\<rparr>))
             (kseq (kmemset context 0 20)
             (kseq (wr32 (context + 16) forkret)
             (kret (Some p)))))))))))))))"

definition initcode_name :: cstr where
  "initcode_name = [105, 110, 105, 116, 99, 111, 100, 101]"

definition user_tf :: "trapframe \<Rightarrow> trapframe" where
  "user_tf tf = tf\<lparr>edi := 0, esi := 0, ebp := 0, oesp := 0, ebx := 0, edx := 0, ecx := 0, eax := 0, tf_gs := 0, tf_fs := 0,
     trapno := 0, tf_err := 0,
     tf_cs := push_bit 3 (of_nat SEG_UCODE) OR 3, tf_ds := push_bit 3 (of_nat SEG_UDATA) OR 3,
     tf_es := push_bit 3 (of_nat SEG_UDATA) OR 3, tf_ss := push_bit 3 (of_nat SEG_UDATA) OR 3,
     eflags := FL_IF, esp := PGSIZE, eip := 0\<rparr>"

definition userinit :: "('a proc_state_scheme) devsw \<Rightarrow> ('a proc_state_scheme, unit) kprog" where
  "userinit dv =
     kbind allocproc (\<lambda>r.
     kseq (kmod (\<lambda>s. s\<lparr>initproc := r\<rparr>))
     (case r of
        None \<Rightarrow> kpanic ''trap''
      | Some p \<Rightarrow>
          kbind setupkvm (\<lambda>pgdir.
          kseq (set_proc p (\<lambda>q. q\<lparr>p_pgdir := pgdir\<rparr>))
          (if pgdir = 0 then kpanic ''userinit: out of memory?''
           else
             kbind (kget sym_initcode) (\<lambda>init.
             kbind (kget sym_initcode_size) (\<lambda>sz.
             kseq (inituvm pgdir init sz)
             (kseq (set_proc p (\<lambda>q. q\<lparr>p_sz := PGSIZE, p_tf := user_tf (p_tf q),
                p_name := safestrcpy (p_name q) (cbytes initcode_name) 16\<rparr>))
             (kbind (namei dv [SLASH]) (\<lambda>cwd.
              set_proc p (\<lambda>q. q\<lparr>p_cwd := cwd, p_state := RUNNABLE\<rparr>)))))))))) "

definition growproc :: "int \<Rightarrow> ('a proc_state_scheme, int) kprog" where
  "growproc n =
     kbind myproc (\<lambda>p.
     kbind (get_proc p) (\<lambda>q.
     kbind (if n > 0 then allocuvm (p_pgdir q) (p_sz q) (p_sz q + of_int n)
            else if n < 0 then deallocuvm (p_pgdir q) (p_sz q) (p_sz q + of_int n)
            else kret (p_sz q)) (\<lambda>sz.
     if n \<noteq> 0 \<and> sz = 0 then kret (- 1)
     else kseq (set_proc p (\<lambda>q. q\<lparr>p_sz := sz\<rparr>)) (kseq (switchuvm p) (kret 0)))))"

fun fork_files :: "nat \<Rightarrow> nat \<Rightarrow> nat list \<Rightarrow> ('a file_state_scheme, unit) kprog" where
  "fork_files p np [] = kret ()"
| "fork_files p np (i # is) =
     kbind (get_proc p) (\<lambda>q.
     kseq (case p_ofile q i of
         None \<Rightarrow> kret ()
       | Some f \<Rightarrow> kbind (filedup f) (\<lambda>f. set_proc np (\<lambda>r. r\<lparr>p_ofile := (p_ofile r)(i := Some f)\<rparr>)))
     (fork_files p np is))"

definition fork :: "('a proc_state_scheme, int) kprog" where
  "fork =
     kbind myproc (\<lambda>p.
     kbind allocproc (\<lambda>r.
     case r of
       None \<Rightarrow> kret (- 1)
     | Some np \<Rightarrow>
         kbind (get_proc p) (\<lambda>q.
         kbind (copyuvm (p_pgdir q) (p_sz q)) (\<lambda>pgdir.
         kseq (set_proc np (\<lambda>r. r\<lparr>p_pgdir := pgdir\<rparr>))
         (if pgdir = 0 then
            kbind (get_proc np) (\<lambda>r.
            kseq (kfree (p_kstack r))
            (kseq (set_proc np (\<lambda>r. r\<lparr>p_kstack := 0, p_state := UNUSED\<rparr>)) (kret (- 1))))
          else
            kseq (set_proc np (\<lambda>r. r\<lparr>p_sz := p_sz q, p_parent := Some p, p_tf := (p_tf q)\<lparr>eax := 0\<rparr>\<rparr>))
            (kseq (fork_files p np [0..<NOFILE])
            (kbind (case p_cwd q of None \<Rightarrow> kpanic ''trap'' | Some ip \<Rightarrow> idup ip) (\<lambda>cwd.
            kseq (set_proc np (\<lambda>r. r\<lparr>p_cwd := Some cwd, p_name := safestrcpy (p_name r) (p_name q) 16\<rparr>))
            (kbind (get_proc np) (\<lambda>r.
            kseq (set_proc np (\<lambda>r. r\<lparr>p_state := RUNNABLE\<rparr>)) (kret (p_pid r))))))))))))"

section \<open>Ending processes\<close>

fun exit_files :: "nat \<Rightarrow> nat list \<Rightarrow> ('a file_state_scheme, unit) kprog" where
  "exit_files p [] = kret ()"
| "exit_files p (fd # fds) =
     kbind (get_proc p) (\<lambda>q.
     kseq (case p_ofile q fd of
         None \<Rightarrow> kret ()
       | Some f \<Rightarrow> kseq (fileclose f) (set_proc p (\<lambda>q. q\<lparr>p_ofile := (p_ofile q)(fd := None)\<rparr>)))
     (exit_files p fds))"

fun reparent :: "nat \<Rightarrow> nat list \<Rightarrow> 'a ptable_state_scheme \<Rightarrow> 'a ptable_state_scheme" where
  "reparent p [] s = s"
| "reparent p (c # cs) s =
     (if p_parent (ptab s c) = Some p then
        (let s = upd_proc c (\<lambda>q. q\<lparr>p_parent := initproc s\<rparr>) s in
         reparent p cs (if p_state (ptab s c) = ZOMBIE
           then (case initproc s of Some i \<Rightarrow> wakeup1 (ChanProc i) s | None \<Rightarrow> s) else s))
      else reparent p cs s)"

definition exit :: "('a proc_state_scheme, 'b) kprog" where
  "exit =
     kbind myproc (\<lambda>p.
     kbind (kget initproc) (\<lambda>init.
     if init = Some p then kpanic ''init exiting''
     else
       kseq (exit_files p [0..<NOFILE])
       (kseq begin_op
       (kbind (get_proc p) (\<lambda>q.
       kseq (case p_cwd q of None \<Rightarrow> kpanic ''trap'' | Some ip \<Rightarrow> iput ip)
       (kseq end_op
       (kseq (set_proc p (\<lambda>q. q\<lparr>p_cwd := None\<rparr>))
       (kseq (case p_parent q of None \<Rightarrow> kret () | Some c \<Rightarrow> kmod (wakeup1 (ChanProc c)))
       (kseq (kmod (reparent p [0..<NPROC]))
       (kseq (set_proc p (\<lambda>q. q\<lparr>p_state := ZOMBIE\<rparr>))
       (Sleeps SwitchExit)))))))))))"

text \<open>One scan of the table by \<^verbatim>\<open>wait\<close>: the first zombie child is freed.\<close>

fun wait_scan :: "nat \<Rightarrow> nat list \<Rightarrow> bool \<Rightarrow> ('a ptable_state_scheme, int option \<times> bool) kprog" where
  "wait_scan p [] havekids = kret (None, havekids)"
| "wait_scan p (c # cs) havekids =
     kbind (get_proc c) (\<lambda>q.
     if p_parent q \<noteq> Some p then wait_scan p cs havekids
     else if p_state q = ZOMBIE then
       kseq (kfree (p_kstack q))
       (kseq (set_proc c (\<lambda>q. q\<lparr>p_kstack := 0\<rparr>))
       (kseq (freevm (p_pgdir q))
       (kseq (set_proc c (\<lambda>q. q\<lparr>p_state := UNUSED, p_pid := 0, p_parent := None, p_name := (p_name q)(0 := 0), p_killed := False\<rparr>))
       (kret (Some (p_pid q), True)))))
     else wait_scan p cs True)"

definition wait :: "('a proc_state_scheme, int) kprog" where
  "wait =
     kbind myproc (\<lambda>p.
     kbind (wait_scan p [0..<NPROC] False) (\<lambda>(r, havekids).
     case r of
       Some pid \<Rightarrow> kret pid
     | None \<Rightarrow>
         kbind (get_proc p) (\<lambda>q.
         if \<not> havekids \<or> p_killed q then kret (- 1) else sleep (ChanProc p))))"

section \<open>The scheduler\<close>

text \<open>The next process the loop over the table dispatches, from position \<open>i\<close> of the table on.\<close>

definition sched_next :: "'a ptable_state_scheme \<Rightarrow> nat \<Rightarrow> nat option" where
  "sched_next s i = find (\<lambda>p. p_state (ptab s p) = RUNNABLE) [i..<NPROC]"

definition sched_dispatch :: "nat \<Rightarrow> ('a proc_state_scheme, unit) kprog" where
  "sched_dispatch p =
     kseq (kmod (\<lambda>s. s\<lparr>cur := Some p\<rparr>))
     (kseq (switchuvm p) (set_proc p (\<lambda>q. q\<lparr>p_state := RUNNING\<rparr>)))"

definition sched_return :: "('a proc_state_scheme, unit) kprog" where
  "sched_return = kseq switchkvm (kmod (\<lambda>s. s\<lparr>cur := None\<rparr>))"

text \<open>\<^verbatim>\<open>sched\<close>'s checks before it switches; \<open>holds\<close> is the value of \<^verbatim>\<open>holding(&ptable.lock)\<close>.\<close>

definition sched :: "bool \<Rightarrow> ('a proc_state_scheme, unit) kprog" where
  "sched holds =
     kbind myproc (\<lambda>p.
     kbind (get_proc p) (\<lambda>q.
     kbind (kget mycpu) (\<lambda>c.
     if \<not> holds then kpanic ''sched ptable.lock''
     else if c_ncli c \<noteq> 1 then kpanic ''sched locks''
     else if p_state q = RUNNING then kpanic ''sched running''
     else if c_if c then kpanic ''sched interruptible''
     else kret ())))"

definition yield :: "('a ptable_state_scheme, 'b) kprog" where
  "yield = kbind myproc (\<lambda>p. kseq (set_proc p (\<lambda>q. q\<lparr>p_state := RUNNABLE\<rparr>)) (Sleeps SwitchYield))"

definition forkret :: "('a proc_state_scheme, unit) kprog" where
  "forkret =
     kbind (kget forkret_first) (\<lambda>first.
     if first then kseq (kmod (\<lambda>s. s\<lparr>forkret_first := False\<rparr>)) initlog else kret ())"

definition demo_proc :: proc_state where
  "demo_proc = vm_state.extend demo_vm \<lparr>sym_forkret = 0x80103000, sym_trapret = 0x80106000, sym_initcode = 0x8010b000,
     sym_initcode_size = 44, forkret_first = True, ticks = 0\<rparr>"

end
