(* ===== verification/Printf.thy ===== *)
theory Printf
  imports Fs_Dir
begin

text \<open>
  Number conversion, which \<^verbatim>\<open>printf.c\<close> and \<^verbatim>\<open>console.c\<close> both do in a routine \<^verbatim>\<open>printint\<close>, and the user library's \<^verbatim>\<open>printf\<close>. The output
  of \<^verbatim>\<open>printf\<close> is the list of the bytes it passes to \<^verbatim>\<open>write\<close>, one call each. The variable arguments are values of \<open>fmt_arg\<close>;
  where the C code would read past the arguments it was given, the model's result is \<open>None\<close>.
\<close>

section \<open>Digits\<close>

text \<open>The loop that fills \<^verbatim>\<open>buf\<close>, least significant digit first. The bases used are 10 and 16; for the others the loop would not end.\<close>

function digits_from :: "(nat \<Rightarrow> uchar) \<Rightarrow> uint \<Rightarrow> uint \<Rightarrow> cstr" where
  "digits_from dg x base =
     (if base < 2 \<or> x div base = 0 then [dg (unat (x mod base))]
      else dg (unat (x mod base)) # digits_from dg (x div base) base)"
  by pat_completeness auto
termination
proof (relation "measure (\<lambda>(dg, x, base). unat x)", goal_cases)
  case (2 dg x base)
  then have b: "2 \<le> unat base" by (simp add: word_less_nat_alt not_less)
  have "x \<noteq> 0" using 2 by auto
  then have "0 < unat x" by (simp add: unat_gt_0)
  then have "unat x div unat base < unat x" using b by (intro div_less_dividend) auto
  then show ?case by (simp add: unat_div)
qed simp

declare digits_from.simps [simp del]

definition lower_digits :: "nat \<Rightarrow> uchar" where
  "lower_digits d = (if d < 10 then 48 + of_nat d else 87 + of_nat d)"

definition upper_digits :: "nat \<Rightarrow> uchar" where
  "upper_digits d = (if d < 10 then 48 + of_nat d else 55 + of_nat d)"

text \<open>The characters in the order they are printed: the buffer is emptied from its end.\<close>

definition itoa :: "(nat \<Rightarrow> uchar) \<Rightarrow> uint \<Rightarrow> uint \<Rightarrow> bool \<Rightarrow> cstr" where
  "itoa dg xx base sg =
     (let neg = (sg \<and> xx <s 0); x = (if neg then - xx else xx) in
      rev (digits_from dg x base @ (if neg then [45] else [])))"

section \<open>printf of the user library\<close>

definition printint :: "uint \<Rightarrow> uint \<Rightarrow> bool \<Rightarrow> cstr" where
  "printint xx base sg = itoa upper_digits xx base sg"

text \<open>An argument: a word, or a pointer to a string (\<open>None\<close> is the null pointer).\<close>

datatype fmt_arg = AInt uint | AStr "cstr option"

definition null_str :: cstr where
  "null_str = [40, 110, 117, 108, 108, 41]"

text \<open>\<open>st\<close>: the last character was an unescaped percent sign.\<close>

fun printf_from :: "cstr \<Rightarrow> bool \<Rightarrow> fmt_arg list \<Rightarrow> cstr option" where
  "printf_from [] st ap = Some []"
| "printf_from (c # fmt) False ap =
     (if c = 37 then printf_from fmt True ap
      else map_option (\<lambda>r. c # r) (printf_from fmt False ap))"
| "printf_from (c # fmt) True ap =
     (if c = 100 then
        (case ap of AInt x # ap \<Rightarrow> map_option (\<lambda>r. printint x 10 True @ r) (printf_from fmt False ap) | _ \<Rightarrow> None)
      else if c = 120 \<or> c = 112 then
        (case ap of AInt x # ap \<Rightarrow> map_option (\<lambda>r. printint x 16 False @ r) (printf_from fmt False ap) | _ \<Rightarrow> None)
      else if c = 115 then
        (case ap of AStr s # ap \<Rightarrow> map_option (\<lambda>r. (case s of None \<Rightarrow> null_str | Some s \<Rightarrow> s) @ r) (printf_from fmt False ap) | _ \<Rightarrow> None)
      else if c = 99 then
        (case ap of AInt x # ap \<Rightarrow> map_option (\<lambda>r. ucast x # r) (printf_from fmt False ap) | _ \<Rightarrow> None)
      else if c = 37 then map_option (\<lambda>r. c # r) (printf_from fmt False ap)
      else map_option (\<lambda>r. 37 # c # r) (printf_from fmt False ap))"

definition printf :: "cstr \<Rightarrow> fmt_arg list \<Rightarrow> cstr option" where
  "printf fmt args = printf_from fmt False args"

section \<open>The printed digits denote the number\<close>

text \<open>Reference: the value of a string of digits, most significant first, by Horner's rule.\<close>

definition digit_val :: "uchar \<Rightarrow> nat" where
  "digit_val c = (if c < 58 then unat c - 48 else if c < 91 then unat c - 55 else unat c - 87)"

definition num_val :: "nat \<Rightarrow> cstr \<Rightarrow> nat" where
  "num_val base ds = foldl (\<lambda>v c. v * base + digit_val c) 0 ds"

lemma num_val_snoc: "num_val base (ds @ [d]) = num_val base ds * base + digit_val d"
  by (simp add: num_val_def)

definition digit_fun :: "(nat \<Rightarrow> uchar) \<Rightarrow> bool" where
  "digit_fun dg \<longleftrightarrow> (\<forall>d < 16. digit_val (dg d) = d \<and> dg d \<noteq> 45)"

lemma all_lt_16: "(\<forall>d < 16. P d) \<longleftrightarrow> list_all P [0, 1, 2, 3, 4, 5, 6, 7, 8, 9, 10, 11, 12, 13, 14, 15 :: nat]"
proof -
  have "[0..<16] = [0, 1, 2, 3, 4, 5, 6, 7, 8, 9, 10, 11, 12, 13, 14, 15 :: nat]" by code_simp
  moreover have "(\<forall>d < 16. P d) \<longleftrightarrow> list_all P [0..<16]" by (auto simp: list_all_iff)
  ultimately show ?thesis by (simp only:)
qed

lemma digit_fun_lower: "digit_fun lower_digits"
  unfolding digit_fun_def all_lt_16 list.pred_inject by (simp add: digit_val_def lower_digits_def)

lemma digit_fun_upper: "digit_fun upper_digits"
  unfolding digit_fun_def all_lt_16 list.pred_inject by (simp add: digit_val_def upper_digits_def)

lemma digits_val:
  assumes dg: "digit_fun dg" and b: "2 \<le> unat base" "unat base \<le> 16"
  shows "num_val (unat base) (rev (digits_from dg x base)) = unat x"
proof (induction "unat x" arbitrary: x rule: less_induct)
  case less
  have "unat (x mod base) < 16" using b mod_less_divisor [of "unat base" "unat x"] unfolding unat_mod by linarith
  then have d: "digit_val (dg (unat (x mod base))) = unat x mod unat base" using dg by (simp add: digit_fun_def unat_mod)
  have nb: "\<not> base < 2" using b by (simp add: word_less_nat_alt)
  show ?case
  proof (cases "x div base = 0")
    case True
    then have "unat x div unat base = 0" by (metis unat_0 unat_div)
    then have "unat x mod unat base = unat x" by (metis add_0 mult_zero_left div_mult_mod_eq)
    then show ?thesis using True d by (subst digits_from.simps) (simp add: num_val_def)
  next
    case False
    then have "0 < unat x div unat base" by (metis neq0_conv unat_div unat_eq_0)
    then have "0 < unat x" by (metis bot_nat_0.not_eq_extremum div_0)
    then have "unat (x div base) < unat x" using b by (simp add: unat_div)
    from less [OF this] show ?thesis using False nb d
      by (subst digits_from.simps) (simp add: num_val_snoc unat_div)
  qed
qed

lemma digits_length:
  assumes b: "2 \<le> unat base"
  shows "digits_from dg x base \<noteq> [] \<and> (length (digits_from dg x base) = 1 \<or> unat base ^ (length (digits_from dg x base) - 1) \<le> unat x)"
proof (induction "unat x" arbitrary: x rule: less_induct)
  case less
  have nb: "\<not> base < 2" using b by (simp add: word_less_nat_alt)
  show ?case
  proof (cases "x div base = 0")
    case True
    then show ?thesis by (subst (1 2 3) digits_from.simps) simp
  next
    case False
    let ?l = "length (digits_from dg (x div base) base)"
    have q: "0 < unat x div unat base" using False by (metis neq0_conv unat_div unat_eq_0)
    then have "0 < unat x" by (metis bot_nat_0.not_eq_extremum div_0)
    then have "unat (x div base) < unat x" using b by (simp add: unat_div)
    from less [OF this] have ih: "0 < ?l" "?l = 1 \<or> unat base ^ (?l - 1) \<le> unat x div unat base" by (auto simp: unat_div)
    then have "unat base ^ (?l - 1) \<le> unat x div unat base" using q by auto
    then have "unat base ^ (?l - 1) * unat base \<le> unat x" using b by (simp add: less_eq_div_iff_mult_less_eq)
    then have "unat base ^ ?l \<le> unat x" using ih(1) by (metis Suc_diff_1 mult.commute power_Suc)
    then show ?thesis using False nb by (subst (1 2 3) digits_from.simps) simp
  qed
qed

lemma digits_short:
  assumes "10 \<le> unat base"
  shows "length (digits_from dg x base) \<le> 10"
proof (rule ccontr)
  assume "\<not> length (digits_from dg x base) \<le> 10"
  then have l: "10 \<le> length (digits_from dg x base) - 1" "length (digits_from dg x base) \<noteq> 1" by simp_all
  have "unat base ^ (length (digits_from dg x base) - 1) \<le> unat x" using digits_length [of base dg x] assms l(2) by auto
  moreover have "unat base ^ 10 \<le> unat base ^ (length (digits_from dg x base) - 1)" using l(1) assms by (intro power_increasing) auto
  moreover have "(10 :: nat) ^ 10 \<le> unat base ^ 10" using assms by (rule power_mono) simp
  ultimately have "(10 :: nat) ^ 10 \<le> unat x" by linarith
  then show False using unsigned_less [of x, where 'a = nat] by simp
qed

lemma unat_neg_sint: "(x :: uint) <s 0 \<Longrightarrow> int (unat (- x)) = - sint x"
proof -
  assume "x <s 0"
  then have neg: "sint x < 0" by (simp add: word_sless_alt)
  have "- (2 ^ 31) \<le> sint x" using sint_ge [of x] by simp
  then have "(- sint x) mod 2 ^ 32 = - sint x" using neg by (intro mod_pos_pos_trivial) auto
  moreover have "uint (- x) = (- sint x) mod 2 ^ 32"
  proof -
    have "- x = word_of_int (- sint x)" by simp
    then have "uint (- x) = uint (word_of_int (- sint x) :: uint)" by (rule arg_cong)
    then show ?thesis by (simp only: uint_word_of_int take_bit_eq_mod) simp
  qed
  ultimately show ?thesis by simp
qed

section \<open>Properties\<close>

text \<open>
  C40: \<^verbatim>\<open>printint\<close> prints the number it is given: the digits, read back, are the value of the argument (the absolute value
  after a minus sign for a negative signed argument, also for the smallest integer), and its characters fit the 16-byte buffer.
\<close>

theorem printint_denotes:
  assumes base: "base = 10 \<or> base = 16"
  shows "if sg \<and> xx <s 0
    then \<exists>ds. printint xx base sg = 45 # ds \<and> int (num_val (unat base) ds) = - sint xx \<and> length (45 # ds) \<le> 16
    else num_val (unat base) (printint xx base sg) = unat xx \<and> length (printint xx base sg) \<le> 16"
proof -
  have b: "2 \<le> unat base" "unat base \<le> 16" "10 \<le> unat base" using base by auto
  note v = digits_val [OF digit_fun_upper b(1,2)] and l = digits_short [OF b(3), of upper_digits]
  show ?thesis
  proof (cases "sg \<and> xx <s 0")
    case True
    then show ?thesis using v [of "- xx"] l [of "- xx"] unat_neg_sint [of xx] by (simp add: printint_def itoa_def Let_def)
  next
    case False
    have "length (digits_from upper_digits xx base) \<le> 16" using l [of xx] by simp
    moreover have n: "(sg \<and> xx <s 0) = False" using False by simp
    ultimately show ?thesis unfolding printint_def itoa_def Let_def n if_False using v [of xx] by simp
  qed
qed

theorem printint_denotes_witness:
  "printint (- 42) 10 True = [45, 52, 50] \<and> (\<exists>ds. printint (- 42) 10 True = 45 # ds \<and> int (num_val 10 ds) = 42)"
proof -
  have "(- 42 :: uint) <s 0" by (simp add: word_sless_alt)
  then have "\<exists>ds. printint (- 42) 10 True = 45 # ds \<and> int (num_val 10 ds) = - sint (- 42 :: uint)"
    using printint_denotes [of 10 True "- 42"] by auto
  moreover have "printint (- 42) 10 True = [45, 52, 50]"
    by (simp add: printint_def itoa_def digits_from.simps upper_digits_def word_sless_alt)
  ultimately show ?thesis by simp
qed

end
