(* ===== verification/Hw.thy ===== *)
theory Hw
  imports Proc Printf
begin

text \<open>
  Device access: the 8259A interrupt controllers (\<^verbatim>\<open>picirq.c\<close>), the I/O APIC (\<^verbatim>\<open>ioapic.c\<close>), the local APIC and the CMOS clock
  (\<^verbatim>\<open>lapic.c\<close>), the timer (\<^verbatim>\<open>timer.c\<close>) and the serial port (\<^verbatim>\<open>uart.c\<close>). The devices are the environment: what they return may
  depend on everything the kernel has done to them so far, so every access is recorded in \<open>iolog\<close> and the value read
  is a function of that history (\<open>dev_in\<close>, \<open>dev_mmio\<close>, \<open>dev_data\<close>). Loops that wait for a device have a bound on the number of
  polls as their first argument; when it is used up the result is the panic \<open>spin\<close>.
\<close>

datatype io = InB ushort uchar | OutB ushort uchar | OutW ushort ushort | MRead uint uint | MWrite uint uint
  | InData bytes | OutData bytes

record io_state = proc_state +
  iolog :: "io list"
  dev_in :: "io list \<Rightarrow> ushort \<Rightarrow> uchar"
  dev_mmio :: "io list \<Rightarrow> uint \<Rightarrow> uint"
  dev_data :: "io list \<Rightarrow> bytes"
  irqmask :: ushort
  ismp :: bool
  ncpu :: nat
  ioapicid :: uchar
  lapic :: uint
  uart :: bool

definition inb :: "ushort \<Rightarrow> ('a io_state_scheme, uchar) kprog" where
  "inb port = kbind (kget (\<lambda>s. dev_in s (iolog s) port)) (\<lambda>v.
     kseq (kmod (\<lambda>s. s\<lparr>iolog := iolog s @ [InB port v]\<rparr>)) (kret v))"

definition outb :: "ushort \<Rightarrow> uchar \<Rightarrow> ('a io_state_scheme, unit) kprog" where
  "outb port v = kmod (\<lambda>s. s\<lparr>iolog := iolog s @ [OutB port v]\<rparr>)"

definition outw :: "ushort \<Rightarrow> ushort \<Rightarrow> ('a io_state_scheme, unit) kprog" where
  "outw port v = kmod (\<lambda>s. s\<lparr>iolog := iolog s @ [OutW port v]\<rparr>)"

definition insl_block :: "('a io_state_scheme, bytes) kprog" where
  "insl_block = kbind (kget (\<lambda>s. dev_data s (iolog s))) (\<lambda>d.
     kseq (kmod (\<lambda>s. s\<lparr>iolog := iolog s @ [InData d]\<rparr>)) (kret d))"

definition outsl_block :: "bytes \<Rightarrow> ('a io_state_scheme, unit) kprog" where
  "outsl_block d = kmod (\<lambda>s. s\<lparr>iolog := iolog s @ [OutData d]\<rparr>)"

definition mmio_read :: "uint \<Rightarrow> ('a io_state_scheme, uint) kprog" where
  "mmio_read a = kbind (kget (\<lambda>s. dev_mmio s (iolog s) a)) (\<lambda>v.
     kseq (kmod (\<lambda>s. s\<lparr>iolog := iolog s @ [MRead a v]\<rparr>)) (kret v))"

definition mmio_write :: "uint \<Rightarrow> uint \<Rightarrow> ('a io_state_scheme, unit) kprog" where
  "mmio_write a v = kmod (\<lambda>s. s\<lparr>iolog := iolog s @ [MWrite a v]\<rparr>)"

fun outbs :: "(ushort \<times> uchar) list \<Rightarrow> ('a io_state_scheme, unit) kprog" where
  "outbs [] = kret ()"
| "outbs ((p, v) # ps) = kseq (outb p v) (outbs ps)"

abbreviation (input) T_IRQ0 :: uint where "T_IRQ0 \<equiv> 32"
abbreviation (input) IRQ_TIMER :: nat where "IRQ_TIMER \<equiv> 0"
abbreviation (input) IRQ_KBD :: nat where "IRQ_KBD \<equiv> 1"
abbreviation (input) IRQ_COM1 :: nat where "IRQ_COM1 \<equiv> 4"
abbreviation (input) IRQ_IDE :: nat where "IRQ_IDE \<equiv> 14"
abbreviation (input) IRQ_ERROR :: nat where "IRQ_ERROR \<equiv> 19"
abbreviation (input) IRQ_SPURIOUS :: nat where "IRQ_SPURIOUS \<equiv> 31"

section \<open>Interrupt controllers (picirq.c)\<close>

abbreviation (input) IO_PIC1 :: ushort where "IO_PIC1 \<equiv> 0x20"
abbreviation (input) IO_PIC2 :: ushort where "IO_PIC2 \<equiv> 0xA0"
abbreviation (input) IRQ_SLAVE :: nat where "IRQ_SLAVE \<equiv> 2"

definition picsetmask :: "ushort \<Rightarrow> ('a io_state_scheme, unit) kprog" where
  "picsetmask m =
     kseq (kmod (\<lambda>s. s\<lparr>irqmask := m\<rparr>))
     (kseq (outb (IO_PIC1 + 1) (ucast m)) (outb (IO_PIC2 + 1) (ucast (drop_bit 8 m))))"

definition picenable :: "nat \<Rightarrow> ('a io_state_scheme, unit) kprog" where
  "picenable irq = kbind (kget irqmask) (\<lambda>m. picsetmask (m AND NOT (push_bit irq 1)))"

definition picinit :: "('a io_state_scheme, unit) kprog" where
  "picinit =
     kseq (outbs
       [(IO_PIC1 + 1, 0xFF), (IO_PIC2 + 1, 0xFF),
        (IO_PIC1, 0x11), (IO_PIC1 + 1, 32), (IO_PIC1 + 1, push_bit IRQ_SLAVE 1), (IO_PIC1 + 1, 0x3),
        (IO_PIC2, 0x11), (IO_PIC2 + 1, 32 + 8), (IO_PIC2 + 1, of_nat IRQ_SLAVE), (IO_PIC2 + 1, 0x3),
        (IO_PIC1, 0x68), (IO_PIC1, 0x0a), (IO_PIC2, 0x68), (IO_PIC2, 0x0a)])
     (kbind (kget irqmask) (\<lambda>m. if m \<noteq> 0xFFFF then picsetmask m else kret ()))"

section \<open>I/O APIC (ioapic.c)\<close>

abbreviation (input) IOAPIC :: uint where "IOAPIC \<equiv> 0xFEC00000"
abbreviation (input) REG_ID :: uint where "REG_ID \<equiv> 0"
abbreviation (input) REG_VER :: uint where "REG_VER \<equiv> 1"
abbreviation (input) REG_TABLE :: uint where "REG_TABLE \<equiv> 0x10"
abbreviation (input) INT_DISABLED :: uint where "INT_DISABLED \<equiv> 0x00010000"

definition ioapicread :: "uint \<Rightarrow> ('a io_state_scheme, uint) kprog" where
  "ioapicread reg = kseq (mmio_write IOAPIC reg) (mmio_read (IOAPIC + 16))"

definition ioapicwrite :: "uint \<Rightarrow> uint \<Rightarrow> ('a io_state_scheme, unit) kprog" where
  "ioapicwrite reg data = kseq (mmio_write IOAPIC reg) (mmio_write (IOAPIC + 16) data)"

fun ioapic_mask :: "nat list \<Rightarrow> ('a io_state_scheme, unit) kprog" where
  "ioapic_mask [] = kret ()"
| "ioapic_mask (i # is) =
     kseq (ioapicwrite (REG_TABLE + 2 * of_nat i) (INT_DISABLED OR (T_IRQ0 + of_nat i)))
     (kseq (ioapicwrite (REG_TABLE + 2 * of_nat i + 1) 0) (ioapic_mask is))"

definition ioapicinit :: "('a io_state_scheme, unit) kprog" where
  "ioapicinit =
     kbind (kget ismp) (\<lambda>mp.
     if \<not> mp then kret ()
     else
       kbind (ioapicread REG_VER) (\<lambda>v.
       kbind (ioapicread REG_ID) (\<lambda>id.
       ioapic_mask [0..<unat (drop_bit 16 v AND 0xFF) + 1])))"

definition ioapicenable :: "nat \<Rightarrow> nat \<Rightarrow> ('a io_state_scheme, unit) kprog" where
  "ioapicenable irq cpunum =
     kbind (kget ismp) (\<lambda>mp.
     if \<not> mp then kret ()
     else
       kseq (ioapicwrite (REG_TABLE + 2 * of_nat irq) (T_IRQ0 + of_nat irq))
       (ioapicwrite (REG_TABLE + 2 * of_nat irq + 1) (push_bit 24 (of_nat cpunum))))"

section \<open>Local APIC and clock (lapic.c)\<close>

abbreviation (input) L_ID :: uint where "L_ID \<equiv> 0x0020 div 4"
abbreviation (input) L_VER :: uint where "L_VER \<equiv> 0x0030 div 4"
abbreviation (input) L_TPR :: uint where "L_TPR \<equiv> 0x0080 div 4"
abbreviation (input) L_EOI :: uint where "L_EOI \<equiv> 0x00B0 div 4"
abbreviation (input) L_SVR :: uint where "L_SVR \<equiv> 0x00F0 div 4"
abbreviation (input) L_ESR :: uint where "L_ESR \<equiv> 0x0280 div 4"
abbreviation (input) L_ICRLO :: uint where "L_ICRLO \<equiv> 0x0300 div 4"
abbreviation (input) L_ICRHI :: uint where "L_ICRHI \<equiv> 0x0310 div 4"
abbreviation (input) L_TIMER :: uint where "L_TIMER \<equiv> 0x0320 div 4"
abbreviation (input) L_PCINT :: uint where "L_PCINT \<equiv> 0x0340 div 4"
abbreviation (input) L_LINT0 :: uint where "L_LINT0 \<equiv> 0x0350 div 4"
abbreviation (input) L_LINT1 :: uint where "L_LINT1 \<equiv> 0x0360 div 4"
abbreviation (input) L_ERROR :: uint where "L_ERROR \<equiv> 0x0370 div 4"
abbreviation (input) L_TICR :: uint where "L_TICR \<equiv> 0x0380 div 4"
abbreviation (input) L_TDCR :: uint where "L_TDCR \<equiv> 0x03E0 div 4"
abbreviation (input) L_ENABLE :: uint where "L_ENABLE \<equiv> 0x00000100"
abbreviation (input) L_INIT :: uint where "L_INIT \<equiv> 0x00000500"
abbreviation (input) L_STARTUP :: uint where "L_STARTUP \<equiv> 0x00000600"
abbreviation (input) L_DELIVS :: uint where "L_DELIVS \<equiv> 0x00001000"
abbreviation (input) L_ASSERT :: uint where "L_ASSERT \<equiv> 0x00004000"
abbreviation (input) L_LEVEL :: uint where "L_LEVEL \<equiv> 0x00008000"
abbreviation (input) L_BCAST :: uint where "L_BCAST \<equiv> 0x00080000"
abbreviation (input) L_X1 :: uint where "L_X1 \<equiv> 0x0000000B"
abbreviation (input) L_PERIODIC :: uint where "L_PERIODIC \<equiv> 0x00020000"
abbreviation (input) L_MASKED :: uint where "L_MASKED \<equiv> 0x00010000"

definition lapic_read :: "uint \<Rightarrow> ('a io_state_scheme, uint) kprog" where
  "lapic_read index = kbind (kget lapic) (\<lambda>a. mmio_read (a + 4 * index))"

definition lapicw :: "uint \<Rightarrow> uint \<Rightarrow> ('a io_state_scheme, unit) kprog" where
  "lapicw index v =
     kbind (kget lapic) (\<lambda>a.
     kseq (mmio_write (a + 4 * index) v)
     (kbind (lapic_read L_ID) (\<lambda>_. kret ())))"

fun lapicws :: "(uint \<times> uint) list \<Rightarrow> ('a io_state_scheme, unit) kprog" where
  "lapicws [] = kret ()"
| "lapicws ((i, v) # ws) = kseq (lapicw i v) (lapicws ws)"

fun lapic_wait :: "nat \<Rightarrow> ('a io_state_scheme, unit) kprog" where
  "lapic_wait 0 = kpanic ''spin''"
| "lapic_wait (Suc k) = kbind (lapic_read L_ICRLO) (\<lambda>v. if v AND L_DELIVS \<noteq> 0 then lapic_wait k else kret ())"

definition lapicinit :: "nat \<Rightarrow> ('a io_state_scheme, unit) kprog" where
  "lapicinit polls =
     kbind (kget lapic) (\<lambda>a.
     if a = 0 then kret ()
     else
       kseq (lapicws
         [(L_SVR, L_ENABLE OR (T_IRQ0 + of_nat IRQ_SPURIOUS)), (L_TDCR, L_X1),
          (L_TIMER, L_PERIODIC OR (T_IRQ0 + of_nat IRQ_TIMER)), (L_TICR, 10000000),
          (L_LINT0, L_MASKED), (L_LINT1, L_MASKED)])
       (kbind (lapic_read L_VER) (\<lambda>v.
       kseq (if drop_bit 16 v AND 0xFF \<ge> 4 then lapicw L_PCINT L_MASKED else kret ())
       (kseq (lapicws
         [(L_ERROR, T_IRQ0 + of_nat IRQ_ERROR), (L_ESR, 0), (L_ESR, 0), (L_EOI, 0),
          (L_ICRHI, 0), (L_ICRLO, L_BCAST OR L_INIT OR L_LEVEL)])
       (kseq (lapic_wait polls) (lapicw L_TPR 0))))))"

definition cpunum :: "('a io_state_scheme, uint) kprog" where
  "cpunum =
     kbind (kget lapic) (\<lambda>a.
     if a \<noteq> 0 then kbind (lapic_read L_ID) (\<lambda>v. kret (drop_bit 24 v)) else kret 0)"

definition lapiceoi :: "('a io_state_scheme, unit) kprog" where
  "lapiceoi = kbind (kget lapic) (\<lambda>a. if a \<noteq> 0 then lapicw L_EOI 0 else kret ())"

abbreviation (input) CMOS_PORT :: ushort where "CMOS_PORT \<equiv> 0x70"
abbreviation (input) CMOS_RETURN :: ushort where "CMOS_RETURN \<equiv> 0x71"

definition wr16 :: "uint \<Rightarrow> ushort \<Rightarrow> ('a kmem_state_scheme, unit) kprog" where
  "wr16 a v = kmod (\<lambda>s. s\<lparr>mem := (mem s)(a := ucast v, a + 1 := ucast (drop_bit 8 v))\<rparr>)"

definition lapicstartap :: "uchar \<Rightarrow> uint \<Rightarrow> ('a io_state_scheme, unit) kprog" where
  "lapicstartap apicid addr =
     kseq (outbs [(CMOS_PORT, 0xF), (CMOS_PORT + 1, 0x0A)])
     (let wrv = p2v (push_bit 4 0x40 OR 0x67) in
      kseq (wr16 wrv 0)
      (kseq (wr16 (wrv + 2) (ucast (drop_bit 4 addr)))
      (lapicws
        [(L_ICRHI, push_bit 24 (ucast apicid)), (L_ICRLO, L_INIT OR L_LEVEL OR L_ASSERT), (L_ICRLO, L_INIT OR L_LEVEL),
         (L_ICRHI, push_bit 24 (ucast apicid)), (L_ICRLO, L_STARTUP OR drop_bit 12 addr),
         (L_ICRHI, push_bit 24 (ucast apicid)), (L_ICRLO, L_STARTUP OR drop_bit 12 addr)])))"

record rtcdate =
  rt_second :: uint
  rt_minute :: uint
  rt_hour :: uint
  rt_day :: uint
  rt_month :: uint
  rt_year :: uint

definition cmos_read :: "uchar \<Rightarrow> ('a io_state_scheme, uint) kprog" where
  "cmos_read reg = kseq (outb CMOS_PORT reg) (kbind (inb CMOS_RETURN) (\<lambda>v. kret (ucast v)))"

definition fill_rtcdate :: "('a io_state_scheme, rtcdate) kprog" where
  "fill_rtcdate =
     kbind (cmos_read 0x00) (\<lambda>sec. kbind (cmos_read 0x02) (\<lambda>mi. kbind (cmos_read 0x04) (\<lambda>h.
     kbind (cmos_read 0x07) (\<lambda>d. kbind (cmos_read 0x08) (\<lambda>mo. kbind (cmos_read 0x09) (\<lambda>y.
     kret \<lparr>rt_second = sec, rt_minute = mi, rt_hour = h, rt_day = d, rt_month = mo, rt_year = y\<rparr>))))))"

text \<open>The loop that reads the clock until two readings agree and no update is in progress.\<close>

fun cmos_stable :: "nat \<Rightarrow> ('a io_state_scheme, rtcdate) kprog" where
  "cmos_stable 0 = kpanic ''spin''"
| "cmos_stable (Suc k) =
     kbind fill_rtcdate (\<lambda>t1.
     kbind (cmos_read 0x0a) (\<lambda>a.
     if a AND push_bit 7 1 \<noteq> 0 then cmos_stable k
     else kbind fill_rtcdate (\<lambda>t2. if t1 = t2 then kret t1 else cmos_stable k)))"

definition bcd_conv :: "uint \<Rightarrow> uint" where
  "bcd_conv x = drop_bit 4 x * 10 + (x AND 0xf)"

definition bcd_date :: "rtcdate \<Rightarrow> rtcdate" where
  "bcd_date t = \<lparr>rt_second = bcd_conv (rt_second t), rt_minute = bcd_conv (rt_minute t), rt_hour = bcd_conv (rt_hour t),
     rt_day = bcd_conv (rt_day t), rt_month = bcd_conv (rt_month t), rt_year = bcd_conv (rt_year t)\<rparr>"

definition cmostime :: "nat \<Rightarrow> ('a io_state_scheme, rtcdate) kprog" where
  "cmostime polls =
     kbind (cmos_read 0x0b) (\<lambda>sb.
     kbind (cmos_stable polls) (\<lambda>t.
     (let t = (if sb AND push_bit 2 1 = 0 then bcd_date t else t) in
      kret (t\<lparr>rt_year := rt_year t + 2000\<rparr>))))"

section \<open>Timer (timer.c) and serial port (uart.c)\<close>

definition timerinit :: "('a io_state_scheme, unit) kprog" where
  "timerinit =
     (let div100 = (1193182 + 100 div 2) div 100 :: nat in
      kseq (outbs [(0x43, 0x00 OR 0x04 OR 0x30), (0x40, of_nat (div100 mod 256)), (0x40, of_nat (div100 div 256))])
      (picenable IRQ_TIMER))"

abbreviation (input) COM1 :: ushort where "COM1 \<equiv> 0x3f8"

fun uart_wait :: "nat \<Rightarrow> ('a io_state_scheme, unit) kprog" where
  "uart_wait 0 = kret ()"
| "uart_wait (Suc k) = kbind (inb (COM1 + 5)) (\<lambda>v. if v AND 0x20 = 0 then uart_wait k else kret ())"

definition uartputc :: "int \<Rightarrow> ('a io_state_scheme, unit) kprog" where
  "uartputc c =
     kbind (kget uart) (\<lambda>u.
     if \<not> u then kret () else kseq (uart_wait 128) (outb COM1 (of_int c)))"

fun uartputs :: "cstr \<Rightarrow> ('a io_state_scheme, unit) kprog" where
  "uartputs [] = kret ()"
| "uartputs (c # cs) = kseq (uartputc (uint c)) (uartputs cs)"

definition uartinit :: "('a io_state_scheme, unit) kprog" where
  "uartinit =
     kseq (outbs [(COM1 + 2, 0), (COM1 + 3, 0x80), (COM1, 12), (COM1 + 1, 0), (COM1 + 3, 0x03), (COM1 + 4, 0), (COM1 + 1, 0x01)])
     (kbind (inb (COM1 + 5)) (\<lambda>st.
     if st = 0xFF then kret ()
     else
       kseq (kmod (\<lambda>s. s\<lparr>uart := True\<rparr>))
       (kbind (inb (COM1 + 2)) (\<lambda>_.
       kbind (inb COM1) (\<lambda>_.
       kseq (picenable IRQ_COM1)
       (kseq (ioapicenable IRQ_COM1 0)
       (uartputs [120, 118, 54, 46, 46, 46, 10])))))))"

definition uartgetc :: "('a io_state_scheme, int) kprog" where
  "uartgetc =
     kbind (kget uart) (\<lambda>u.
     if \<not> u then kret (- 1)
     else
       kbind (inb (COM1 + 5)) (\<lambda>st.
       if st AND 0x01 = 0 then kret (- 1) else kbind (inb COM1) (\<lambda>c. kret (uint c))))"

text \<open>A machine whose devices answer 0.\<close>

definition demo_io :: io_state where
  "demo_io = proc_state.extend demo_proc \<lparr>iolog = [], dev_in = (\<lambda>_ _. 0), dev_mmio = (\<lambda>_ _. 0), dev_data = (\<lambda>_ _. 0),
     irqmask = 0xFFFB, ismp = False, ncpu = 1, ioapicid = 0, lapic = 0, uart = False\<rparr>"

end
