(* ===== verification/Console.thy ===== *)
theory Console
  imports Hw
begin

text \<open>
  Console input and output (\<^verbatim>\<open>console.c\<close>) and the keyboard (\<^verbatim>\<open>kbd.c\<close>, \<^verbatim>\<open>kbd.h\<close>). The screen memory is \<open>crt\<close>, indexed in 16-bit cells.
  The input buffer with its three indices is the record \<open>inputbuf\<close>. \<^verbatim>\<open>consoleintr\<close> handles at most as many characters as
  its first argument says, with the panic \<open>spin\<close> when the device has more. \<^verbatim>\<open>consoleread\<close> runs until it returns or sleeps; a
  reader that has slept goes on with \<open>consoleread_from\<close>. The locks and the flag \<^verbatim>\<open>cons.locking\<close> are left out.
\<close>

record inputbuf =
  ib_buf :: bytes
  ib_r :: uint
  ib_w :: uint
  ib_e :: uint

record cons_state = io_state +
  crt :: "nat \<Rightarrow> ushort"
  panicked :: bool
  input :: inputbuf
  kbd_shift :: uint

section \<open>Output\<close>

abbreviation (input) BACKSPACE :: int where "BACKSPACE \<equiv> 0x100"
abbreviation (input) CRTPORT :: ushort where "CRTPORT \<equiv> 0x3d4"

text \<open>The screen after printing \<open>c\<close> at position \<open>pos\<close>: the new position and the cells.\<close>

definition cga_put :: "int \<Rightarrow> nat \<Rightarrow> (nat \<Rightarrow> ushort) \<Rightarrow> nat \<times> (nat \<Rightarrow> ushort)" where
  "cga_put c pos scr =
     (if c = 10 then (pos + (80 - pos mod 80), scr)
      else if c = BACKSPACE then (if pos > 0 then pos - 1 else pos, scr)
      else (pos + 1, scr(pos := ucast (of_int c :: uchar) OR 0x0700)))"

text \<open>Scrolling up by a line; \<^verbatim>\<open>memset\<close> clears from the new position to the end of row 23.\<close>

definition cga_scroll :: "nat \<times> (nat \<Rightarrow> ushort) \<Rightarrow> nat \<times> (nat \<Rightarrow> ushort)" where
  "cga_scroll = (\<lambda>(pos, scr).
     if pos div 80 \<ge> 24 then
       (let scr = (\<lambda>k. if k < 23 * 80 then scr (k + 80) else scr k); pos = pos - 80 in
        (pos, \<lambda>k. if pos \<le> k \<and> k < 24 * 80 then 0 else scr k))
     else (pos, scr))"

text \<open>A cursor past the last row makes the count given to \<^verbatim>\<open>memset\<close> negative, that is huge: the kernel faults.\<close>

definition cgaputc :: "int \<Rightarrow> ('a cons_state_scheme, unit) kprog" where
  "cgaputc c =
     kseq (outb CRTPORT 14)
     (kbind (inb (CRTPORT + 1)) (\<lambda>hi.
     kseq (outb CRTPORT 15)
     (kbind (inb (CRTPORT + 1)) (\<lambda>lo.
     kbind (kget crt) (\<lambda>scr.
     let (pos, scr) = cga_scroll (cga_put c (256 * unat hi + unat lo) scr) in
     if pos > 24 * 80 then kpanic ''trap''
     else
       kseq (kmod (\<lambda>s. s\<lparr>crt := scr\<rparr>))
       (kseq (outb CRTPORT 14)
       (kseq (outb (CRTPORT + 1) (of_nat (pos div 256)))
       (kseq (outb CRTPORT 15)
       (kseq (outb (CRTPORT + 1) (of_nat pos))
       (kmod (\<lambda>s. s\<lparr>crt := (crt s)(pos := 0x20 OR 0x0700)\<rparr>)))))))))))"

definition consputc :: "int \<Rightarrow> ('a cons_state_scheme, unit) kprog" where
  "consputc c =
     kbind (kget panicked) (\<lambda>p.
     if p then kpanic ''frozen''
     else
       kseq (if c = BACKSPACE then kseq (uartputc 8) (kseq (uartputc 32) (uartputc 8)) else uartputc c)
       (cgaputc c))"

fun consputs :: "int list \<Rightarrow> ('a cons_state_scheme, unit) kprog" where
  "consputs [] = kret ()"
| "consputs (c # cs) = kseq (consputc c) (consputs cs)"

text \<open>The kernel's \<^verbatim>\<open>printint\<close>, the same loop as the user library's with other digits.\<close>

definition cons_printint :: "uint \<Rightarrow> uint \<Rightarrow> bool \<Rightarrow> ('a cons_state_scheme, unit) kprog" where
  "cons_printint xx base sg = consputs (map uint (itoa lower_digits xx base sg))"

fun cprintf :: "cstr \<Rightarrow> fmt_arg list \<Rightarrow> ('a cons_state_scheme, unit) kprog" where
  "cprintf [] ap = kret ()"
| "cprintf (c # fmt) ap =
     (if c \<noteq> 37 then kseq (consputc (uint c)) (cprintf fmt ap)
      else
        (case fmt of
           [] \<Rightarrow> kret ()
         | d # fmt \<Rightarrow>
             if d = 100 then
               (case ap of AInt x # ap \<Rightarrow> kseq (cons_printint x 10 True) (cprintf fmt ap) | _ \<Rightarrow> kpanic ''cprintf argument'')
             else if d = 120 \<or> d = 112 then
               (case ap of AInt x # ap \<Rightarrow> kseq (cons_printint x 16 False) (cprintf fmt ap) | _ \<Rightarrow> kpanic ''cprintf argument'')
             else if d = 115 then
               (case ap of
                  AStr r # ap \<Rightarrow> kseq (consputs (map sint (case r of None \<Rightarrow> null_str | Some r \<Rightarrow> r))) (cprintf fmt ap)
                | _ \<Rightarrow> kpanic ''cprintf argument'')
             else if d = 37 then kseq (consputc 37) (cprintf fmt ap)
             else kseq (consputc 37) (kseq (consputc (uint d)) (cprintf fmt ap))))"

section \<open>Process listing (procdump of proc.c)\<close>

definition state_name :: "procstate \<Rightarrow> cstr" where
  "state_name st = (case st of
      UNUSED \<Rightarrow> [117, 110, 117, 115, 101, 100]
    | EMBRYO \<Rightarrow> [101, 109, 98, 114, 121, 111]
    | SLEEPING \<Rightarrow> [115, 108, 101, 101, 112, 32]
    | RUNNABLE \<Rightarrow> [114, 117, 110, 98, 108, 101]
    | RUNNING \<Rightarrow> [114, 117, 110, 32, 32, 32]
    | ZOMBIE \<Rightarrow> [122, 111, 109, 98, 105, 101])"

text \<open>The bytes of a name before its NUL; a name has 16 bytes.\<close>

definition name_str :: "bytes \<Rightarrow> cstr" where
  "name_str b = takeWhile (\<lambda>c. c \<noteq> 0) (map b [0..<16])"

fun print_pcs :: "uint list \<Rightarrow> ('a cons_state_scheme, unit) kprog" where
  "print_pcs [] = kret ()"
| "print_pcs (pc # pcs) =
     (if pc = 0 then kret () else kseq (cprintf [32, 37, 112] [AInt pc]) (print_pcs pcs))"

fun procdump_from :: "nat list \<Rightarrow> ('a cons_state_scheme, unit) kprog" where
  "procdump_from [] = kret ()"
| "procdump_from (p # ps) =
     kbind (get_proc p) (\<lambda>q.
     if p_state q = UNUSED then procdump_from ps
     else
       kseq (cprintf [37, 100, 32, 37, 115, 32, 37, 115]
         [AInt (of_int (p_pid q)), AStr (Some (state_name (p_state q))), AStr (Some (name_str (p_name q)))])
       (kseq (if p_state q = SLEEPING then
           kbind (rd32 (p_context q + 12)) (\<lambda>bp.
           kbind (kget mem) (\<lambda>m.
           print_pcs (map (getcallerpcs m (bp + 8) (\<lambda>_. 0)) [0..<10])))
         else kret ())
       (kseq (cprintf [10] []) (procdump_from ps))))"

definition procdump :: "('a cons_state_scheme, unit) kprog" where
  "procdump = procdump_from [0..<NPROC]"

section \<open>Input\<close>

abbreviation (input) INPUT_BUF :: nat where "INPUT_BUF \<equiv> 128"
abbreviation (input) CTRL_D :: int where "CTRL_D \<equiv> 4"
abbreviation (input) CTRL_H :: int where "CTRL_H \<equiv> 8"
abbreviation (input) CTRL_P :: int where "CTRL_P \<equiv> 16"
abbreviation (input) CTRL_U :: int where "CTRL_U \<equiv> 21"

definition upd_input :: "(inputbuf \<Rightarrow> inputbuf) \<Rightarrow> ('a cons_state_scheme, unit) kprog" where
  "upd_input f = kmod (\<lambda>s. s\<lparr>input := f (input s)\<rparr>)"

definition ib_back :: "inputbuf \<Rightarrow> inputbuf" where
  "ib_back b = b\<lparr>ib_e := ib_e b - 1\<rparr>"

definition ib_put :: "uchar \<Rightarrow> inputbuf \<Rightarrow> inputbuf" where
  "ib_put c b = b\<lparr>ib_buf := (ib_buf b)(unat (ib_e b) mod INPUT_BUF := c), ib_e := ib_e b + 1\<rparr>"

definition ib_commit :: "inputbuf \<Rightarrow> inputbuf" where
  "ib_commit b = b\<lparr>ib_w := ib_e b\<rparr>"

text \<open>The loop of ^U, which runs at most as often as there are characters between the write and the edit index.\<close>

fun kill_line :: "nat \<Rightarrow> ('a cons_state_scheme, unit) kprog" where
  "kill_line 0 = kret ()"
| "kill_line (Suc k) =
     kbind (kget input) (\<lambda>b.
     if ib_e b \<noteq> ib_w b \<and> ib_buf b (unat (ib_e b - 1) mod INPUT_BUF) \<noteq> 10
     then kseq (upd_input ib_back) (kseq (consputc BACKSPACE) (kill_line k))
     else kret ())"

definition consoleintr_char :: "int \<Rightarrow> ('a cons_state_scheme, unit) kprog" where
  "consoleintr_char c =
     (if c = CTRL_P then procdump
      else if c = CTRL_U then kbind (kget input) (\<lambda>b. kill_line (unat (ib_e b - ib_w b)))
      else if c = CTRL_H \<or> c = 0x7f then
        kbind (kget input) (\<lambda>b.
        if ib_e b \<noteq> ib_w b then kseq (upd_input ib_back) (consputc BACKSPACE) else kret ())
      else
        kbind (kget input) (\<lambda>b.
        if c \<noteq> 0 \<and> ib_e b - ib_r b < of_nat INPUT_BUF then
          (let c = (if c = 13 then 10 else c) in
           kseq (upd_input (ib_put (of_int c)))
           (kseq (consputc c)
           (kbind (kget input) (\<lambda>b.
            if c = 10 \<or> c = CTRL_D \<or> ib_e b = ib_r b + of_nat INPUT_BUF
            then kseq (upd_input ib_commit) (wakeup ChanInput)
            else kret ()))))
        else kret ()))"

fun consoleintr :: "nat \<Rightarrow> ('a cons_state_scheme, int) kprog \<Rightarrow> ('a cons_state_scheme, unit) kprog" where
  "consoleintr 0 getc = kpanic ''spin''"
| "consoleintr (Suc k) getc =
     kbind getc (\<lambda>c. if c \<ge> 0 then kseq (consoleintr_char c) (consoleintr k getc) else kret ())"

text \<open>\<open>n\<close> characters are still wanted, \<open>i\<close> are stored; the result is the count still wanted, or \<open>None\<close> if the reader was killed.\<close>

fun consoleread_from :: "bytes \<Rightarrow> nat \<Rightarrow> nat \<Rightarrow> ('a cons_state_scheme, nat option \<times> bytes) kprog" where
  "consoleread_from dst i 0 = kret (Some 0, dst)"
| "consoleread_from dst i (Suc n) =
     kbind (kget input) (\<lambda>b.
     if ib_r b = ib_w b then
       kbind killed (\<lambda>k. if k then kret (None, dst) else sleep ChanInput)
     else
       (let c = ib_buf b (unat (ib_r b) mod INPUT_BUF) in
        kseq (upd_input (\<lambda>b. b\<lparr>ib_r := ib_r b + 1\<rparr>))
        (if c = 4 then
           kseq (if i > 0 then upd_input (\<lambda>b. b\<lparr>ib_r := ib_r b - 1\<rparr>) else kret ()) (kret (Some (Suc n), dst))
         else if c = 10 then kret (Some n, dst(i := c))
         else consoleread_from (dst(i := c)) (Suc i) n)))"

definition consoleread :: "nat \<Rightarrow> bytes \<Rightarrow> uint \<Rightarrow> ('a cons_state_scheme, int \<times> bytes) kprog" where
  "consoleread ip dst n =
     kseq (iunlock ip)
     (kbind (consoleread_from dst 0 (nat (sint n))) (\<lambda>(r, dst).
     kseq (ilock ip)
     (case r of
        None \<Rightarrow> kret (- 1, dst)
      | Some k \<Rightarrow> kret (int (nat (sint n)) - int k, dst))))"

definition consolewrite :: "nat \<Rightarrow> bytes \<Rightarrow> uint \<Rightarrow> ('a cons_state_scheme, int) kprog" where
  "consolewrite ip buf n =
     kseq (iunlock ip)
     (kseq (consputs (map (\<lambda>i. uint (buf i)) [0..<nat (sint n)]))
     (kseq (ilock ip) (kret (sint n))))"

text \<open>The device table as \<^verbatim>\<open>consoleinit\<close> fills it in: major number 1 is the console.\<close>

definition console_devsw :: "('a cons_state_scheme) devsw" where
  "console_devsw = \<lparr>dv_read = (\<lambda>k. if k = 1 then Some consoleread else None),
     dv_write = (\<lambda>k. if k = 1 then Some consolewrite else None)\<rparr>"

definition consoleinit :: "('a cons_state_scheme, unit) kprog" where
  "consoleinit = kseq (picenable IRQ_KBD) (ioapicenable IRQ_KBD 0)"

section \<open>Keyboard (kbd.c, kbd.h)\<close>

definition shiftcode :: "nat \<Rightarrow> uchar" where
  "shiftcode i = (case map_of [(0x1D, 2), (0x2A, 1), (0x36, 1), (0x38, 4), (0x9D, 2), (0xB8, 4)] i of Some c \<Rightarrow> c | None \<Rightarrow> 0)"

definition togglecode :: "nat \<Rightarrow> uchar" where
  "togglecode i = (case map_of [(0x3A, 8), (0x45, 16), (0x46, 32)] i of Some c \<Rightarrow> c | None \<Rightarrow> 0)"

definition normalmap_init :: "uchar list" where
  "normalmap_init =
     [0, 27, 49, 50, 51, 52, 53, 54, 55, 56, 57, 48, 45, 61, 8, 9,
      113, 119, 101, 114, 116, 121, 117, 105, 111, 112, 91, 93, 10, 0, 97, 115,
      100, 102, 103, 104, 106, 107, 108, 59, 39, 96, 0, 92, 122, 120, 99, 118,
      98, 110, 109, 44, 46, 47, 0, 42, 0, 32, 0, 0, 0, 0, 0, 0,
      0, 0, 0, 0, 0, 0, 0, 55, 56, 57, 45, 52, 53, 54, 43, 49,
      50, 51, 48, 46, 0, 0, 0, 0]"

definition normalmap :: "nat \<Rightarrow> uchar" where
  "normalmap i =
     (if i < length normalmap_init then normalmap_init ! i
      else case map_of [(0x9C, 10), (0xB5, 47), (0xC8, 226), (0xD0, 227), (0xC9, 230), (0xD1, 231), (0xCB, 228), (0xCD, 229), (0x97, 224), (0xCF, 225), (0xD2, 232), (0xD3, 233)] i of Some c \<Rightarrow> c | None \<Rightarrow> 0)"

definition shiftmap_init :: "uchar list" where
  "shiftmap_init =
     [0, 27, 33, 64, 35, 36, 37, 94, 38, 42, 40, 41, 95, 43, 8, 9,
      81, 87, 69, 82, 84, 89, 85, 73, 79, 80, 123, 125, 10, 0, 65, 83,
      68, 70, 71, 72, 74, 75, 76, 58, 34, 126, 0, 124, 90, 88, 67, 86,
      66, 78, 77, 60, 62, 63, 0, 42, 0, 32, 0, 0, 0, 0, 0, 0,
      0, 0, 0, 0, 0, 0, 0, 55, 56, 57, 45, 52, 53, 54, 43, 49,
      50, 51, 48, 46, 0, 0, 0, 0]"

definition shiftmap :: "nat \<Rightarrow> uchar" where
  "shiftmap i =
     (if i < length shiftmap_init then shiftmap_init ! i
      else case map_of [(0x9C, 10), (0xB5, 47), (0xC8, 226), (0xD0, 227), (0xC9, 230), (0xD1, 231), (0xCB, 228), (0xCD, 229), (0x97, 224), (0xCF, 225), (0xD2, 232), (0xD3, 233)] i of Some c \<Rightarrow> c | None \<Rightarrow> 0)"

definition ctlmap_init :: "uchar list" where
  "ctlmap_init =
     [0, 0, 0, 0, 0, 0, 0, 0, 0, 0, 0, 0, 0, 0, 0, 0,
      17, 23, 5, 18, 20, 25, 21, 9, 15, 16, 0, 0, 13, 0, 1, 19,
      4, 6, 7, 8, 10, 11, 12, 0, 0, 0, 0, 28, 26, 24, 3, 22,
      2, 14, 13, 0, 0, -17, 0, 0]"

definition ctlmap :: "nat \<Rightarrow> uchar" where
  "ctlmap i =
     (if i < length ctlmap_init then ctlmap_init ! i
      else case map_of [(0x9C, 13), (0xB5, -17), (0xC8, 226), (0xD0, 227), (0xC9, 230), (0xD1, 231), (0xCB, 228), (0xCD, 229), (0x97, 224), (0xCF, 225), (0xD2, 232), (0xD3, 233)] i of Some c \<Rightarrow> c | None \<Rightarrow> 0)"

definition charcode :: "uint \<Rightarrow> nat \<Rightarrow> uchar" where
  "charcode k = (if k = 0 then normalmap else if k = 1 then shiftmap else ctlmap)"

abbreviation (input) K_SHIFT :: uint where "K_SHIFT \<equiv> 1"
abbreviation (input) K_CTL :: uint where "K_CTL \<equiv> 2"
abbreviation (input) K_CAPSLOCK :: uint where "K_CAPSLOCK \<equiv> 8"
abbreviation (input) K_E0ESC :: uint where "K_E0ESC \<equiv> 64"

text \<open>The part of \<^verbatim>\<open>kbdgetc\<close> after the data byte has been read: the new shift state and the character, 0 for none.\<close>

definition kbd_decode :: "uint \<Rightarrow> uchar \<Rightarrow> uint \<times> int" where
  "kbd_decode shift data =
     (if data = 0xE0 then (shift OR K_E0ESC, 0)
      else if data AND 0x80 \<noteq> 0 then
        (let data = (if shift AND K_E0ESC \<noteq> 0 then data else data AND 0x7F) in
         (shift AND NOT (ucast (shiftcode (unat data)) OR K_E0ESC), 0))
      else
        (let (data, shift) = (if shift AND K_E0ESC \<noteq> 0 then (data OR 0x80, shift AND NOT K_E0ESC) else (data, shift));
             shift = (shift OR ucast (shiftcode (unat data))) XOR ucast (togglecode (unat data));
             c = uint (charcode (shift AND (K_CTL OR K_SHIFT)) (unat data));
             c = (if shift AND K_CAPSLOCK \<noteq> 0 then
                    if 97 \<le> c \<and> c \<le> 122 then c - 32 else if 65 \<le> c \<and> c \<le> 90 then c + 32 else c
                  else c)
         in (shift, c)))"

definition kbdgetc :: "('a cons_state_scheme, int) kprog" where
  "kbdgetc =
     kbind (inb 0x64) (\<lambda>st.
     if st AND 0x01 = 0 then kret (- 1)
     else
       kbind (inb 0x60) (\<lambda>data.
       kbind (kget kbd_shift) (\<lambda>shift.
       kseq (kmod (\<lambda>s. s\<lparr>kbd_shift := fst (kbd_decode shift data)\<rparr>))
       (kret (snd (kbd_decode shift data))))))"

definition kbdintr :: "nat \<Rightarrow> ('a cons_state_scheme, unit) kprog" where
  "kbdintr n = consoleintr n kbdgetc"

definition uartintr :: "nat \<Rightarrow> ('a cons_state_scheme, unit) kprog" where
  "uartintr n = consoleintr n uartgetc"

section \<open>Output does not touch the input buffer\<close>

definition out_frame :: "'a cons_state_scheme \<Rightarrow> 'a cons_state_scheme \<Rightarrow> bool" where
  "out_frame s t \<longleftrightarrow> (\<exists>l c. t = s\<lparr>iolog := l, crt := c\<rparr>)"

lemma out_frame_refl [simp]: "out_frame s s"
  unfolding out_frame_def by (rule exI [of _ "iolog s"], rule exI [of _ "crt s"]) simp

lemma out_frame_trans: "out_frame s t \<Longrightarrow> out_frame t u \<Longrightarrow> out_frame s u"
proof -
  assume "out_frame s t" "out_frame t u"
  then obtain l c l' c' where "t = s\<lparr>iolog := l, crt := c\<rparr>" "u = t\<lparr>iolog := l', crt := c'\<rparr>" unfolding out_frame_def by blast
  then have "u = s\<lparr>iolog := l', crt := c'\<rparr>" by simp
  then show ?thesis unfolding out_frame_def by blast
qed

lemma out_frame_simps:
  "out_frame s t \<Longrightarrow> input t = input s" "out_frame s t \<Longrightarrow> panicked t = panicked s" "out_frame s t \<Longrightarrow> dev_in t = dev_in s"
  by (auto simp: out_frame_def)

lemma out_frame_log: "out_frame s (s\<lparr>iolog := l\<rparr>)"
  unfolding out_frame_def by (rule exI [of _ l], rule exI [of _ "crt s"]) simp

text \<open>The hypothesis on the display adapter: the cursor position it reports is on the first 24 rows.\<close>

definition cga_ok :: "'a cons_state_scheme \<Rightarrow> bool" where
  "cga_ok s \<longleftrightarrow> (\<forall>h.
     let hi = dev_in s (h @ [OutB CRTPORT 14]) (CRTPORT + 1);
         lo = dev_in s (h @ [OutB CRTPORT 14, InB (CRTPORT + 1) hi, OutB CRTPORT 15]) (CRTPORT + 1)
     in 256 * unat hi + unat lo < 24 * 80)"

lemma cga_ok_frame: "out_frame s t \<Longrightarrow> cga_ok s \<Longrightarrow> cga_ok t"
  by (simp add: cga_ok_def out_frame_simps)

lemma cga_put_pos: "pos < 1920 \<Longrightarrow> cga_put c pos scr = (p, x) \<Longrightarrow> p \<le> 1920"
proof -
  assume a: "pos < 1920" "cga_put c pos scr = (p, x)"
  have "pos + (80 - pos mod 80) \<le> 1920"
  proof -
    have "pos div 80 < 24" using a(1) by (simp add: less_mult_imp_div_less)
    then have "80 * (pos div 80) + 80 \<le> 1920" by simp
    moreover have "pos + (80 - pos mod 80) = 80 * (pos div 80) + 80"
      using div_mult_mod_eq [of pos 80] mod_less_divisor [of 80 pos] by linarith
    ultimately show ?thesis by simp
  qed
  then show ?thesis using a by (auto simp: cga_put_def split: if_splits)
qed

text \<open>Wherever the cursor is on the first 24 rows it stays there, and every cell written is on the screen.\<close>

lemma cga_step:
  assumes "pos < 1920" "cga_scroll (cga_put c pos scr) = (p, x)"
  shows "p < 1920" "\<And>k. 2000 \<le> k \<Longrightarrow> x k = scr k"
proof -
  obtain p1 x1 where c1: "cga_put c pos scr = (p1, x1)" by force
  have p1: "p1 \<le> 1920" using cga_put_pos [OF assms(1) c1] .
  have x1: "x1 k = scr k" if "2000 \<le> k" for k using c1 that assms(1) by (auto simp: cga_put_def split: if_splits)
  show "p < 1920" using assms(2) c1 p1 by (auto simp: cga_scroll_def Let_def split: if_splits)
  show "x k = scr k" if "2000 \<le> k" for k
    using assms(2) c1 x1 [OF that] that by (auto simp: cga_scroll_def Let_def split: if_splits)
qed

lemma uart_wait_ok: "\<exists>l. uart_wait k s = Ok () (s\<lparr>iolog := l\<rparr>)"
proof (induction k arbitrary: s)
  case 0
  show ?case by (rule exI [of _ "iolog s"]) (simp add: kret_def)
next
  case (Suc k)
  let ?s = "s\<lparr>iolog := iolog s @ [InB (COM1 + 5) (dev_in s (iolog s) (COM1 + 5))]\<rparr>"
  obtain l where l: "uart_wait k ?s = Ok () (?s\<lparr>iolog := l\<rparr>)" using Suc by blast
  show ?case
  proof (cases "dev_in s (iolog s) (COM1 + 5) AND 0x20 = 0")
    case True
    then have "uart_wait (Suc k) s = uart_wait k ?s" by (simp add: inb_def kbind_def kseq_def kget_def kmod_def kret_def)
    then show ?thesis using l by auto
  next
    case False
    then have "uart_wait (Suc k) s = Ok () ?s" by (simp add: inb_def kbind_def kseq_def kget_def kmod_def kret_def)
    then show ?thesis by auto
  qed
qed

lemma uartputc_ok: "\<exists>t. uartputc c s = Ok () t \<and> out_frame s t"
proof (cases "uart s")
  case True
  obtain l where "uart_wait 128 s = Ok () (s\<lparr>iolog := l\<rparr>)" using uart_wait_ok by blast
  then have "uartputc c s = Ok () (s\<lparr>iolog := l @ [OutB COM1 (of_int c)]\<rparr>)"
    using True by (simp add: uartputc_def outb_def kbind_def kseq_def kget_def kmod_def)
  then show ?thesis using out_frame_log by blast
qed (simp add: uartputc_def kbind_def kget_def kret_def)

lemma cgaputc_ok:
  assumes "cga_ok s"
  shows "\<exists>t. cgaputc c s = Ok () t \<and> out_frame s t"
proof -
  let ?hi = "dev_in s (iolog s @ [OutB CRTPORT 14]) (CRTPORT + 1)"
  let ?lo = "dev_in s (iolog s @ [OutB CRTPORT 14, InB (CRTPORT + 1) ?hi, OutB CRTPORT 15]) (CRTPORT + 1)"
  have pos: "256 * unat ?hi + unat ?lo < 1920" using assms by (simp add: cga_ok_def Let_def)
  obtain p x where px: "cga_scroll (cga_put c (256 * unat ?hi + unat ?lo) (crt s)) = (p, x)" by force
  have "p < 1920" using cga_step(1) [OF pos px] .
  then show ?thesis using px
    by (simp add: cgaputc_def inb_def outb_def kbind_def kseq_def kget_def kmod_def kret_def out_frame_def) blast
qed

lemma consputc_ok:
  assumes ok: "cga_ok s" "\<not> panicked s"
  shows "\<exists>t. consputc c s = Ok () t \<and> out_frame s t"
proof -
  obtain t1 where t1: "uartputc 8 s = Ok () t1" "out_frame s t1" using uartputc_ok by blast
  obtain t2 where t2: "uartputc 32 t1 = Ok () t2" "out_frame t1 t2" using uartputc_ok by blast
  obtain t3 where t3: "uartputc 8 t2 = Ok () t3" "out_frame t2 t3" using uartputc_ok by blast
  obtain t4 where t4: "uartputc c s = Ok () t4" "out_frame s t4" using uartputc_ok by blast
  define t where "t = (if c = BACKSPACE then t3 else t4)"
  have f: "out_frame s t"
    using out_frame_trans [OF out_frame_trans [OF t1(2) t2(2)] t3(2)] t4(2) by (simp add: t_def)
  have run: "(if c = BACKSPACE then kseq (uartputc 8) (kseq (uartputc 32) (uartputc 8)) else uartputc c) s = Ok () t"
    using t1(1) t2(1) t3(1) t4(1) by (simp add: t_def kseq_def)
  obtain u where u: "cgaputc c t = Ok () u" "out_frame t u" using cgaputc_ok [OF cga_ok_frame [OF f ok(1)]] by blast
  have "consputc c s = kseq (if c = BACKSPACE then kseq (uartputc 8) (kseq (uartputc 32) (uartputc 8)) else uartputc c) (cgaputc c) s"
    using ok(2) by (simp add: consputc_def kbind_def kget_def)
  also have "\<dots> = cgaputc c t" unfolding kseq_def [of _ "cgaputc c"] using run by (rule kbind_Ok)
  finally show ?thesis using u out_frame_trans [OF f u(2)] by simp
qed

section \<open>Line editing\<close>

text \<open>
  Specification: the characters ready for readers, and the line being edited. \<open>edit\<close> is what a typed character does.
\<close>

definition edit :: "int \<Rightarrow> uchar list \<times> uchar list \<Rightarrow> uchar list \<times> uchar list" where
  "edit c = (\<lambda>(ready, line).
     if c = CTRL_U then (ready, rev (dropWhile (\<lambda>x. x \<noteq> 10) (rev line)))
     else if c = CTRL_H \<or> c = 0x7f then (ready, butlast line)
     else if c \<noteq> 0 \<and> length ready + length line < INPUT_BUF then
       (let c = (if c = 13 then 10 else c); line = line @ [of_int c] in
        if c = 10 \<or> c = CTRL_D \<or> length ready + length line = INPUT_BUF then (ready @ line, []) else (ready, line))
     else (ready, line))"

definition ib_all :: "inputbuf \<Rightarrow> uchar list" where
  "ib_all b = ring_items INPUT_BUF (ib_buf b) (ib_r b) (ib_e b)"

definition ib_ready :: "inputbuf \<Rightarrow> nat" where
  "ib_ready b = unat (ib_w b - ib_r b)"

definition ib_abs :: "inputbuf \<Rightarrow> uchar list \<times> uchar list" where
  "ib_abs b = (take (ib_ready b) (ib_all b), drop (ib_ready b) (ib_all b))"

definition ib_inv :: "inputbuf \<Rightarrow> bool" where
  "ib_inv b \<longleftrightarrow> length (ib_all b) \<le> INPUT_BUF \<and> ib_ready b \<le> length (ib_all b)"

lemma ib_len: "length (ib_all b) = unat (ib_e b - ib_r b)"
  by (simp add: ib_all_def)

lemma ib_dvd: "INPUT_BUF dvd 2 ^ 32" "INPUT_BUF < 2 ^ 32"
  by simp_all

lemma ib_line_empty: "ib_inv b \<Longrightarrow> ib_e b = ib_w b \<longleftrightarrow> ib_ready b = length (ib_all b)"
  unfolding ib_ready_def ib_len by (auto simp: word_unat_eq_iff [symmetric])

lemma ib_back_abs:
  assumes inv: "ib_inv b" and ne: "ib_e b \<noteq> ib_w b"
  shows "ib_inv (ib_back b)" "ib_all b = ib_all (ib_back b) @ [ib_buf b (unat (ib_e b - 1) mod INPUT_BUF)]"
    "ib_ready (ib_back b) = ib_ready b"
proof -
  have lt: "ib_ready b < length (ib_all b)" using inv ne ib_line_empty [OF inv] by (auto simp: ib_inv_def)
  then have "ib_all b \<noteq> []" by auto
  then have "ib_r b \<noteq> ib_e b" by (simp add: ib_all_def ring_items_empty)
  note bk = ring_back(1) [where d = "ib_buf b", OF ib_dvd(1) this]
  show all: "ib_all b = ib_all (ib_back b) @ [ib_buf b (unat (ib_e b - 1) mod INPUT_BUF)]"
    using bk by (simp add: ib_all_def ib_back_def)
  show ready: "ib_ready (ib_back b) = ib_ready b" by (simp add: ib_ready_def ib_back_def)
  have "length (ib_all b) = Suc (length (ib_all (ib_back b)))" by (subst all) simp
  then show "ib_inv (ib_back b)" using inv lt ready by (simp add: ib_inv_def)
qed

lemma ib_put_abs:
  assumes inv: "ib_inv b" and lt: "length (ib_all b) < INPUT_BUF"
  shows "ib_inv (ib_put c b)" "ib_all (ib_put c b) = ib_all b @ [c]" "ib_ready (ib_put c b) = ib_ready b"
proof -
  show all: "ib_all (ib_put c b) = ib_all b @ [c]"
    using ring_put(2) [OF ib_dvd, of "ib_e b" "ib_r b" "ib_buf b" c] lt by (simp add: ib_all_def ib_put_def)
  show ready: "ib_ready (ib_put c b) = ib_ready b" by (simp add: ib_ready_def ib_put_def)
  show "ib_inv (ib_put c b)" using inv lt unfolding ib_inv_def all ready by simp
qed

lemma ib_commit_abs:
  assumes inv: "ib_inv b"
  shows "ib_inv (ib_commit b)" "ib_abs (ib_commit b) = (ib_all b, [])"
proof -
  have "ib_all (ib_commit b) = ib_all b" "ib_ready (ib_commit b) = length (ib_all b)"
    by (simp_all add: ib_commit_def ib_all_def ib_ready_def)
  then show "ib_inv (ib_commit b)" "ib_abs (ib_commit b) = (ib_all b, [])" using inv by (simp_all add: ib_inv_def ib_abs_def)
qed

text \<open>The console is usable: it has not been frozen by a panic, the display behaves, the indices are in order.\<close>

definition cons_ok :: "'a cons_state_scheme \<Rightarrow> bool" where
  "cons_ok s \<longleftrightarrow> cga_ok s \<and> \<not> panicked s \<and> ib_inv (input s)"

lemma cons_ok_input: "cons_ok s \<Longrightarrow> ib_inv b \<Longrightarrow> cons_ok (s\<lparr>input := b\<rparr>)"
  by (simp add: cons_ok_def cga_ok_def)

lemma consputc_wp:
  assumes "cons_ok s"
  obtains t where "consputc c s = Ok () t" "cons_ok t" "input t = input s"
proof -
  have "cga_ok s" "\<not> panicked s" using assms by (simp_all add: cons_ok_def)
  then obtain t where t: "consputc c s = Ok () t" "out_frame s t" using consputc_ok by blast
  have "cons_ok t"
    using assms cga_ok_frame [OF t(2)] out_frame_simps(1,2) [OF t(2)] by (simp add: cons_ok_def)
  then show thesis using that t(1) out_frame_simps(1) [OF t(2)] by blast
qed

lemma dropWhile_rev_snoc: "rev (dropWhile P (rev (xs @ [x]))) = (if P x then rev (dropWhile P (rev xs)) else xs @ [x])"
  by simp

lemma kill_line_ok:
  "cons_ok s \<Longrightarrow> length (snd (ib_abs (input s))) \<le> k \<Longrightarrow>
     wp (kill_line k) (\<lambda>_ t. cons_ok t \<and> ib_abs (input t) = edit CTRL_U (ib_abs (input s))) s"
proof (induction k arbitrary: s)
  case 0
  then show ?case by (cases "ib_abs (input s)") (simp add: wp_rules edit_def)
next
  case (Suc k)
  let ?b = "input s"
  have inv: "ib_inv ?b" using Suc.prems(1) by (simp add: cons_ok_def)
  let ?c = "ib_buf ?b (unat (ib_e ?b - 1) mod INPUT_BUF)"
  show ?case
  proof (cases "ib_e ?b \<noteq> ib_w ?b")
    case False
    then have "snd (ib_abs ?b) = []" using ib_line_empty [OF inv] by (simp add: ib_abs_def)
    then show ?thesis using False Suc.prems by (cases "ib_abs ?b") (simp add: wp_rules edit_def)
  next
    case ne: True
    note bk = ib_back_abs [OF inv ne]
    have lt: "ib_ready ?b \<le> length (ib_all (ib_back ?b))" using bk(1,3) by (simp add: ib_inv_def)
    have line: "ib_abs ?b = (fst (ib_abs (ib_back ?b)), snd (ib_abs (ib_back ?b)) @ [?c])"
      using lt unfolding ib_abs_def bk(3) by (subst (1 2) bk(2)) simp
    show ?thesis
    proof (cases "?c = 10")
      case True
      then have "edit CTRL_U (ib_abs ?b) = ib_abs ?b" unfolding line by (simp add: edit_def)
      then show ?thesis using True Suc.prems by (simp add: wp_rules)
    next
      case False
      let ?s = "s\<lparr>input := ib_back ?b\<rparr>"
      have "cons_ok ?s" using cons_ok_input [OF Suc.prems(1) bk(1)] .
      then obtain t where t: "consputc BACKSPACE ?s = Ok () t" "cons_ok t" "input t = input ?s" by (rule consputc_wp)
      have "length (snd (ib_abs (input t))) \<le> k" using Suc.prems(2) line t(3) by simp
      from Suc.IH [OF t(2) this] have
        ih: "wp (kill_line k) (\<lambda>_ u. cons_ok u \<and> ib_abs (input u) = edit CTRL_U (ib_abs (ib_back ?b))) t" using t(3) by simp
      have ed: "edit CTRL_U (ib_abs ?b) = edit CTRL_U (ib_abs (ib_back ?b))"
        by (subst line) (use False in \<open>cases "ib_abs (ib_back ?b)", simp add: edit_def\<close>)
      have "wp (kill_line (Suc k)) Q s = wp (kill_line k) Q t" for Q
        using ne False t(1) by (simp add: wp_rules upd_input_def wp_step)
      then show ?thesis using ih ed by simp
    qed
  qed
qed

lemma backspace_ok:
  assumes ok: "cons_ok s" and c: "c = CTRL_H \<or> c = 0x7f"
  shows "wp (consoleintr_char c) (\<lambda>_ t. cons_ok t \<and> ib_abs (input t) = edit c (ib_abs (input s))) s"
proof -
  let ?b = "input s"
  have inv: "ib_inv ?b" using ok by (simp add: cons_ok_def)
  have ed: "edit c (r, l) = (r, butlast l)" for r l using c by (auto simp: edit_def)
  have run: "consoleintr_char c = kbind (kget input) (\<lambda>b. if ib_e b \<noteq> ib_w b then kseq (upd_input ib_back) (consputc BACKSPACE) else kret ())"
    using c by (auto simp: consoleintr_char_def)
  show ?thesis
  proof (cases "ib_e ?b \<noteq> ib_w ?b")
    case False
    then have "snd (ib_abs ?b) = []" using ib_line_empty [OF inv] by (simp add: ib_abs_def)
    then have "edit c (ib_abs ?b) = ib_abs ?b" by (cases "ib_abs ?b") (simp add: ed)
    then show ?thesis unfolding run using False ok by (simp add: wp_rules)
  next
    case ne: True
    note bk = ib_back_abs [OF inv ne]
    let ?s = "s\<lparr>input := ib_back ?b\<rparr>"
    have "cons_ok ?s" using cons_ok_input [OF ok bk(1)] .
    then obtain t where t: "consputc BACKSPACE ?s = Ok () t" "cons_ok t" "input t = input ?s" by (rule consputc_wp)
    have lt: "ib_ready ?b \<le> length (ib_all (ib_back ?b))" using bk(1,3) by (simp add: ib_inv_def)
    have "ib_abs ?b = (fst (ib_abs (ib_back ?b)), snd (ib_abs (ib_back ?b)) @ [ib_buf ?b (unat (ib_e ?b - 1) mod INPUT_BUF)])"
      using lt unfolding ib_abs_def bk(3) by (subst (1 2) bk(2)) simp
    then have "edit c (ib_abs ?b) = ib_abs (input t)" using t(3) by (simp add: ed)
    then show ?thesis unfolding run using ne t by (simp add: wp_rules upd_input_def wp_step)
  qed
qed

lemma insert_ok:
  assumes ok: "cons_ok s" and c: "c \<notin> {CTRL_P, CTRL_U, CTRL_H, 0x7f}"
  shows "wp (consoleintr_char c) (\<lambda>_ t. cons_ok t \<and> ib_abs (input t) = edit c (ib_abs (input s))) s"
proof -
  let ?b = "input s" and ?c = "if c = 13 then 10 else c"
  have inv: "ib_inv ?b" using ok by (simp add: cons_ok_def)
  have len: "length (take (ib_ready ?b) (ib_all ?b)) + length (drop (ib_ready ?b) (ib_all ?b)) = length (ib_all ?b)" by simp
  have room: "ib_e ?b - ib_r ?b < of_nat INPUT_BUF \<longleftrightarrow> length (ib_all ?b) < INPUT_BUF" unfolding ib_len by (simp add: word_less_nat_alt)
  show ?thesis
  proof (cases "c \<noteq> 0 \<and> length (ib_all ?b) < INPUT_BUF")
    case False
    then have "edit c (ib_abs ?b) = ib_abs ?b" using c len unfolding ib_abs_def edit_def by (auto split: if_splits)
    moreover have "wp (consoleintr_char c) Q s = Q () s" for Q
      using False c room by (auto simp: consoleintr_char_def wp_rules)
    ultimately show ?thesis using ok by simp
  next
    case True
    note put = ib_put_abs [OF inv, of "of_int ?c"]
    let ?p = "ib_put (of_int ?c) ?b"
    have p: "ib_inv ?p" "ib_all ?p = ib_all ?b @ [of_int ?c]" "ib_ready ?p = ib_ready ?b" using put True by blast+
    have "cons_ok (s\<lparr>input := ?p\<rparr>)" using cons_ok_input [OF ok p(1)] .
    then obtain t where t: "consputc ?c (s\<lparr>input := ?p\<rparr>) = Ok () t" "cons_ok t" "input t = ?p"
      by (rule consputc_wp [where c = ?c]) simp
    let ?fin = "?c = 10 \<or> ?c = CTRL_D \<or> ib_e ?p = ib_r ?p + of_nat INPUT_BUF"
    have full: "ib_e ?p = ib_r ?p + of_nat INPUT_BUF \<longleftrightarrow> length (ib_all ?p) = INPUT_BUF"
      unfolding ib_len using ring_full [of INPUT_BUF "ib_e ?p" "ib_r ?p"] by simp
    have rd: "ib_ready ?b \<le> length (ib_all ?b)" using inv by (simp add: ib_inv_def)
    have ed: "edit c (ib_abs ?b) = (if ?fin then (ib_all ?p, []) else ib_abs ?p)"
      unfolding full using True c len p(2,3) rd unfolding ib_abs_def edit_def Let_def by simp
    have run: "wp (consoleintr_char c) Q s = (if ?fin then Q () (wakeup1 ChanInput (t\<lparr>input := ib_commit ?p\<rparr>)) else Q () t)" for Q
      using True c room t by (auto simp: consoleintr_char_def wp_rules upd_input_def wp_step Let_def)
    have wk: "cons_ok (wakeup1 ChanInput (t\<lparr>input := ib_commit ?p\<rparr>))" "input (wakeup1 ChanInput (t\<lparr>input := ib_commit ?p\<rparr>)) = ib_commit ?p"
      using t(2) ib_commit_abs(1) [OF p(1)] by (simp_all add: wakeup1_def cons_ok_def cga_ok_def)
    show ?thesis unfolding run ed using wk t(2,3) ib_commit_abs(2) [OF p(1)] by (simp split: if_split)
  qed
qed

section \<open>Properties\<close>

text \<open>
  C32: the console's input buffer implements line editing: whatever the values of its wrapping indices, a typed character
  (other than ^P, which only lists the processes) changes the line being edited and the characters ready for readers
  exactly as specified - ^U erases back to the last newline, ^H and DEL erase one character and never a committed one, a newline, ^D or a full
  buffer commits the line, a character that does not fit is dropped - and the handler returns.
\<close>

theorem console_edits_line:
  assumes ok: "cons_ok s" and c: "c \<noteq> CTRL_P"
  shows "\<exists>t. consoleintr_char c s = Ok () t \<and> cons_ok t \<and> ib_abs (input t) = edit c (ib_abs (input s))"
proof -
  have inv: "ib_inv (input s)" using ok by (simp add: cons_ok_def)
  have "wp (consoleintr_char c) (\<lambda>_ t. cons_ok t \<and> ib_abs (input t) = edit c (ib_abs (input s))) s"
  proof (cases "c = CTRL_U")
    case True
    have "length (snd (ib_abs (input s))) \<le> unat (ib_e (input s) - ib_w (input s))"
    proof -
      let ?b = "input s"
      have "ib_w ?b - ib_r ?b \<le> ib_e ?b - ib_r ?b"
        using inv unfolding ib_inv_def ib_ready_def ib_len word_le_nat_alt by blast
      from unat_sub [OF this] have
        "unat (ib_e ?b - ib_r ?b) - unat (ib_w ?b - ib_r ?b) = unat (ib_e ?b - ib_w ?b)" by simp
      then show ?thesis by (simp add: ib_abs_def ib_len ib_ready_def)
    qed
    from kill_line_ok [OF ok this] show ?thesis using True by (simp add: consoleintr_char_def wp_rules)
  next
    case False
    then show ?thesis using backspace_ok [OF ok, of c] insert_ok [OF ok, of c] c by blast
  qed
  then show ?thesis by (auto simp: wp_Ok)
qed

definition demo_cons :: cons_state where
  "demo_cons = io_state.extend demo_io \<lparr>crt = (\<lambda>_. 0), panicked = False,
     input = \<lparr>ib_buf = (\<lambda>_. 0), ib_r = - 1, ib_w = - 1, ib_e = - 1\<rparr>, kbd_shift = 0\<rparr>"

lemma demo_cons_simps:
  "input demo_cons = \<lparr>ib_buf = (\<lambda>_. 0), ib_r = - 1, ib_w = - 1, ib_e = - 1\<rparr>" "\<not> panicked demo_cons" "dev_in demo_cons = (\<lambda>_ _. 0)"
  by (simp_all add: demo_cons_def io_state.defs demo_io_def proc_state.defs)

theorem console_edits_line_witness:
  "cons_ok demo_cons \<and> (\<exists>t. consoleintr_char 97 demo_cons = Ok () t \<and> cons_ok t \<and> ib_abs (input t) = ([], [97]))"
proof -
  have ok: "cons_ok demo_cons"
    by (simp add: cons_ok_def cga_ok_def demo_cons_simps ib_inv_def ib_all_def ib_ready_def ring_items_def)
  have "edit 97 (ib_abs (input demo_cons)) = ([], [97])"
    by (simp add: demo_cons_simps ib_abs_def ib_all_def ib_ready_def ring_items_def edit_def)
  then show ?thesis using ok console_edits_line [OF ok, of 97] by simp
qed

end
