(* ===== verification/Syscall.thy ===== *)
theory Syscall
  imports Console
begin

text \<open>
  How the kernel reads and writes user memory, and the system call arguments (\<^verbatim>\<open>syscall.c\<close>). The kernel runs on the page
  table of the current process, so a C dereference of a user address goes through that table: \<open>utrans\<close> is the
  processor's two-level translation of an address, for accesses by the kernel (the entry code sets CR0.WP, so a page that is
  not writable faults on writes too). A page fault in the kernel ends in the panic \<^verbatim>\<open>trap\<close>. A pointer to a user string
  is returned as the string, which cannot change while the kernel uses it.
\<close>

section \<open>User memory\<close>

definition utrans :: "memory \<Rightarrow> uint \<Rightarrow> bool \<Rightarrow> uint \<Rightarrow> uint option" where
  "utrans m pgdir wr va =
     (let pde = load32 m (pgdir + 4 * PDX va) in
      if pde AND PTE_P = 0 \<or> (wr \<and> pde AND PTE_W = 0) then None
      else
        (let pte = load32 m (p2v (PTE_ADDR pde) + 4 * PTX va) in
         if pte AND PTE_P = 0 \<or> (wr \<and> pte AND PTE_W = 0) then None
         else Some (p2v (PTE_ADDR pte) + (va AND 0xFFF))))"

definition cur_pgdir :: "'a vm_state_scheme \<Rightarrow> uint" where
  "cur_pgdir s = p2v (c_cr3 (mycpu s))"

definition rd_user8 :: "uint \<Rightarrow> ('a vm_state_scheme, uchar) kprog" where
  "rd_user8 va =
     kbind (kget (\<lambda>s. utrans (mem s) (cur_pgdir s) False va)) (\<lambda>r.
     case r of None \<Rightarrow> kpanic ''trap'' | Some a \<Rightarrow> kget (\<lambda>s. mem s a))"

definition wr_user8 :: "uint \<Rightarrow> uchar \<Rightarrow> ('a vm_state_scheme, unit) kprog" where
  "wr_user8 va v =
     kbind (kget (\<lambda>s. utrans (mem s) (cur_pgdir s) True va)) (\<lambda>r.
     case r of None \<Rightarrow> kpanic ''trap'' | Some a \<Rightarrow> kmod (\<lambda>s. s\<lparr>mem := (mem s)(a := v)\<rparr>))"

definition rd_user32 :: "uint \<Rightarrow> ('a vm_state_scheme, uint) kprog" where
  "rd_user32 va =
     kbind (rd_user8 va) (\<lambda>b0. kbind (rd_user8 (va + 1)) (\<lambda>b1. kbind (rd_user8 (va + 2)) (\<lambda>b2. kbind (rd_user8 (va + 3)) (\<lambda>b3.
     kret (ucast b0 OR push_bit 8 (ucast b1) OR push_bit 16 (ucast b2) OR push_bit 24 (ucast b3))))))"

definition wr_user32 :: "uint \<Rightarrow> uint \<Rightarrow> ('a vm_state_scheme, unit) kprog" where
  "wr_user32 va v =
     kseq (wr_user8 va (ucast v))
     (kseq (wr_user8 (va + 1) (ucast (drop_bit 8 v)))
     (kseq (wr_user8 (va + 2) (ucast (drop_bit 16 v)))
     (wr_user8 (va + 3) (ucast (drop_bit 24 v)))))"

text \<open>What can be read from a user address on, and storing a buffer there.\<close>

definition uview :: "'a vm_state_scheme \<Rightarrow> uint \<Rightarrow> bytes" where
  "uview s va = (\<lambda>i. case utrans (mem s) (cur_pgdir s) False (va + of_nat i) of Some a \<Rightarrow> mem s a | None \<Rightarrow> 0)"

primrec user_put :: "uint \<Rightarrow> bytes \<Rightarrow> nat \<Rightarrow> ('a vm_state_scheme, unit) kprog" where
  "user_put va b 0 = kret ()"
| "user_put va b (Suc n) = kseq (user_put va b n) (wr_user8 (va + of_nat n) (b n))"

section \<open>System call arguments (syscall.c)\<close>

definition cur_proc :: "('a ptable_state_scheme, proc) kprog" where
  "cur_proc = kbind myproc get_proc"

definition fetchint :: "uint \<Rightarrow> ('a vm_state_scheme, uint option) kprog" where
  "fetchint addr =
     kbind cur_proc (\<lambda>q.
     if addr \<ge> p_sz q \<or> addr + 4 > p_sz q then kret None
     else kbind (rd_user32 addr) (\<lambda>v. kret (Some v)))"

text \<open>\<open>n\<close> bytes are left before the end of the process's memory.\<close>

fun fetchstr_from :: "uint \<Rightarrow> nat \<Rightarrow> ('a vm_state_scheme, cstr option) kprog" where
  "fetchstr_from a 0 = kret None"
| "fetchstr_from a (Suc n) =
     kbind (rd_user8 a) (\<lambda>c.
     if c = 0 then kret (Some [])
     else kbind (fetchstr_from (a + 1) n) (\<lambda>r. kret (map_option (\<lambda>cs. c # cs) r)))"

definition fetchstr :: "uint \<Rightarrow> ('a vm_state_scheme, cstr option) kprog" where
  "fetchstr addr =
     kbind cur_proc (\<lambda>q.
     if addr \<ge> p_sz q then kret None else fetchstr_from addr (unat (p_sz q - addr)))"

definition argint :: "nat \<Rightarrow> ('a vm_state_scheme, uint option) kprog" where
  "argint n = kbind cur_proc (\<lambda>q. fetchint (esp (p_tf q) + 4 + 4 * of_nat n))"

definition argptr :: "nat \<Rightarrow> uint \<Rightarrow> ('a vm_state_scheme, uint option) kprog" where
  "argptr n sz =
     kbind (argint n) (\<lambda>r.
     case r of
       None \<Rightarrow> kret None
     | Some i \<Rightarrow>
         kbind cur_proc (\<lambda>q.
         if i \<ge> p_sz q \<or> i + sz > p_sz q then kret None else kret (Some i)))"

definition argstr :: "nat \<Rightarrow> ('a vm_state_scheme, cstr option) kprog" where
  "argstr n =
     kbind (argint n) (\<lambda>r.
     case r of None \<Rightarrow> kret None | Some addr \<Rightarrow> fetchstr addr)"

text \<open>Early returns: run the rest only with a value, else return \<open>e\<close>.\<close>

definition or_ret :: "('s, 'b option) kprog \<Rightarrow> 'c \<Rightarrow> ('b \<Rightarrow> ('s, 'c) kprog) \<Rightarrow> ('s, 'c) kprog" where
  "or_ret m e k = kbind m (\<lambda>r. case r of None \<Rightarrow> kret e | Some x \<Rightarrow> k x)"

end
