(* ===== verification/Sysproc.thy ===== *)
theory Sysproc
  imports Syscall
begin

text \<open>
  The process system calls, \<^verbatim>\<open>sysproc.c\<close>. \<^verbatim>\<open>sys_sleep\<close> is a turn of its loop: \<open>sys_sleep_from\<close> is where a woken sleeper goes on.
  \<^verbatim>\<open>sys_signal\<close> does not test the result of \<^verbatim>\<open>argint\<close>; what its locals hold when they are not set is an argument. A write outside
  the array \<^verbatim>\<open>handler\<close> of 257 entries has no defined effect in C and is the panic \<open>handler index\<close> of the model.
\<close>

definition sys_fork :: "('a proc_state_scheme, int) kprog" where
  "sys_fork = fork"

definition sys_exit :: "('a proc_state_scheme, int) kprog" where
  "sys_exit = exit"

definition sys_wait :: "('a proc_state_scheme, int) kprog" where
  "sys_wait = wait"

definition sys_kill :: "('a proc_state_scheme, int) kprog" where
  "sys_kill = or_ret (argint 0) (- 1) (\<lambda>pid. kill (sint pid))"

definition sys_getpid :: "('a proc_state_scheme, int) kprog" where
  "sys_getpid = kbind cur_proc (\<lambda>q. kret (p_pid q))"

definition sys_sbrk :: "('a proc_state_scheme, int) kprog" where
  "sys_sbrk =
     or_ret (argint 0) (- 1) (\<lambda>n.
     kbind cur_proc (\<lambda>q.
     kbind (growproc (sint n)) (\<lambda>r.
     if r < 0 then kret (- 1) else kret (sint (p_sz q)))))"

definition sys_sleep_from :: "uint \<Rightarrow> uint \<Rightarrow> ('a proc_state_scheme, int) kprog" where
  "sys_sleep_from ticks0 n =
     kbind (kget ticks) (\<lambda>t.
     if t - ticks0 < n then
       kbind killed (\<lambda>k. if k then kret (- 1) else sleep ChanTicks)
     else kret 0)"

definition sys_sleep :: "('a proc_state_scheme, int) kprog" where
  "sys_sleep = or_ret (argint 0) (- 1) (\<lambda>n. kbind (kget ticks) (\<lambda>ticks0. sys_sleep_from ticks0 n))"

definition sys_uptime :: "('a proc_state_scheme, int) kprog" where
  "sys_uptime = kbind (kget ticks) (\<lambda>t. kret (sint t))"

fun halt_from :: "nat \<Rightarrow> ('a io_state_scheme, unit) kprog" where
  "halt_from 0 = kret ()"
| "halt_from (Suc n) = kseq (outw 0xB004 0x2000) (halt_from n)"

definition sys_halt :: "('a io_state_scheme, int) kprog" where
  "sys_halt = kseq (halt_from (length ''Shutdown'')) (kret 0)"

definition set_handler :: "int \<Rightarrow> uint \<Rightarrow> ('a proc_state_scheme, unit) kprog" where
  "set_handler k h =
     (if 0 \<le> k \<and> k < 257 then kbind myproc (\<lambda>p. set_proc p (\<lambda>q. q\<lparr>p_handler := (p_handler q)(nat k := h)\<rparr>))
      else kpanic ''handler index'')"

definition sys_signal :: "uint \<Rightarrow> uint \<Rightarrow> ('a proc_state_scheme, int) kprog" where
  "sys_signal junk_signum junk_handler =
     kbind (argint 0) (\<lambda>a.
     kbind (argint 1) (\<lambda>b.
     let signum = (case a of Some v \<Rightarrow> v | None \<Rightarrow> junk_signum);
         handler = (case b of Some v \<Rightarrow> v | None \<Rightarrow> junk_handler) in
     kseq (if signum = - 1 then set_handler 256 handler else set_handler (sint signum) handler)
     (kret (sint handler))))"

end
