(* ===== verification/Exec.thy ===== *)
theory Exec
  imports Sysproc
begin

text \<open>
  \<^verbatim>\<open>exec\<close>, \<^verbatim>\<open>exec.c\<close>, with the ELF headers of \<^verbatim>\<open>elf.h\<close>. The path and the arguments are given as strings, with the contents they had in
  the old address space. The header structs, uninitialised in C before \<^verbatim>\<open>readi\<close> fills them, start as zero bytes.
\<close>

record elfhdr =
  e_magic :: uint
  e_elf :: bytes
  e_type :: ushort
  e_machine :: ushort
  e_version :: uint
  e_entry :: uint
  e_phoff :: uint
  e_shoff :: uint
  e_flags :: uint
  e_ehsize :: ushort
  e_phentsize :: ushort
  e_phnum :: ushort
  e_shentsize :: ushort
  e_shnum :: ushort
  e_shstrndx :: ushort

record proghdr =
  ph_type :: uint
  ph_off :: uint
  ph_vaddr :: uint
  ph_paddr :: uint
  ph_filesz :: uint
  ph_memsz :: uint
  ph_flags :: uint
  ph_align :: uint

definition get_elfhdr :: "bytes \<Rightarrow> elfhdr" where
  "get_elfhdr b = \<lparr>e_magic = get32 b 0, e_elf = (\<lambda>i. b (4 + i)), e_type = get16 b 16, e_machine = get16 b 18, e_version = get32 b 20,
     e_entry = get32 b 24, e_phoff = get32 b 28, e_shoff = get32 b 32, e_flags = get32 b 36, e_ehsize = get16 b 40,
     e_phentsize = get16 b 42, e_phnum = get16 b 44, e_shentsize = get16 b 46, e_shnum = get16 b 48, e_shstrndx = get16 b 50\<rparr>"

definition get_proghdr :: "bytes \<Rightarrow> proghdr" where
  "get_proghdr b = \<lparr>ph_type = get32 b 0, ph_off = get32 b 4, ph_vaddr = get32 b 8, ph_paddr = get32 b 12,
     ph_filesz = get32 b 16, ph_memsz = get32 b 20, ph_flags = get32 b 24, ph_align = get32 b 28\<rparr>"

abbreviation (input) ELF_MAGIC :: uint where "ELF_MAGIC \<equiv> 0x464C457F"
abbreviation (input) ELF_PROG_LOAD :: uint where "ELF_PROG_LOAD \<equiv> 1"

definition exec_bad :: "uint \<Rightarrow> nat option \<Rightarrow> ('a fs_state_scheme, int) kprog" where
  "exec_bad pgdir ip =
     kseq (if pgdir \<noteq> 0 then freevm pgdir else kret ())
     (kseq (case ip of Some ip \<Rightarrow> kseq (iunlockput ip) end_op | None \<Rightarrow> kret ())
     (kret (- 1)))"

text \<open>Loading the segments: \<open>None\<close> is a jump to \<^verbatim>\<open>bad\<close>.\<close>

fun exec_load :: "('a fs_state_scheme) devsw \<Rightarrow> uint \<Rightarrow> nat \<Rightarrow> nat \<Rightarrow> uint \<Rightarrow> uint \<Rightarrow> ('a fs_state_scheme, uint option) kprog" where
  "exec_load dv pgdir ip 0 off sz = kret (Some sz)"
| "exec_load dv pgdir ip (Suc i) off sz =
     kbind (readi dv ip (\<lambda>_. 0) off 32) (\<lambda>(r, b).
     let ph = get_proghdr b in
     if r \<noteq> 32 then kret None
     else if ph_type ph \<noteq> ELF_PROG_LOAD then exec_load dv pgdir ip i (off + 32) sz
     else if ph_memsz ph < ph_filesz ph then kret None
     else
       kbind (allocuvm pgdir sz (ph_vaddr ph + ph_memsz ph)) (\<lambda>sz.
       if sz = 0 then kret None
       else
         kbind (loaduvm dv pgdir (ph_vaddr ph) ip (ph_off ph) (ph_filesz ph)) (\<lambda>r.
         if r < 0 then kret None else exec_load dv pgdir ip i (off + 32) sz)))"

text \<open>Pushing the argument strings.\<close>

fun exec_args :: "uint \<Rightarrow> cstr list \<Rightarrow> nat \<Rightarrow> uint \<Rightarrow> (nat \<Rightarrow> uint) \<Rightarrow> ('a kmem_state_scheme, (nat \<times> uint \<times> (nat \<Rightarrow> uint)) option) kprog" where
  "exec_args pgdir [] argc sp ustack = kret (Some (argc, sp, ustack))"
| "exec_args pgdir (a # as) argc sp ustack =
     (if argc \<ge> MAXARG then kret None
      else
        (let sp = (sp - (of_nat (length a) + 1)) AND NOT 3 in
         kbind (copyout pgdir sp (cbytes a) (of_nat (length a) + 1)) (\<lambda>r.
         if r < 0 then kret None
         else exec_args pgdir as (Suc argc) sp (ustack(3 + argc := sp)))))"

definition word_bytes :: "(nat \<Rightarrow> uint) \<Rightarrow> bytes" where
  "word_bytes u = (\<lambda>k. ucast (drop_bit (8 * (k mod 4)) (u (k div 4))))"

fun last_elem :: "cstr \<Rightarrow> cstr \<Rightarrow> cstr" where
  "last_elem l [] = l"
| "last_elem l (c # cs) = last_elem (if c = SLASH then cs else l) cs"

definition exec_commit :: "cstr \<Rightarrow> uint \<Rightarrow> uint \<Rightarrow> uint \<Rightarrow> uint \<Rightarrow> ('a proc_state_scheme, int) kprog" where
  "exec_commit path pgdir sz entry sp =
     kbind myproc (\<lambda>p.
     kbind (get_proc p) (\<lambda>q.
     kseq (set_proc p (\<lambda>q. q\<lparr>p_name := safestrcpy (p_name q) (cbytes (last_elem path path)) 16\<rparr>))
     (kseq (set_proc p (\<lambda>q. q\<lparr>p_pgdir := pgdir, p_sz := sz, p_tf := (p_tf q)\<lparr>eip := entry, esp := sp\<rparr>\<rparr>))
     (kseq (switchuvm p)
     (kseq (freevm (p_pgdir q))
     (kret 0))))))"

definition exec_stack :: "cstr \<Rightarrow> cstr list \<Rightarrow> uint \<Rightarrow> uint \<Rightarrow> uint \<Rightarrow> ('a proc_state_scheme, int) kprog" where
  "exec_stack path argv pgdir entry sz =
     kbind (allocuvm pgdir (PGROUNDUP sz) (PGROUNDUP sz + 2 * PGSIZE)) (\<lambda>sz.
     if sz = 0 then exec_bad pgdir None
     else
       kseq (clearpteu pgdir (sz - 2 * PGSIZE))
       (kbind (exec_args pgdir argv 0 sz (\<lambda>_. 0)) (\<lambda>r.
       case r of
         None \<Rightarrow> exec_bad pgdir None
       | Some (argc, sp, ustack) \<Rightarrow>
           (let ustack = ustack(3 + argc := 0, 0 := 0xffffffff, 1 := of_nat argc, 2 := sp - (of_nat argc + 1) * 4);
                n = (3 + of_nat argc + 1) * 4;
                sp = sp - n in
            kbind (copyout pgdir sp (word_bytes ustack) n) (\<lambda>r.
            if r < 0 then exec_bad pgdir None else exec_commit path pgdir sz entry sp)))))"

text \<open>The comparison of the result of \<^verbatim>\<open>readi\<close> with \<^verbatim>\<open>sizeof(elf)\<close> is unsigned.\<close>

definition exec :: "('a proc_state_scheme) devsw \<Rightarrow> cstr \<Rightarrow> cstr list \<Rightarrow> ('a proc_state_scheme, int) kprog" where
  "exec dv path argv =
     kseq begin_op
     (kbind (namei dv path) (\<lambda>r.
     case r of
       None \<Rightarrow> kseq end_op (kret (- 1))
     | Some ip \<Rightarrow>
         kseq (ilock ip)
         (kbind (readi dv ip (\<lambda>_. 0) 0 52) (\<lambda>(r, b).
         let elf = get_elfhdr b in
         if (of_int r :: uint) < 52 then exec_bad 0 (Some ip)
         else if e_magic elf \<noteq> ELF_MAGIC then exec_bad 0 (Some ip)
         else
           kbind setupkvm (\<lambda>pgdir.
           if pgdir = 0 then exec_bad 0 (Some ip)
           else
             kbind (exec_load dv pgdir ip (unat (e_phnum elf)) (e_phoff elf) 0) (\<lambda>r.
             case r of
               None \<Rightarrow> exec_bad pgdir (Some ip)
             | Some sz \<Rightarrow>
                 kseq (iunlockput ip)
                 (kseq end_op
                 (exec_stack path argv pgdir (e_entry elf) sz))))))))"

end
