(* ===== verification/Sysfile.thy ===== *)
theory Sysfile
  imports Exec
begin

text \<open>
  The file system calls, \<^verbatim>\<open>sysfile.c\<close>. They take the table of device functions as an argument and return what the C code returns
  in \<^verbatim>\<open>%eax\<close>. A buffer in user memory is read with \<open>uview\<close> and filled with \<open>user_put\<close>, which stores the bytes the call produced.
\<close>

definition argfd :: "nat \<Rightarrow> ('a vm_state_scheme, (nat \<times> nat) option) kprog" where
  "argfd n =
     or_ret (argint n) None (\<lambda>fd.
     kbind cur_proc (\<lambda>q.
     if sint fd < 0 \<or> sint fd \<ge> int NOFILE then kret None
     else case p_ofile q (unat fd) of None \<Rightarrow> kret None | Some f \<Rightarrow> kret (Some (unat fd, f))))"

definition fdalloc :: "nat \<Rightarrow> ('a ptable_state_scheme, nat option) kprog" where
  "fdalloc f =
     kbind myproc (\<lambda>p.
     kbind (get_proc p) (\<lambda>q.
     case find (\<lambda>fd. p_ofile q fd = None) [0..<NOFILE] of
       None \<Rightarrow> kret None
     | Some fd \<Rightarrow> kseq (set_proc p (\<lambda>q. q\<lparr>p_ofile := (p_ofile q)(fd := Some f)\<rparr>)) (kret (Some fd))))"

definition close_fd :: "nat \<Rightarrow> ('a ptable_state_scheme, unit) kprog" where
  "close_fd fd = kbind myproc (\<lambda>p. set_proc p (\<lambda>q. q\<lparr>p_ofile := (p_ofile q)(fd := None)\<rparr>))"

definition sys_dup :: "('a vm_state_scheme, int) kprog" where
  "sys_dup =
     or_ret (argfd 0) (- 1) (\<lambda>(_, f).
     or_ret (fdalloc f) (- 1) (\<lambda>fd.
     kbind (filedup f) (\<lambda>_. kret (int fd))))"

definition sys_read :: "('a vm_state_scheme) devsw \<Rightarrow> ('a vm_state_scheme, int) kprog" where
  "sys_read dv =
     or_ret (argfd 0) (- 1) (\<lambda>(_, f).
     or_ret (argint 2) (- 1) (\<lambda>n.
     or_ret (argptr 1 n) (- 1) (\<lambda>p.
     kbind (kget (\<lambda>s. uview s p)) (\<lambda>dst.
     kbind (fileread dv f dst (sint n)) (\<lambda>(r, b).
     kseq (user_put p b (nat r)) (kret r))))))"

definition sys_write :: "('a vm_state_scheme) devsw \<Rightarrow> ('a vm_state_scheme, int) kprog" where
  "sys_write dv =
     or_ret (argfd 0) (- 1) (\<lambda>(_, f).
     or_ret (argint 2) (- 1) (\<lambda>n.
     or_ret (argptr 1 n) (- 1) (\<lambda>p.
     kbind (kget (\<lambda>s. uview s p)) (\<lambda>src. filewrite dv f src (sint n)))))"

definition sys_close :: "('a vm_state_scheme, int) kprog" where
  "sys_close =
     or_ret (argfd 0) (- 1) (\<lambda>(fd, f).
     kseq (close_fd fd) (kseq (fileclose f) (kret 0)))"

text \<open>The layout of \<^verbatim>\<open>struct stat\<close>: type, dev, ino, nlink, size at offsets 0, 4, 8, 12, 16 of 20 bytes.\<close>

definition put_stat :: "stat \<Rightarrow> bytes \<Rightarrow> bytes" where
  "put_stat st b = put32 (put16 (put32 (put32 (put16 b 0 (st_type st)) 4 (st_dev st)) 8 (st_ino st)) 12 (st_nlink st)) 16 (st_size st)"

definition sys_fstat :: "('a vm_state_scheme, int) kprog" where
  "sys_fstat =
     or_ret (argfd 0) (- 1) (\<lambda>(_, f).
     or_ret (argptr 1 20) (- 1) (\<lambda>p.
     or_ret (filestat f) (- 1) (\<lambda>st.
     kbind (kget (\<lambda>s. uview s p)) (\<lambda>b.
     kseq (user_put p (put_stat st b) 20) (kret 0)))))"

section \<open>Links\<close>

definition link_bad :: "nat \<Rightarrow> ('a fs_state_scheme, int) kprog" where
  "link_bad ip =
     kseq (ilock ip)
     (kseq (upd_inode ip (\<lambda>i. i\<lparr>i_nlink := i_nlink i - 1\<rparr>))
     (kseq (iupdate ip)
     (kseq (iunlockput ip)
     (kseq end_op
     (kret (- 1))))))"

definition do_link :: "('a fs_state_scheme) devsw \<Rightarrow> cstr \<Rightarrow> cstr \<Rightarrow> ('a fs_state_scheme, int) kprog" where
  "do_link dv old new =
     kseq begin_op
     (kbind (namei dv old) (\<lambda>r.
     case r of
       None \<Rightarrow> kseq end_op (kret (- 1))
     | Some ip \<Rightarrow>
         kseq (ilock ip)
         (kbind (get_inode ip) (\<lambda>i.
         if i_type i = T_DIR then kseq (iunlockput ip) (kseq end_op (kret (- 1)))
         else
           kseq (upd_inode ip (\<lambda>i. i\<lparr>i_nlink := i_nlink i + 1\<rparr>))
           (kseq (iupdate ip)
           (kseq (iunlock ip)
           (kbind (nameiparent dv new (\<lambda>_. 0)) (\<lambda>(r, name).
           case r of
             None \<Rightarrow> link_bad ip
           | Some dp \<Rightarrow>
               kseq (ilock dp)
               (kbind (get_inode dp) (\<lambda>d.
               kbind (get_inode ip) (\<lambda>i.
               kbind (if i_dev d \<noteq> i_dev i then kret (- 1) else dirlink dv dp name (i_inum i)) (\<lambda>r.
               if r < 0 then kseq (iunlockput dp) (link_bad ip)
               else
                 kseq (iunlockput dp)
                 (kseq (iput ip)
                 (kseq end_op
                 (kret 0)))))))))))))))"

definition sys_link :: "('a vm_state_scheme) devsw \<Rightarrow> ('a vm_state_scheme, int) kprog" where
  "sys_link dv = or_ret (argstr 0) (- 1) (\<lambda>old. or_ret (argstr 1) (- 1) (\<lambda>new. do_link dv old new))"

fun isdirempty_from :: "('a fs_state_scheme) devsw \<Rightarrow> nat \<Rightarrow> uint list \<Rightarrow> ('a fs_state_scheme, bool) kprog" where
  "isdirempty_from dv dp [] = kret True"
| "isdirempty_from dv dp (off # offs) =
     kbind (readi dv dp (\<lambda>_. 0) off 16) (\<lambda>(r, d).
     if r \<noteq> 16 then kpanic ''isdirempty: readi''
     else if de_inum (get_dirent d) \<noteq> 0 then kret False
     else isdirempty_from dv dp offs)"

definition isdirempty :: "('a fs_state_scheme) devsw \<Rightarrow> nat \<Rightarrow> ('a fs_state_scheme, bool) kprog" where
  "isdirempty dv dp = kbind (get_inode dp) (\<lambda>i. isdirempty_from dv dp (drop 2 (dir_offs (i_size i))))"

definition unlink_bad :: "nat \<Rightarrow> ('a fs_state_scheme, int) kprog" where
  "unlink_bad dp = kseq (iunlockput dp) (kseq end_op (kret (- 1)))"

text \<open>The part of \<^verbatim>\<open>sys_unlink\<close> after the entry \<open>ip\<close> at offset \<open>off\<close> of the directory \<open>dp\<close> has been found.\<close>

definition unlink_found :: "('a fs_state_scheme) devsw \<Rightarrow> nat \<Rightarrow> nat \<Rightarrow> uint \<Rightarrow> ('a fs_state_scheme, int) kprog" where
  "unlink_found dv dp ip off =
     kseq (ilock ip)
     (kbind (get_inode ip) (\<lambda>i.
     if sint (i_nlink i) < 1 then kpanic ''unlink: nlink < 1''
     else
       kbind (if i_type i = T_DIR then isdirempty dv ip else kret True) (\<lambda>empty.
       if \<not> empty then kseq (iunlockput ip) (unlink_bad dp)
       else
         kbind (writei dv dp (\<lambda>_. 0) off 16) (\<lambda>r.
         if r \<noteq> 16 then kpanic ''unlink: writei''
         else
           kseq (if i_type i = T_DIR
             then kseq (upd_inode dp (\<lambda>d. d\<lparr>i_nlink := i_nlink d - 1\<rparr>)) (iupdate dp) else kret ())
           (kseq (iunlockput dp)
           (kseq (upd_inode ip (\<lambda>i. i\<lparr>i_nlink := i_nlink i - 1\<rparr>))
           (kseq (iupdate ip)
           (kseq (iunlockput ip)
           (kseq end_op
           (kret 0))))))))))"

definition DOT :: cstr where "DOT = [46]"
definition DOTDOT :: cstr where "DOTDOT = [46, 46]"

definition do_unlink :: "('a fs_state_scheme) devsw \<Rightarrow> cstr \<Rightarrow> ('a fs_state_scheme, int) kprog" where
  "do_unlink dv path =
     kseq begin_op
     (kbind (nameiparent dv path (\<lambda>_. 0)) (\<lambda>(r, name).
     case r of
       None \<Rightarrow> kseq end_op (kret (- 1))
     | Some dp \<Rightarrow>
         kseq (ilock dp)
         (if namecmp name (cbytes DOT) = 0 \<or> namecmp name (cbytes DOTDOT) = 0 then unlink_bad dp
          else
            kbind (dirlookup dv dp name) (\<lambda>r.
            case r of None \<Rightarrow> unlink_bad dp | Some (ip, off) \<Rightarrow> unlink_found dv dp ip off))))"

definition sys_unlink :: "('a vm_state_scheme) devsw \<Rightarrow> ('a vm_state_scheme, int) kprog" where
  "sys_unlink dv = or_ret (argstr 0) (- 1) (\<lambda>path. do_unlink dv path)"

section \<open>Creating and opening\<close>

text \<open>The part of \<^verbatim>\<open>create\<close> that makes a new inode in the locked directory \<open>dp\<close>.\<close>

definition create_new :: "('a fs_state_scheme) devsw \<Rightarrow> nat \<Rightarrow> bytes \<Rightarrow> ushort \<Rightarrow> ushort \<Rightarrow> ushort \<Rightarrow> ('a fs_state_scheme, nat option) kprog" where
  "create_new dv dp name type major minor =
     kbind (get_inode dp) (\<lambda>d.
     kbind (ialloc (i_dev d) type) (\<lambda>ip.
     kseq (ilock ip)
     (kseq (upd_inode ip (\<lambda>i. i\<lparr>i_major := major, i_minor := minor, i_nlink := 1\<rparr>))
     (kseq (iupdate ip)
     (kbind (get_inode ip) (\<lambda>i.
     kseq (if type = T_DIR then
         kseq (upd_inode dp (\<lambda>d. d\<lparr>i_nlink := i_nlink d + 1\<rparr>))
         (kseq (iupdate dp)
         (kbind (dirlink dv ip (cbytes DOT) (i_inum i)) (\<lambda>r.
          if r < 0 then kpanic ''create dots''
          else
            kbind (dirlink dv ip (cbytes DOTDOT) (i_inum d)) (\<lambda>r.
            if r < 0 then kpanic ''create dots'' else kret ()))))
       else kret ())
     (kbind (dirlink dv dp name (i_inum i)) (\<lambda>r.
     if r < 0 then kpanic ''create: dirlink''
     else kseq (iunlockput dp) (kret (Some ip))))))))))"

definition create :: "('a fs_state_scheme) devsw \<Rightarrow> cstr \<Rightarrow> ushort \<Rightarrow> ushort \<Rightarrow> ushort \<Rightarrow> ('a fs_state_scheme, nat option) kprog" where
  "create dv path type major minor =
     kbind (nameiparent dv path (\<lambda>_. 0)) (\<lambda>(r, name).
     case r of
       None \<Rightarrow> kret None
     | Some dp \<Rightarrow>
         kseq (ilock dp)
         (kbind (dirlookup dv dp name) (\<lambda>r.
         case r of
           Some (ip, _) \<Rightarrow>
             kseq (iunlockput dp)
             (kseq (ilock ip)
             (kbind (get_inode ip) (\<lambda>i.
             if type = T_FILE \<and> i_type i = T_FILE then kret (Some ip)
             else kseq (iunlockput ip) (kret None))))
         | None \<Rightarrow> create_new dv dp name type major minor)))"

abbreviation (input) O_RDONLY :: uint where "O_RDONLY \<equiv> 0x000"
abbreviation (input) O_WRONLY :: uint where "O_WRONLY \<equiv> 0x001"
abbreviation (input) O_RDWR :: uint where "O_RDWR \<equiv> 0x002"
abbreviation (input) O_CREATE :: uint where "O_CREATE \<equiv> 0x200"

text \<open>The file structure and descriptor for the locked inode \<open>ip\<close>.\<close>

definition open_inode :: "nat \<Rightarrow> uint \<Rightarrow> ('a file_state_scheme, int) kprog" where
  "open_inode ip omode =
     kbind filealloc (\<lambda>r.
     kbind (case r of None \<Rightarrow> kret None | Some f \<Rightarrow> fdalloc f) (\<lambda>fd.
     case (r, fd) of
       (Some f, Some fd) \<Rightarrow>
         kseq (iunlock ip)
         (kseq end_op
         (kseq (upd_file f (\<lambda>x. x\<lparr>f_type := FD_INODE, f_ip := ip, f_off := 0, f_readable := (omode AND O_WRONLY = 0),
            f_writable := (omode AND O_WRONLY \<noteq> 0 \<or> omode AND O_RDWR \<noteq> 0)\<rparr>))
         (kret (int fd))))
     | _ \<Rightarrow>
         kseq (case r of Some f \<Rightarrow> fileclose f | None \<Rightarrow> kret ())
         (kseq (iunlockput ip)
         (kseq end_op
         (kret (- 1))))))"

definition do_open :: "('a file_state_scheme) devsw \<Rightarrow> cstr \<Rightarrow> uint \<Rightarrow> ('a file_state_scheme, int) kprog" where
  "do_open dv path omode =
     kseq begin_op
     (if omode AND O_CREATE \<noteq> 0 then
        kbind (create dv path T_FILE 0 0) (\<lambda>r.
        case r of None \<Rightarrow> kseq end_op (kret (- 1)) | Some ip \<Rightarrow> open_inode ip omode)
      else
        kbind (namei dv path) (\<lambda>r.
        case r of
          None \<Rightarrow> kseq end_op (kret (- 1))
        | Some ip \<Rightarrow>
            kseq (ilock ip)
            (kbind (get_inode ip) (\<lambda>i.
            if i_type i = T_DIR \<and> omode \<noteq> O_RDONLY
            then kseq (iunlockput ip) (kseq end_op (kret (- 1)))
            else open_inode ip omode))))"

definition sys_open :: "('a vm_state_scheme) devsw \<Rightarrow> ('a vm_state_scheme, int) kprog" where
  "sys_open dv = or_ret (argstr 0) (- 1) (\<lambda>path. or_ret (argint 1) (- 1) (\<lambda>omode. do_open dv path omode))"

text \<open>\<^verbatim>\<open>sys_mkdir\<close>, \<^verbatim>\<open>sys_mknod\<close> and \<^verbatim>\<open>sys_chdir\<close> begin the transaction before they look at their arguments.\<close>

definition fail_op :: "('a log_state_scheme, int) kprog" where
  "fail_op = kseq end_op (kret (- 1))"

definition or_fail :: "('a log_state_scheme, 'b option) kprog \<Rightarrow> ('b \<Rightarrow> ('a log_state_scheme, int) kprog) \<Rightarrow> ('a log_state_scheme, int) kprog" where
  "or_fail m k = kbind m (\<lambda>r. case r of None \<Rightarrow> fail_op | Some x \<Rightarrow> k x)"

definition sys_mkdir :: "('a vm_state_scheme) devsw \<Rightarrow> ('a vm_state_scheme, int) kprog" where
  "sys_mkdir dv =
     kseq begin_op
     (or_fail (argstr 0) (\<lambda>path.
      or_fail (create dv path T_DIR 0 0) (\<lambda>ip.
      kseq (iunlockput ip) (kseq end_op (kret 0)))))"

definition sys_mknod :: "('a vm_state_scheme) devsw \<Rightarrow> ('a vm_state_scheme, int) kprog" where
  "sys_mknod dv =
     kseq begin_op
     (or_fail (argstr 0) (\<lambda>path.
      or_fail (argint 1) (\<lambda>major.
      or_fail (argint 2) (\<lambda>minor.
      or_fail (create dv path T_DEV (ucast major) (ucast minor)) (\<lambda>ip.
      kseq (iunlockput ip) (kseq end_op (kret 0)))))))"

definition sys_chdir :: "('a vm_state_scheme) devsw \<Rightarrow> ('a vm_state_scheme, int) kprog" where
  "sys_chdir dv =
     kseq begin_op
     (or_fail (argstr 0) (\<lambda>path.
      or_fail (namei dv path) (\<lambda>ip.
      kseq (ilock ip)
      (kbind (get_inode ip) (\<lambda>i.
      if i_type i \<noteq> T_DIR then kseq (iunlockput ip) fail_op
      else
        kseq (iunlock ip)
        (kbind myproc (\<lambda>p.
        kbind (get_proc p) (\<lambda>q.
        kseq (case p_cwd q of None \<Rightarrow> kpanic ''trap'' | Some c \<Rightarrow> iput c)
        (kseq end_op
        (kseq (set_proc p (\<lambda>q. q\<lparr>p_cwd := Some ip\<rparr>))
        (kret 0)))))))))))"

section \<open>exec and pipe\<close>

text \<open>Reading the argument vector: \<open>k\<close> entries may follow entry \<open>i\<close>.\<close>

fun exec_argv :: "uint \<Rightarrow> nat \<Rightarrow> nat \<Rightarrow> ('a vm_state_scheme, cstr list option) kprog" where
  "exec_argv uargv i 0 = kret None"
| "exec_argv uargv i (Suc k) =
     or_ret (fetchint (uargv + 4 * of_nat i)) None (\<lambda>uarg.
     if uarg = 0 then kret (Some [])
     else
       or_ret (fetchstr uarg) None (\<lambda>a.
       or_ret (exec_argv uargv (Suc i) k) None (\<lambda>as. kret (Some (a # as)))))"

definition sys_exec :: "('a proc_state_scheme) devsw \<Rightarrow> ('a proc_state_scheme, int) kprog" where
  "sys_exec dv =
     or_ret (argstr 0) (- 1) (\<lambda>path.
     or_ret (argint 1) (- 1) (\<lambda>uargv.
     or_ret (exec_argv uargv 0 MAXARG) (- 1) (\<lambda>argv.
     exec dv path argv)))"

definition sys_pipe :: "('a vm_state_scheme, int) kprog" where
  "sys_pipe =
     or_ret (argptr 0 8) (- 1) (\<lambda>p.
     or_ret pipealloc (- 1) (\<lambda>(rf, wf).
     kbind (fdalloc rf) (\<lambda>fd0.
     kbind (case fd0 of None \<Rightarrow> kret None | Some _ \<Rightarrow> fdalloc wf) (\<lambda>fd1.
     case (fd0, fd1) of
       (Some a, Some b) \<Rightarrow>
         kseq (wr_user32 p (of_nat a))
         (kseq (wr_user32 (p + 4) (of_nat b))
         (kret 0))
     | _ \<Rightarrow>
         kseq (case fd0 of Some a \<Rightarrow> close_fd a | None \<Rightarrow> kret ())
         (kseq (fileclose rf)
         (kseq (fileclose wf)
         (kret (- 1))))))))"

end
