(* ===== verification/Trap.thy ===== *)
theory Trap
  imports Sysfile
begin

text \<open>
  System call dispatch (\<^verbatim>\<open>syscall\<close> of \<^verbatim>\<open>syscall.c\<close>), traps and the delivery of the divide-error signal (\<^verbatim>\<open>trap.c\<close>), and the user-side
  routine \<^verbatim>\<open>restorer\<close> (\<^verbatim>\<open>restorer.h\<close>) that a signal handler returns to. \<^verbatim>\<open>trap\<close> returns the trap frame with which the processor goes
  back to user space. It runs up to a switch to the scheduler; after a \<^verbatim>\<open>yield\<close> the process goes on with
  \<open>trap_resume\<close>. \<open>fuel\<close> bounds the characters one keyboard or serial interrupt delivers, \<open>junk\<close> stands for the uninitialised locals of
  \<^verbatim>\<open>sys_signal\<close>, \<open>cr2\<close> for the register holding the faulting address.
\<close>

section \<open>Gates (mmu.h, tvinit)\<close>

record gatedesc =
  off_15_0 :: uint
  gd_cs :: uint
  gd_args :: uint
  gd_rsv1 :: uint
  gd_type :: uint
  gd_s :: uint
  gd_dpl :: uint
  gd_p :: uint
  off_31_16 :: uint

definition SETGATE :: "bool \<Rightarrow> uint \<Rightarrow> uint \<Rightarrow> uint \<Rightarrow> gatedesc" where
  "SETGATE istrap sel off d = \<lparr>off_15_0 = off AND 0xffff, gd_cs = sel, gd_args = 0, gd_rsv1 = 0,
     gd_type = (if istrap then 0xF else 0xE), gd_s = 0, gd_dpl = d, gd_p = 1, off_31_16 = drop_bit 16 off\<rparr>"

abbreviation (input) T_DIVIDE :: uint where "T_DIVIDE \<equiv> 0"
abbreviation (input) T_SYSCALL :: uint where "T_SYSCALL \<equiv> 64"
abbreviation (input) SIGFPE :: nat where "SIGFPE \<equiv> 0"

fun tvinit_from :: "(nat \<Rightarrow> uint) \<Rightarrow> nat list \<Rightarrow> (nat \<Rightarrow> gatedesc) \<Rightarrow> (nat \<Rightarrow> gatedesc)" where
  "tvinit_from vectors [] idt = idt"
| "tvinit_from vectors (i # is) idt = tvinit_from vectors is (idt(i := SETGATE False (push_bit 3 (of_nat SEG_KCODE)) (vectors i) 0))"

definition tvinit :: "(nat \<Rightarrow> uint) \<Rightarrow> (nat \<Rightarrow> gatedesc) \<Rightarrow> (nat \<Rightarrow> gatedesc)" where
  "tvinit vectors idt =
     (tvinit_from vectors [0..<256] idt)(unat T_SYSCALL :=
        SETGATE True (push_bit 3 (of_nat SEG_KCODE)) (vectors (unat T_SYSCALL)) DPL_USER)"

section \<open>System call dispatch\<close>

definition syscalls :: "uint \<times> uint \<Rightarrow> nat \<Rightarrow> ('a cons_state_scheme, int) kprog option" where
  "syscalls junk n =
     (if n = 1 then Some sys_fork
      else if n = 2 then Some sys_exit
      else if n = 3 then Some sys_wait
      else if n = 4 then Some sys_pipe
      else if n = 5 then Some (sys_read console_devsw)
      else if n = 6 then Some sys_kill
      else if n = 7 then Some (sys_exec console_devsw)
      else if n = 8 then Some sys_fstat
      else if n = 9 then Some (sys_chdir console_devsw)
      else if n = 10 then Some sys_dup
      else if n = 11 then Some sys_getpid
      else if n = 12 then Some sys_sbrk
      else if n = 13 then Some sys_sleep
      else if n = 14 then Some sys_uptime
      else if n = 15 then Some (sys_open console_devsw)
      else if n = 16 then Some (sys_write console_devsw)
      else if n = 17 then Some (sys_mknod console_devsw)
      else if n = 18 then Some (sys_unlink console_devsw)
      else if n = 19 then Some (sys_link console_devsw)
      else if n = 20 then Some (sys_mkdir console_devsw)
      else if n = 21 then Some sys_close
      else if n = 22 then Some sys_halt
      else if n = 23 then Some (sys_signal (fst junk) (snd junk))
      else None)"

definition str :: "string \<Rightarrow> cstr" where
  "str = map of_char"

definition set_eax :: "uint \<Rightarrow> ('a ptable_state_scheme, unit) kprog" where
  "set_eax v = kbind myproc (\<lambda>p. set_proc p (\<lambda>q. q\<lparr>p_tf := (p_tf q)\<lparr>eax := v\<rparr>\<rparr>))"

definition syscall :: "uint \<times> uint \<Rightarrow> ('a cons_state_scheme, unit) kprog" where
  "syscall junk =
     kbind cur_proc (\<lambda>q.
     let num = eax (p_tf q) in
     case (if 0 <s num \<and> num <s 24 then syscalls junk (unat num) else None) of
       Some f \<Rightarrow> kbind f (\<lambda>r. set_eax (of_int r))
     | None \<Rightarrow>
         kseq (cprintf (str ''%d %s: unknown sys call %d'' @ [10]) [AInt (of_int (p_pid q)), AStr (Some (name_str (p_name q))), AInt num])
         (set_eax (- 1)))"

section \<open>Traps\<close>

text \<open>
  Delivery of the signal: the user stack gets a return address, the user's registers, the signal number and the address of
  the restorer, and the user program continues in the handler. The words are stored through the user's stack pointer
  without any check.
\<close>

definition deliver_sigfpe :: "trapframe \<Rightarrow> ('a vm_state_scheme, trapframe) kprog" where
  "deliver_sigfpe tf =
     kbind cur_proc (\<lambda>q.
     kseq (wr_user32 (esp tf - 4) 0x74)
     (kseq (wr_user32 (esp tf - 8) (ebp tf))
     (kseq (wr_user32 (esp tf - 12) (eax tf))
     (kseq (wr_user32 (esp tf - 16) (ecx tf))
     (kseq (wr_user32 (esp tf - 20) (edx tf))
     (kseq (wr_user32 (esp tf - 24) (of_nat SIGFPE))
     (kseq (wr_user32 (esp tf - 28) (p_handler q 256))
     (kret (tf\<lparr>esp := esp tf - 28, eip := p_handler q SIGFPE\<rparr>)))))))))"

definition trap_default :: "uint \<Rightarrow> trapframe \<Rightarrow> ('a cons_state_scheme, trapframe) kprog" where
  "trap_default cr2 tf =
     kbind (kget mycpu) (\<lambda>c.
     kbind (kget cur) (\<lambda>r.
     case r of
       Some p \<Rightarrow>
         (if tf_cs tf AND 3 = 0 then kpanic ''trap''
          else
            kbind (get_proc p) (\<lambda>q.
            kseq (cprintf (str ''pid %d %s: trap %d err %d on cpu %d eip 0x%x addr 0x%x--kill proc'' @ [10])
              [AInt (of_int (p_pid q)), AStr (Some (name_str (p_name q))), AInt (trapno tf), AInt (tf_err tf),
               AInt (ucast (c_id c)), AInt (eip tf), AInt cr2])
            (kseq (set_proc p (\<lambda>q. q\<lparr>p_killed := True\<rparr>)) (kret tf))))
     | None \<Rightarrow> kpanic ''trap''))"

definition trap_dispatch :: "nat \<Rightarrow> uint \<Rightarrow> trapframe \<Rightarrow> ('a cons_state_scheme, trapframe) kprog" where
  "trap_dispatch fuel cr2 tf =
     (if trapno tf = T_IRQ0 + of_nat IRQ_TIMER then
        kbind (kget mycpu) (\<lambda>c.
        kseq (if c_id c = 0 then kseq (kmod (\<lambda>s. s\<lparr>ticks := ticks s + 1\<rparr>)) (wakeup ChanTicks) else kret ())
        (kseq lapiceoi (kret tf)))
      else if trapno tf = T_IRQ0 + of_nat IRQ_IDE then kseq ideintr (kseq lapiceoi (kret tf))
      else if trapno tf = T_IRQ0 + of_nat IRQ_IDE + 1 then kret tf
      else if trapno tf = T_IRQ0 + of_nat IRQ_KBD then kseq (kbdintr fuel) (kseq lapiceoi (kret tf))
      else if trapno tf = T_IRQ0 + of_nat IRQ_COM1 then kseq (uartintr fuel) (kseq lapiceoi (kret tf))
      else if trapno tf = T_IRQ0 + 7 \<or> trapno tf = T_IRQ0 + of_nat IRQ_SPURIOUS then
        kbind (kget mycpu) (\<lambda>c.
        kseq (cprintf (str ''cpu%d: spurious interrupt at %x:%x'' @ [10]) [AInt (ucast (c_id c)), AInt (ucast (tf_cs tf)), AInt (eip tf)])
        (kseq lapiceoi (kret tf)))
      else if trapno tf = T_DIVIDE then
        kbind cur_proc (\<lambda>q.
        if p_handler q SIGFPE \<noteq> - 1 then deliver_sigfpe tf else trap_default cr2 tf)
      else trap_default cr2 tf)"

definition exit_if_killed :: "trapframe \<Rightarrow> ('a proc_state_scheme, unit) kprog" where
  "exit_if_killed tf =
     kbind (kget (\<lambda>s. case cur s of None \<Rightarrow> False | Some p \<Rightarrow> p_killed (ptab s p))) (\<lambda>k.
     if k \<and> tf_cs tf AND 3 = 3 then exit else kret ())"

definition trap_resume :: "trapframe \<Rightarrow> ('a proc_state_scheme, trapframe) kprog" where
  "trap_resume tf = kseq (exit_if_killed tf) (kret tf)"

definition trap :: "uint \<times> uint \<Rightarrow> nat \<Rightarrow> uint \<Rightarrow> trapframe \<Rightarrow> ('a cons_state_scheme, trapframe) kprog" where
  "trap junk fuel cr2 tf =
     (if trapno tf = T_SYSCALL then
        kbind killed (\<lambda>k.
        if k then exit
        else
          kbind myproc (\<lambda>p.
          kseq (set_proc p (\<lambda>q. q\<lparr>p_tf := tf\<rparr>))
          (kseq (syscall junk)
          (kbind killed (\<lambda>k.
          if k then exit else kbind cur_proc (\<lambda>q. kret (p_tf q)))))))
      else
        kbind (trap_dispatch fuel cr2 tf) (\<lambda>tf.
        kseq (exit_if_killed tf)
        (kbind (kget (\<lambda>s. case cur s of None \<Rightarrow> False | Some p \<Rightarrow> p_state (ptab s p) = RUNNING)) (\<lambda>running.
        if running \<and> trapno tf = T_IRQ0 + of_nat IRQ_TIMER then yield else trap_resume tf))))"

section \<open>Properties\<close>

text \<open>The address a gate jumps to.\<close>

definition gate_offset :: "gatedesc \<Rightarrow> uint" where
  "gate_offset g = push_bit 16 (off_31_16 g) OR off_15_0 g"

lemma SETGATE_offset: "gate_offset (SETGATE t sel off d) = off"
proof -
  have "push_bit 16 (drop_bit 16 off) OR (off AND 0xffff) = off"
  proof (rule bit_word_eqI)
    have m: "(0xffff :: uint) = mask 16" by (simp add: mask_eq_exp_minus_1)
    fix n assume "n < LENGTH(32)"
    then show "bit (push_bit 16 (drop_bit 16 off) OR (off AND 0xffff)) n = bit off n"
      unfolding m by (cases "n < 16") (auto simp: bit_simps)
  qed
  then show ?thesis by (simp add: gate_offset_def SETGATE_def)
qed

lemma tvinit_from_eq:
  "tvinit_from v is idt i = (if i \<in> set is then SETGATE False (push_bit 3 (of_nat SEG_KCODE)) (v i) 0 else idt i)"
  by (induction "is" arbitrary: idt) auto

text \<open>
  C31: after \<^verbatim>\<open>tvinit\<close> every one of the 256 gates is present, leads to its own entry point in the kernel's code segment, and the system call
  gate is the only one that user code can enter with an \<^verbatim>\<open>int\<close> instruction and the only one that leaves interrupts enabled.
\<close>

theorem tvinit_gates:
  assumes "i < 256"
  shows "gd_p (tvinit v idt i) = 1 \<and> gd_cs (tvinit v idt i) = 8 \<and> gate_offset (tvinit v idt i) = v i \<and>
     gd_dpl (tvinit v idt i) = (if i = 64 then 3 else 0) \<and> gd_type (tvinit v idt i) = (if i = 64 then 0xF else 0xE)"
proof (cases "i = 64")
  case True
  have "tvinit v idt 64 = SETGATE True 8 (v 64) 3" by (simp add: tvinit_def push_bit_eq_mult)
  then show ?thesis unfolding True by (simp add: SETGATE_offset) (simp add: SETGATE_def)
next
  case False
  then have "tvinit v idt i = SETGATE False 8 (v i) 0"
    using assms by (simp add: tvinit_def tvinit_from_eq push_bit_eq_mult del: upt_Suc upt_rec_numeral)
  then show ?thesis using False by (simp add: SETGATE_offset) (simp add: SETGATE_def)
qed

theorem tvinit_gates_witness: "gd_dpl (tvinit (\<lambda>i. of_nat i) undefined 64) = 3 \<and> gd_dpl (tvinit (\<lambda>i. of_nat i) undefined 13) = 0"
  using tvinit_gates [of 64 "\<lambda>i. of_nat i" undefined] tvinit_gates [of 13 "\<lambda>i. of_nat i" undefined] by simp

end
