(* ===== verification/Page_Table.thy ===== *)
theory Page_Table
  imports Vm
begin

text \<open>
  What the page table routines of \<^verbatim>\<open>vm.c\<close> do to an address space. \<open>tpte\<close> reads the page table entry of an address, as the
  processor does; \<open>pgdir_inv\<close> is the shape of a page directory in memory: its tables are pages of their own, none shared and none on
  the free list. \<^verbatim>\<open>mappages\<close> keeps this shape and changes the entries of exactly the pages it is asked to map.
\<close>

section \<open>Pages and entries\<close>

lemma PTE_ADDR_page: "PTE_ADDR e = PGROUNDDOWN e"
  by (simp add: PTE_ADDR_def PGROUNDDOWN_def)

lemma page_of:
  assumes "a mod PGSIZE = 0" "i < PGSIZE"
  shows "PGROUNDDOWN (a + i) = a"
proof -
  have "unat a mod 4096 = 0" "unat i < 4096" using assms by (simp_all add: unat_mod_4096 word_less_nat_alt)
  moreover have "(unat a + unat i) div 4096 = unat a div 4096 + unat i div 4096" using calculation(1) by (intro div_plus_div_distrib_dvd_left) auto
  ultimately have "unat (PGROUNDDOWN (a + i)) = unat a"
    unfolding unat_PGROUNDDOWN using unat_page_offset [OF assms] by (simp add: mod_0_imp_dvd)
  then show ?thesis by (simp add: word_unat_eq_iff)
qed

lemma and_mod_PGSIZE: "(a :: uint) AND 0xFFF = a mod PGSIZE"
proof -
  have "(0xFFF :: uint) = mask 12" by (simp add: mask_eq_exp_minus_1)
  then have "a AND 0xFFF = take_bit 12 a" by (simp add: take_bit_eq_mask)
  then show ?thesis by (simp add: take_bit_eq_mod)
qed

lemma page_off: "PGROUNDDOWN x + (x AND 0xFFF) = x" "(x AND 0xFFF) < (PGSIZE :: uint)"
proof -
  have "PGROUNDDOWN x = PGSIZE * (x div PGSIZE)" using and_not_mask_12 by (simp only: PGROUNDDOWN_def)
  then show "PGROUNDDOWN x + (x AND 0xFFF) = x" by (simp only: and_mod_PGSIZE mult_div_mod_eq)
  show "(x AND 0xFFF) < (PGSIZE :: uint)" by (rule le_less_trans [OF word_and_le1]) simp
qed

lemma p2v_aligned [simp]: "a mod PGSIZE = 0 \<Longrightarrow> p2v a mod PGSIZE = 0"
proof -
  assume "a mod PGSIZE = 0"
  then have "unat a mod 4096 = 0" by (simp add: unat_mod_4096)
  moreover have "unat (p2v a) mod 4096 = (unat a + 0x80000000) mod 4096"
    by (simp add: p2v_def KERNBASE_def unat_word_ariths mod_mod_cancel)
  moreover have "(unat a + 0x80000000) mod 4096 = (unat a mod 4096 + 0x80000000 mod 4096) mod 4096" by (rule mod_add_eq [symmetric])
  ultimately have "unat (p2v a) mod 4096 = 0" by simp
  then show ?thesis by (simp add: unat_mod_4096)
qed

lemma v2p_aligned: "a mod PGSIZE = 0 \<Longrightarrow> v2p a mod PGSIZE = 0"
proof -
  assume "a mod PGSIZE = 0"
  moreover have "v2p a = p2v a" by (simp add: v2p_def p2v_def KERNBASE_def)
  ultimately show ?thesis by simp
qed

lemma PTE_ADDR_OR:
  assumes "a mod PGSIZE = 0" "f AND NOT 0xFFF = 0"
  shows "PTE_ADDR (a OR f) = a"
proof -
  have "PTE_ADDR (a OR f) = (a AND NOT 0xFFF) OR (f AND NOT 0xFFF)" by (simp only: PTE_ADDR_def bit.conj_disj_distrib2)
  also have "\<dots> = PGROUNDDOWN (a + 0)" using assms(2) by (simp add: PGROUNDDOWN_def)
  finally show ?thesis using page_of [OF assms(1), of 0] by simp
qed

lemma bit_PGROUNDDOWN: "bit (PGROUNDDOWN a) n \<longleftrightarrow> bit a n \<and> 12 \<le> n"
proof -
  have "PGROUNDDOWN a = a AND NOT (mask 12)" by (simp add: PGROUNDDOWN_def mask_eq_exp_minus_1)
  then show ?thesis by (auto simp: bit_simps dest: bit_imp_le_length)
qed

lemma bit_PDX: "bit (PDX va) n \<longleftrightarrow> n < 10 \<and> bit va (22 + n)" "bit (PTX va) n \<longleftrightarrow> n < 10 \<and> bit va (12 + n)"
proof -
  have m: "(0x3FF :: uint) = mask 10" by (simp add: mask_eq_exp_minus_1)
  show "bit (PDX va) n \<longleftrightarrow> n < 10 \<and> bit va (22 + n)" "bit (PTX va) n \<longleftrightarrow> n < 10 \<and> bit va (12 + n)"
    unfolding PDX_def PTX_def m by (auto simp: bit_simps)
qed

lemma PDX_lt: "PDX va < 1024" "PTX va < 1024"
  unfolding PDX_def PTX_def by (rule le_less_trans [OF word_and_le1]; simp)+

lemma same_page: "PGROUNDDOWN va = PGROUNDDOWN vb \<longleftrightarrow> PDX va = PDX vb \<and> PTX va = PTX vb"
proof
  assume eq: "PGROUNDDOWN va = PGROUNDDOWN vb"
  have "bit va n \<longleftrightarrow> bit vb n" if "12 \<le> n" for n using bit_PGROUNDDOWN [of va n] bit_PGROUNDDOWN [of vb n] eq that by simp
  then show "PDX va = PDX vb \<and> PTX va = PTX vb" by (intro conjI bit_word_eqI) (simp_all add: bit_PDX)
next
  assume eq: "PDX va = PDX vb \<and> PTX va = PTX vb"
  show "PGROUNDDOWN va = PGROUNDDOWN vb"
  proof (rule bit_word_eqI)
    fix n assume "n < LENGTH(32)"
    then have "n < 32" by simp
    then have "12 \<le> n \<Longrightarrow> \<exists>k<10. n = 12 + k \<or> n = 22 + k" by presburger
    then show "bit (PGROUNDDOWN va) n = bit (PGROUNDDOWN vb) n"
      using bit_PDX [of va] bit_PDX [of vb] eq by (auto simp: bit_PGROUNDDOWN)
  qed
qed

text \<open>The four bytes of an entry lie in the page of its table.\<close>

lemma entry_off: "d < 1024 \<Longrightarrow> i < 4 \<Longrightarrow> 4 * d + i < (PGSIZE :: uint)"
  by (simp add: word_less_nat_alt unat_word_ariths)

lemma entry_eq: "(d :: uint) < 1024 \<Longrightarrow> d' < 1024 \<Longrightarrow> i < 4 \<Longrightarrow> j < 4 \<Longrightarrow> 4 * d + i = 4 * d' + j \<Longrightarrow> d = d' \<and> i = j"
  by (simp add: word_less_nat_alt word_unat_eq_iff unat_word_ariths) presburger

lemma load32_other_entry:
  assumes "T mod PGSIZE = 0" "T' mod PGSIZE = 0" "d < 1024" "d' < 1024" "T \<noteq> T' \<or> d \<noteq> d'"
  shows "load32 (store32 m (T + 4 * d) v) (T' + 4 * d') = load32 m (T' + 4 * d')"
proof (rule load32_cong)
  fix i :: uint assume i: "i < 4"
  have "\<not> T' + 4 * d' + i - (T + 4 * d) < 4"
  proof
    assume j: "T' + 4 * d' + i - (T + 4 * d) < 4"
    define j where "j = T' + 4 * d' + i - (T + 4 * d)"
    have e: "T' + (4 * d' + i) = T + (4 * d + j)" by (simp add: j_def algebra_simps)
    then have "T' = T" using page_offset_unique [OF assms(2,1) entry_off [OF assms(4) i] entry_off [OF assms(3)]] j j_def by metis
    then show False using e assms(5) entry_eq [OF assms(4,3) i, of j] j j_def by simp
  qed
  then show "store32 m (T + 4 * d) v (T' + 4 * d' + i) = m (T' + 4 * d' + i)" by (rule store32_outside)
qed

lemma store32_other_page:
  assumes "T mod PGSIZE = 0" "d < 1024" "PGROUNDDOWN x \<noteq> T"
  shows "store32 m (T + 4 * d) v x = m x"
proof (rule store32_outside, rule)
  assume "x - (T + 4 * d) < 4"
  then have "PGROUNDDOWN (T + (4 * d + (x - (T + 4 * d)))) = T" by (intro page_of [OF assms(1)] entry_off [OF assms(2)])
  then show False using assms(3) by simp
qed

lemma memset_other_page:
  assumes "T mod PGSIZE = 0" "PGROUNDDOWN x \<noteq> T"
  shows "memset T c PGSIZE m x = m x"
  using page_of [OF assms(1), of "x - T"] assms(2) by (auto simp: memset_eq)

lemma load32_page_cong:
  assumes "T mod PGSIZE = 0" "d < 1024" "\<And>x. PGROUNDDOWN x = T \<Longrightarrow> m x = n x"
  shows "load32 m (T + 4 * d) = load32 n (T + 4 * d)"
  by (rule load32_cong) (use assms page_of [OF assms(1) entry_off [OF assms(2)]] in \<open>simp add: add.assoc\<close>)

lemma load32_zeroed:
  assumes "T mod PGSIZE = 0" "d < 1024"
  shows "load32 (memset T 0 PGSIZE m) (T + 4 * d) = 0"
proof -
  have "load32 (memset T 0 PGSIZE m) (T + 4 * d) = load32 (\<lambda>_. 0) (T + 4 * d)"
  proof (rule load32_cong)
    fix i :: uint assume "i < 4"
    then have "4 * d + i < PGSIZE" using entry_off assms by blast
    then show "memset T 0 PGSIZE m (T + 4 * d + i) = 0" by (simp add: memset_eq add.assoc)
  qed
  then show ?thesis by (simp add: load32_def)
qed

section \<open>The shape of a page directory\<close>

definition ent :: "memory \<Rightarrow> uint \<Rightarrow> uint \<Rightarrow> uint" where
  "ent m pgdir d = load32 m (pgdir + 4 * d)"

abbreviation present :: "uint \<Rightarrow> bool" where "present e \<equiv> e AND PTE_P \<noteq> 0"

lemma present_bit: "present e \<longleftrightarrow> bit e 0"
  using flag_test [of PTE_P 0 e] by (simp add: PTE_P_def)

abbreviation tab :: "uint \<Rightarrow> uint" where "tab e \<equiv> p2v (PTE_ADDR e)"

text \<open>The page table entry for an address, 0 where there is no page table.\<close>

definition tpte :: "memory \<Rightarrow> uint \<Rightarrow> uint \<Rightarrow> uint" where
  "tpte m pgdir va =
     (let e = ent m pgdir (PDX va) in if present e then load32 m (tab e + 4 * PTX va) else 0)"

definition tables :: "memory \<Rightarrow> uint \<Rightarrow> uint set" where
  "tables m pgdir = {tab (ent m pgdir d) | d. d < 1024 \<and> present (ent m pgdir d)}"

definition pgdir_inv :: "'a kmem_state_scheme \<Rightarrow> uint \<Rightarrow> uint list \<Rightarrow> bool" where
  "pgdir_inv s pgdir xs \<longleftrightarrow> kmem_inv s xs \<and> pgdir mod PGSIZE = 0 \<and> pgdir \<notin> set xs \<and>
     pgdir \<notin> tables (mem s) pgdir \<and> 0 \<notin> tables (mem s) pgdir \<and> tables (mem s) pgdir \<inter> set xs = {} \<and>
     (\<forall>d e. d < 1024 \<longrightarrow> e < 1024 \<longrightarrow> present (ent (mem s) pgdir d) \<longrightarrow> present (ent (mem s) pgdir e) \<longrightarrow>
        tab (ent (mem s) pgdir d) = tab (ent (mem s) pgdir e) \<longrightarrow> d = e)"

lemma tab_aligned: "tab e mod PGSIZE = 0"
  by (simp only: PTE_ADDR_page p2v_aligned PGROUNDDOWN_aligned)

lemma tables_aligned: "T \<in> tables m pgdir \<Longrightarrow> T mod PGSIZE = 0"
  using tab_aligned by (auto simp: tables_def)

lemma tablesI: "d < 1024 \<Longrightarrow> present (ent m pgdir d) \<Longrightarrow> tab (ent m pgdir d) \<in> tables m pgdir"
  by (auto simp: tables_def)

lemma free_aligned: "kmem_inv s xs \<Longrightarrow> x \<in> set xs \<Longrightarrow> x mod PGSIZE = 0"
  by (auto simp: kmem_inv_def page_ok_def)

text \<open>Changes outside the directory, its tables and the free pages keep everything.\<close>

lemma ent_cong:
  assumes "pgdir mod PGSIZE = 0" "\<And>x. PGROUNDDOWN x = pgdir \<Longrightarrow> n x = m x" "d < 1024"
  shows "ent n pgdir d = ent m pgdir d"
  unfolding ent_def by (rule load32_page_cong [OF assms(1,3)]) (rule assms(2))

lemma tpte_cong:
  assumes "pgdir mod PGSIZE = 0" "\<And>x. PGROUNDDOWN x = pgdir \<or> PGROUNDDOWN x \<in> tables m pgdir \<Longrightarrow> n x = m x"
  shows "tpte n pgdir va = tpte m pgdir va"
proof -
  have e: "ent n pgdir (PDX va) = ent m pgdir (PDX va)" by (rule ent_cong [OF assms(1) _ PDX_lt(1)]) (simp add: assms(2))
  have "load32 n (tab (ent m pgdir (PDX va)) + 4 * PTX va) = load32 m (tab (ent m pgdir (PDX va)) + 4 * PTX va)" if "present (ent m pgdir (PDX va))"
    by (rule load32_page_cong [OF tab_aligned PDX_lt(2)]) (use assms(2) tablesI [OF PDX_lt(1) that] in simp)
  then show ?thesis by (simp add: tpte_def Let_def e)
qed

lemma tables_cong:
  assumes "\<And>d. d < 1024 \<Longrightarrow> ent n pgdir d = ent m pgdir d"
  shows "tables n pgdir = tables m pgdir"
  using assms unfolding tables_def by force

section \<open>Finding and making an entry\<close>

lemma walk_present:
  assumes "present (ent (mem s) pgdir (PDX va))"
  shows "walkpgdir pgdir va alloc s = Ok (tab (ent (mem s) pgdir (PDX va)) + 4 * PTX va) s"
  using assms by (simp add: walkpgdir_def Let_def rd32_def ent_def kbind_def kget_def kret_def)

lemma walk_absent: "\<not> present (ent (mem s) pgdir (PDX va)) \<Longrightarrow> walkpgdir pgdir va False s = Ok 0 s"
  by (simp add: walkpgdir_def Let_def rd32_def ent_def kbind_def kget_def kret_def)

lemma flags_7: "PTE_P OR PTE_W OR PTE_U = 7"
  by (simp add: PTE_P_def PTE_W_def PTE_U_def)

lemma pte_addr_nonzero: "T mod PGSIZE = 0 \<Longrightarrow> T \<noteq> 0 \<Longrightarrow> T + 4 * PTX va \<noteq> 0"
  using page_of [of T "4 * PTX va"] entry_off [OF PDX_lt(2), of 0 va] by (auto simp: PGROUNDDOWN_def)

lemma walk_fresh:
  assumes inv: "pgdir_inv s pgdir (x # xs)" and no: "\<not> present (ent (mem s) pgdir (PDX va))"
  obtains t where "walkpgdir pgdir va True s = Ok (x + 4 * PTX va) t" "pgdir_inv t pgdir xs"
    "ent (mem t) pgdir (PDX va) = v2p x OR 7" "tab (ent (mem t) pgdir (PDX va)) = x" "\<And>vb. tpte (mem t) pgdir vb = tpte (mem s) pgdir vb"
    "\<And>a. PGROUNDDOWN a \<noteq> pgdir \<Longrightarrow> PGROUNDDOWN a \<noteq> x \<Longrightarrow> mem t a = mem s a" "tables (mem t) pgdir = insert x (tables (mem s) pgdir)"
    "t = s\<lparr>mem := mem t, freelist := freelist t\<rparr>"
proof -
  let ?e = "v2p x OR 7" and ?m1 = "memset x 0 PGSIZE (mem s)"
  let ?m = "store32 ?m1 (pgdir + 4 * PDX va) ?e"
  let ?t = "s\<lparr>freelist := load32 (mem s) x, mem := ?m\<rparr>"
  have k: "kmem_inv s (x # xs)" and pg: "pgdir mod PGSIZE = 0" "pgdir \<notin> set (x # xs)" "pgdir \<notin> tables (mem s) pgdir"
    "0 \<notin> tables (mem s) pgdir" "tables (mem s) pgdir \<inter> set (x # xs) = {}"
    and inj: "\<And>d e. d < 1024 \<Longrightarrow> e < 1024 \<Longrightarrow> present (ent (mem s) pgdir d) \<Longrightarrow> present (ent (mem s) pgdir e) \<Longrightarrow>
      tab (ent (mem s) pgdir d) = tab (ent (mem s) pgdir e) \<Longrightarrow> d = e"
    using inv unfolding pgdir_inv_def by blast+
  have x: "x mod PGSIZE = 0" "x \<noteq> 0" "x \<noteq> pgdir" "x \<notin> tables (mem s) pgdir" "x \<notin> set xs"
    using free_aligned [OF k] k pg(2,5) page_ok_nonzero by (auto simp: kmem_inv_def)
  note al = kalloc_Cons [OF k]
  have run: "walkpgdir pgdir va True s = Ok (x + 4 * PTX va) ?t"
    using no al x(2) by (simp add: walkpgdir_def Let_def rd32_def ent_def kbind_def kget_def kret_def kseq_def kmemset_def wr32_def kmod_def flags_7)
  have out: "?m a = mem s a" if "PGROUNDDOWN a \<noteq> pgdir" "PGROUNDDOWN a \<noteq> x" for a
    using store32_other_page [OF pg(1) PDX_lt(1) that(1)] memset_other_page [OF x(1) that(2)] by simp
  have ev: "ent ?m pgdir (PDX va) = ?e" by (simp add: ent_def)
  have et: "tab ?e = x" using PTE_ADDR_OR [of "v2p x" 7] v2p_aligned [OF x(1)] by simp
  have ep: "present ?e" unfolding present_bit bit_or_iff by simp
  have eo: "ent ?m pgdir d = ent (mem s) pgdir d" if "d < 1024" "d \<noteq> PDX va" for d
  proof -
    have "ent ?m pgdir d = ent ?m1 pgdir d" 
      unfolding ent_def by (rule load32_other_entry [OF pg(1) pg(1) PDX_lt(1) that(1)]) (use that(2) in simp)
    also have "\<dots> = ent (mem s) pgdir d" by (rule ent_cong [OF pg(1) _ that(1)]) (use memset_other_page [OF x(1)] x(3) in metis)
    finally show ?thesis .
  qed
  have tb: "tables ?m pgdir = insert x (tables (mem s) pgdir)"
  proof -
    have "tab (ent ?m pgdir d) \<in> insert x (tables (mem s) pgdir)" if "d < 1024" "present (ent ?m pgdir d)" for d
      using that ev et eo tablesI by (cases "d = PDX va") auto
    moreover have "tab (ent (mem s) pgdir d) \<in> tables ?m pgdir" if "d < 1024" "present (ent (mem s) pgdir d)" for d
      using that no eo [of d] tablesI [of d ?m pgdir] by (cases "d = PDX va") auto
    moreover have "x \<in> tables ?m pgdir" using tablesI [OF PDX_lt(1), of ?m pgdir va] ev et ep by simp
    ultimately show ?thesis unfolding tables_def by blast
  qed
  have tp: "tpte ?m pgdir vb = tpte (mem s) pgdir vb" for vb
  proof (cases "PDX vb = PDX va")
    case True
    have "load32 ?m (x + 4 * PTX vb) = load32 ?m1 (x + 4 * PTX vb)" 
      by (rule load32_other_entry [OF pg(1) x(1) PDX_lt(1) PDX_lt(2)]) (use x(3) in simp)
    also have "\<dots> = 0" by (rule load32_zeroed [OF x(1) PDX_lt(2)])
    finally show ?thesis using True ev et ep no by (simp add: tpte_def Let_def)
  next
    case False
    have "load32 ?m (tab (ent (mem s) pgdir (PDX vb)) + 4 * PTX vb) = load32 (mem s) (tab (ent (mem s) pgdir (PDX vb)) + 4 * PTX vb)"
      if "present (ent (mem s) pgdir (PDX vb))"
      by (rule load32_page_cong [OF tab_aligned PDX_lt(2)]) (use out x(4) pg(3) tablesI [OF PDX_lt(1) that] in metis)
    then show ?thesis using eo [OF PDX_lt(1) False] by (simp add: tpte_def Let_def)
  qed
  have "kmem_inv ?t xs"
  proof (rule kmem_inv_frame [OF conjunct2 [OF al]])
    fix a i assume "a \<in> set xs" "i < PGSIZE"
    then have "PGROUNDDOWN (a + i) = a" "a \<noteq> pgdir" "a \<noteq> x" using page_of free_aligned [OF k] pg(2) x(5) by auto
    then show "mem ?t (a + i) = mem (s\<lparr>freelist := load32 (mem s) x\<rparr>) (a + i)" using out by simp
  qed simp_all
  moreover have "d = e" if "d < 1024" "e < 1024" "present (ent ?m pgdir d)" "present (ent ?m pgdir e)" "tab (ent ?m pgdir d) = tab (ent ?m pgdir e)" for d e
    using that ev et eo [of d] eo [of e] x(4) tablesI [of d "mem s" pgdir] tablesI [of e "mem s" pgdir] inj by (metis (no_types))
  ultimately have "pgdir_inv ?t pgdir xs"
    using pg x tb unfolding pgdir_inv_def by auto
  then show ?thesis using that [OF run] ev et tp out tb by simp
qed

lemma pgdir_invD:
  assumes "pgdir_inv s pgdir xs"
  shows "kmem_inv s xs" "pgdir mod PGSIZE = 0" "pgdir \<notin> set xs" "pgdir \<notin> tables (mem s) pgdir" "0 \<notin> tables (mem s) pgdir"
    "tables (mem s) pgdir \<inter> set xs = {}"
    "\<And>d e. d < 1024 \<Longrightarrow> e < 1024 \<Longrightarrow> present (ent (mem s) pgdir d) \<Longrightarrow> present (ent (mem s) pgdir e) \<Longrightarrow>
       tab (ent (mem s) pgdir d) = tab (ent (mem s) pgdir e) \<Longrightarrow> d = e"
  using assms unfolding pgdir_inv_def by blast+

text \<open>Changes outside the directory and the free pages keep the shape.\<close>

lemma pgdir_inv_frame:
  assumes inv: "pgdir_inv s pgdir xs" and t: "freelist t = freelist s" "kend t = kend s"
    and same: "\<And>a. PGROUNDDOWN a = pgdir \<or> PGROUNDDOWN a \<in> set xs \<Longrightarrow> mem t a = mem s a"
  shows "pgdir_inv t pgdir xs"
proof -
  note i = pgdir_invD [OF inv]
  have e: "ent (mem t) pgdir d = ent (mem s) pgdir d" if "d < 1024" for d by (rule ent_cong [OF i(2) _ that]) (simp add: same)
  have "kmem_inv t xs"
    by (rule kmem_inv_frame [OF i(1) t]) (use same page_of free_aligned [OF i(1)] in metis)
  moreover have "tables (mem t) pgdir = tables (mem s) pgdir" by (rule tables_cong) (rule e)
  ultimately show ?thesis using i e unfolding pgdir_inv_def by auto
qed

lemma store_pte:
  assumes inv: "pgdir_inv s pgdir xs" and e: "e = ent (mem s) pgdir (PDX va)" "present e"
    and t: "t = s\<lparr>mem := store32 (mem s) (tab e + 4 * PTX va) v\<rparr>"
  shows "pgdir_inv t pgdir xs" "tpte (mem t) pgdir vb = (if PGROUNDDOWN vb = PGROUNDDOWN va then v else tpte (mem s) pgdir vb)"
    "tables (mem t) pgdir = tables (mem s) pgdir" "PGROUNDDOWN a \<noteq> tab e \<Longrightarrow> mem t a = mem s a"
proof -
  note i = pgdir_invD [OF inv]
  have te: "tab e \<in> tables (mem s) pgdir" using tablesI [OF PDX_lt(1)] e by blast
  then have away: "tab e \<noteq> pgdir" "tab e \<notin> set xs" using i(4,6) by blast+
  have out: "mem t a = mem s a" if "PGROUNDDOWN a \<noteq> tab e" for a
    using store32_other_page [OF tab_aligned PDX_lt(2) that] t by simp
  then show "PGROUNDDOWN a \<noteq> tab e \<Longrightarrow> mem t a = mem s a" .
  show "pgdir_inv t pgdir xs"
  proof (rule pgdir_inv_frame [OF inv])
    fix a assume "PGROUNDDOWN a = pgdir \<or> PGROUNDDOWN a \<in> set xs"
    then show "mem t a = mem s a" using away by (intro out) auto
  qed (simp_all add: t)
  have en: "ent (mem t) pgdir d = ent (mem s) pgdir d" if "d < 1024" for d
    by (rule ent_cong [OF i(2) _ that]) (use out away in auto)
  then show "tables (mem t) pgdir = tables (mem s) pgdir" by (rule tables_cong)
  let ?f = "ent (mem s) pgdir (PDX vb)"
  show "tpte (mem t) pgdir vb = (if PGROUNDDOWN vb = PGROUNDDOWN va then v else tpte (mem s) pgdir vb)"
  proof (cases "PGROUNDDOWN vb = PGROUNDDOWN va")
    case True
    then have "PDX vb = PDX va" "PTX vb = PTX va" using same_page by blast+
    then show ?thesis using e en [OF PDX_lt(1)] t True by (simp add: tpte_def)
  next
    case False
    have "load32 (mem t) (tab ?f + 4 * PTX vb) = load32 (mem s) (tab ?f + 4 * PTX vb)" if f: "present ?f"
    proof -
      have "tab e \<noteq> tab ?f \<or> PTX va \<noteq> PTX vb" using False same_page i(7) [OF PDX_lt(1) PDX_lt(1) _ f, of va] e by metis
      then show ?thesis unfolding t using load32_other_entry [OF tab_aligned tab_aligned PDX_lt(2) PDX_lt(2)] by simp
    qed
    then show ?thesis using False en [OF PDX_lt(1), of vb] by (simp add: tpte_def Let_def)
  qed
qed

text \<open>What the page table routines change: entries, tables and free pages, nothing else.\<close>

definition vm_step :: "'a kmem_state_scheme \<Rightarrow> uint \<Rightarrow> uint list \<Rightarrow> 'a kmem_state_scheme \<Rightarrow> uint list \<Rightarrow> bool" where
  "vm_step s pgdir xs t ys \<longleftrightarrow> pgdir_inv t pgdir ys \<and> (\<exists>zs. xs = zs @ ys \<and> tables (mem t) pgdir \<subseteq> tables (mem s) pgdir \<union> set zs) \<and>
     tables (mem s) pgdir \<subseteq> tables (mem t) pgdir \<and>
     (\<forall>a. PGROUNDDOWN a \<noteq> pgdir \<and> PGROUNDDOWN a \<notin> tables (mem s) pgdir \<and> PGROUNDDOWN a \<notin> set xs \<longrightarrow> mem t a = mem s a) \<and>
     t = s\<lparr>mem := mem t, freelist := freelist t\<rparr>"

lemma vm_stepI:
  assumes "pgdir_inv t pgdir ys" "xs = zs @ ys" "tables (mem t) pgdir = tables (mem s) pgdir \<union> set zs"
    "\<And>a. PGROUNDDOWN a \<noteq> pgdir \<Longrightarrow> PGROUNDDOWN a \<notin> tables (mem s) pgdir \<Longrightarrow> PGROUNDDOWN a \<notin> set xs \<Longrightarrow> mem t a = mem s a"
    "t = s\<lparr>mem := mem t, freelist := freelist t\<rparr>"
  shows "vm_step s pgdir xs t ys"
  unfolding vm_step_def using assms by blast

lemma vm_stepI':
  assumes "pgdir_inv t pgdir ys" "xs = zs @ ys" "tables (mem t) pgdir \<subseteq> tables (mem s) pgdir \<union> set zs" "tables (mem s) pgdir \<subseteq> tables (mem t) pgdir"
    "\<And>a. PGROUNDDOWN a \<noteq> pgdir \<Longrightarrow> PGROUNDDOWN a \<notin> tables (mem s) pgdir \<Longrightarrow> PGROUNDDOWN a \<notin> set xs \<Longrightarrow> mem t a = mem s a"
    "t = s\<lparr>mem := mem t, freelist := freelist t\<rparr>"
  shows "vm_step s pgdir xs t ys"
  unfolding vm_step_def using assms by blast

lemma vm_step_refl: "pgdir_inv s pgdir xs \<Longrightarrow> vm_step s pgdir xs s xs"
  by (auto simp: vm_step_def)

lemma vm_step_trans:
  assumes "vm_step s pgdir xs t ys" "vm_step t pgdir ys u zs"
  shows "vm_step s pgdir xs u zs"
proof -
  obtain as where a: "xs = as @ ys" "tables (mem t) pgdir \<subseteq> tables (mem s) pgdir \<union> set as" using assms(1) by (auto simp: vm_step_def)
  obtain bs where b: "ys = bs @ zs" "tables (mem u) pgdir \<subseteq> tables (mem t) pgdir \<union> set bs" using assms(2) by (auto simp: vm_step_def)
  have "mem u x = mem s x" if "PGROUNDDOWN x \<noteq> pgdir" "PGROUNDDOWN x \<notin> tables (mem s) pgdir" "PGROUNDDOWN x \<notin> set xs" for x
    using that assms a unfolding vm_step_def by (metis (no_types, lifting) Un_iff set_append subsetD)
  moreover have "u = s\<lparr>mem := mem u, freelist := freelist u\<rparr>"
    using assms unfolding vm_step_def by (metis (no_types, lifting) kmem_state.surjective kmem_state.update_convs)
  moreover have "xs = (as @ bs) @ zs" "tables (mem u) pgdir \<subseteq> tables (mem s) pgdir \<union> set (as @ bs)" using a b by auto
  ultimately show ?thesis using assms unfolding vm_step_def by blast
qed

lemma walk_alloc:
  assumes inv: "pgdir_inv s pgdir xs" and xs: "xs \<noteq> []"
  obtains t ys where "walkpgdir pgdir va True s = Ok (tab (ent (mem t) pgdir (PDX va)) + 4 * PTX va) t" "vm_step s pgdir xs t ys"
    "present (ent (mem t) pgdir (PDX va))" "\<And>vb. tpte (mem t) pgdir vb = tpte (mem s) pgdir vb" "length xs \<le> Suc (length ys)"
proof (cases "present (ent (mem s) pgdir (PDX va))")
  case True
  then show ?thesis using that [OF walk_present [OF True] vm_step_refl [OF inv] True] by simp
next
  case False
  obtain x ys where x: "xs = x # ys" using xs by (cases xs) auto
  obtain t where t: "walkpgdir pgdir va True s = Ok (x + 4 * PTX va) t" "pgdir_inv t pgdir ys"
    "ent (mem t) pgdir (PDX va) = v2p x OR 7" "tab (ent (mem t) pgdir (PDX va)) = x" "\<And>vb. tpte (mem t) pgdir vb = tpte (mem s) pgdir vb"
    "\<And>a. PGROUNDDOWN a \<noteq> pgdir \<Longrightarrow> PGROUNDDOWN a \<noteq> x \<Longrightarrow> mem t a = mem s a" "tables (mem t) pgdir = insert x (tables (mem s) pgdir)"
    "t = s\<lparr>mem := mem t, freelist := freelist t\<rparr>"
    by (rule walk_fresh [OF inv [unfolded x] False], rule that)
  have "vm_step s pgdir xs t ys"
    by (rule vm_stepI [where zs = "[x]", OF t(2) _ _ _ t(8)]) (use t(6,7) x in auto)
  moreover have "present (ent (mem t) pgdir (PDX va))" unfolding t(3) present_bit bit_or_iff by simp
  ultimately show ?thesis using that [of t ys] t(1,4,5) x by simp
qed

section \<open>Mapping pages\<close>

text \<open>The entry \<^verbatim>\<open>mappages\<close> writes for the page \<open>off\<close> bytes after the first one.\<close>

abbreviation (input) new_pte :: "uint \<Rightarrow> uint \<Rightarrow> uint \<Rightarrow> uint" where
  "new_pte pa perm off \<equiv> (pa + off) OR perm OR PTE_P"

lemma map_one:
  assumes inv: "pgdir_inv s pgdir xs" and xs: "xs \<noteq> []" and un: "\<not> present (tpte (mem s) pgdir a)"
  obtains t ys where "vm_step s pgdir xs t ys" "length xs \<le> Suc (length ys)"
    "\<And>vb. tpte (mem t) pgdir vb = (if PGROUNDDOWN vb = PGROUNDDOWN a then new_pte pa perm 0 else tpte (mem s) pgdir vb)"
    "\<And>k. mappages_from pgdir a k pa perm s =
       (case k of 0 \<Rightarrow> Ok 0 t | Suc k \<Rightarrow> mappages_from pgdir (a + PGSIZE) k (pa + PGSIZE) perm t)"
proof -
  obtain t ys where t: "walkpgdir pgdir a True s = Ok (tab (ent (mem t) pgdir (PDX a)) + 4 * PTX a) t" "vm_step s pgdir xs t ys"
    "present (ent (mem t) pgdir (PDX a))" "\<And>vb. tpte (mem t) pgdir vb = tpte (mem s) pgdir vb" "length xs \<le> Suc (length ys)"
    by (rule walk_alloc [OF inv xs, where va = a], rule that)
  let ?e = "ent (mem t) pgdir (PDX a)" and ?v = "pa OR perm OR PTE_P"
  let ?p = "tab ?e + 4 * PTX a"
  obtain u where u: "u = t\<lparr>mem := store32 (mem t) ?p ?v\<rparr>" by blast
  have it: "pgdir_inv t pgdir ys" using t(2) by (simp add: vm_step_def)
  note st = store_pte [OF it refl t(3) u]
  have te: "tab ?e \<in> tables (mem t) pgdir" by (rule tablesI [OF PDX_lt(1) t(3)])
  then have "tab ?e \<noteq> 0" using pgdir_invD(5) [OF it] by metis
  then have nz: "?p \<noteq> 0" by (rule pte_addr_nonzero [OF tab_aligned])
  have np: "\<not> present (load32 (mem t) ?p)" using un t(3) t(4) [of a] by (simp add: tpte_def)
  have "vm_step t pgdir ys u ys"
  proof (rule vm_stepI [where zs = "[]"])
    show "mem u x = mem t x" if "PGROUNDDOWN x \<noteq> pgdir" "PGROUNDDOWN x \<notin> tables (mem t) pgdir" for x
      using st(4) [of x] te that by metis
  qed (use st(1,3) u in simp_all)
  then have "vm_step s pgdir xs u ys" by (rule vm_step_trans [OF t(2)])
  moreover have "mappages_from pgdir a k pa perm s =
     (case k of 0 \<Rightarrow> Ok 0 u | Suc k \<Rightarrow> mappages_from pgdir (a + PGSIZE) k (pa + PGSIZE) perm u)" for k
    using t(1) nz np u by (subst mappages_from.simps)
      (simp add: kbind_def rd32_def kget_def kseq_def wr32_def kmod_def kret_def split: nat.split)
  ultimately show ?thesis using that t(5) st(2) t(4) by simp
qed

lemma page_diff: "unat (PGROUNDDOWN va - PGROUNDDOWN a) mod 4096 = 0"
proof -
  have "PGROUNDDOWN va - PGROUNDDOWN a = PGSIZE * (va div PGSIZE - a div PGSIZE)"
    using and_not_mask_12 by (simp only: PGROUNDDOWN_def right_diff_distrib)
  then show ?thesis by (simp only: unat_word_ariths) (simp add: mod_mod_cancel)
qed

lemma aligned_add:
  assumes "a mod PGSIZE = 0" "b mod PGSIZE = 0"
  shows "(a + b) mod PGSIZE = 0"
proof -
  have "unat (a + b) mod 4096 = (unat a mod 4096 + unat b mod 4096) mod 4096" by (simp add: unat_word_ariths mod_mod_cancel mod_add_eq)
  then show ?thesis using assms by (simp add: unat_mod_4096)
qed

lemma next_page:
  assumes p: "unat (PGROUNDDOWN va - PGROUNDDOWN a) mod 4096 = 0" and k: "4096 * Suc k < 2 ^ 32"
  defines "d \<equiv> PGROUNDDOWN va - PGROUNDDOWN a"
  shows "unat (d - PGSIZE) \<le> 4096 * k \<longleftrightarrow> unat d \<le> 4096 * Suc k \<and> d \<noteq> 0"
proof (cases "d = 0")
  case True
  have "unat (- 4096 :: uint) = 2 ^ 32 - 4096" by simp
  then show ?thesis using True k by simp
next
  case False
  then have "4096 \<le> unat d" using p unfolding d_def [symmetric] by (metis linorder_not_less mod_less unat_eq_zero)
  then have "unat (d - PGSIZE) = unat d - 4096" by (simp add: unat_sub word_le_nat_alt)
  then show ?thesis using False by auto
qed

lemma mappages_from_ok:
  "pgdir_inv s pgdir xs \<Longrightarrow> k < length xs \<Longrightarrow> 4096 * k < 2 ^ 32 \<Longrightarrow> a mod PGSIZE = 0 \<Longrightarrow>
   (\<And>va. unat (PGROUNDDOWN va - a) \<le> 4096 * k \<Longrightarrow> \<not> present (tpte (mem s) pgdir va)) \<Longrightarrow>
   \<exists>t ys. mappages_from pgdir a k pa perm s = Ok 0 t \<and> vm_step s pgdir xs t ys \<and> length xs \<le> Suc k + length ys \<and>
     (\<forall>va. tpte (mem t) pgdir va =
        (if unat (PGROUNDDOWN va - a) \<le> 4096 * k then new_pte pa perm (PGROUNDDOWN va - a) else tpte (mem s) pgdir va))"
proof (induction k arbitrary: s xs a pa)
  case 0
  have pa: "PGROUNDDOWN a = a" using page_of [OF 0(4), of 0] by simp
  obtain t ys where t: "vm_step s pgdir xs t ys" "length xs \<le> Suc (length ys)"
    "\<And>vb. tpte (mem t) pgdir vb = (if PGROUNDDOWN vb = PGROUNDDOWN a then new_pte pa perm 0 else tpte (mem s) pgdir vb)"
    "mappages_from pgdir a 0 pa perm s = Ok 0 t"
    by (rule map_one [OF 0(1), of a pa perm]) (use 0(2) 0(5) [of a] pa in auto)
  then show ?case using pa by (intro exI [of _ t] exI [of _ ys]) (auto simp: unat_eq_zero)
next
  case (Suc k)
  have pa: "PGROUNDDOWN a = a" using page_of [OF Suc.prems(4), of 0] by simp
  obtain t ys where t: "vm_step s pgdir xs t ys" "length xs \<le> Suc (length ys)"
    "\<And>vb. tpte (mem t) pgdir vb = (if PGROUNDDOWN vb = PGROUNDDOWN a then new_pte pa perm 0 else tpte (mem s) pgdir vb)"
    "mappages_from pgdir a (Suc k) pa perm s = mappages_from pgdir (a + PGSIZE) k (pa + PGSIZE) perm t"
    by (rule map_one [OF Suc.prems(1), of a pa perm]) (use Suc.prems(2) Suc.prems(5) [of a] pa in auto)
  have nx: "unat (PGROUNDDOWN va - (a + PGSIZE)) \<le> 4096 * k \<longleftrightarrow> unat (PGROUNDDOWN va - a) \<le> 4096 * Suc k \<and> PGROUNDDOWN va \<noteq> a" for va
    using next_page [OF page_diff Suc.prems(3), of va a] pa by (simp add: diff_diff_eq)
  have a': "(a + PGSIZE) mod PGSIZE = 0" using aligned_add [OF Suc.prems(4), of PGSIZE] by simp
  have "\<not> present (tpte (mem t) pgdir va)" if "unat (PGROUNDDOWN va - (a + PGSIZE)) \<le> 4096 * k" for va
    using that nx Suc.prems(5) t(3) pa by simp
  then obtain u zs where u: "mappages_from pgdir (a + PGSIZE) k (pa + PGSIZE) perm t = Ok 0 u" "vm_step t pgdir ys u zs"
    "length ys \<le> Suc k + length zs"
    "\<forall>va. tpte (mem u) pgdir va = (if unat (PGROUNDDOWN va - (a + PGSIZE)) \<le> 4096 * k
       then new_pte (pa + PGSIZE) perm (PGROUNDDOWN va - (a + PGSIZE)) else tpte (mem t) pgdir va)"
    using Suc.IH [of t ys "a + PGSIZE" "pa + PGSIZE"] Suc.prems(2,3) t(1,2) a' by (auto simp: vm_step_def)
  have "tpte (mem u) pgdir va = (if unat (PGROUNDDOWN va - a) \<le> 4096 * Suc k then new_pte pa perm (PGROUNDDOWN va - a) else tpte (mem s) pgdir va)" for va
    using u(4) nx [of va] t(3) [of va] pa by (auto simp: algebra_simps)
  then show ?case using u(1,3) t(2,4) vm_step_trans [OF t(1) u(2)] by (intro exI [of _ u] exI [of _ zs]) simp
qed

end
