(* ===== verification/User_Mem.thy ===== *)
theory User_Mem
  imports Syscall Page_Table
begin

text \<open>
  A stretch of memory as a byte array. \<open>span u\<close> says that the kernel can read and write a stretch of the current address space (and, with
  \<open>u\<close>, that the process itself may), that its bytes are kept in different places of the machine's memory, and that none of these places
  belongs to the page table entries that map the stretch. Then loads and stores through the page table act on the stretch like on an array.
\<close>

definition tabs :: "memory \<Rightarrow> uint \<Rightarrow> uint \<Rightarrow> uint list" where
  "tabs m pgdir va =
     map (\<lambda>i. pgdir + 4 * PDX va + i) [0, 1, 2, 3] @
     map (\<lambda>i. p2v (PTE_ADDR (load32 m (pgdir + 4 * PDX va))) + 4 * PTX va + i) [0, 1, 2, 3]"

text \<open>The user bit is set in both entries: programs in ring 3 may use the page.\<close>

definition uperm :: "memory \<Rightarrow> uint \<Rightarrow> uint \<Rightarrow> bool" where
  "uperm m pgdir va =
     (let pde = load32 m (pgdir + 4 * PDX va) in
      pde AND PTE_U \<noteq> 0 \<and> load32 m (p2v (PTE_ADDR pde) + 4 * PTX va) AND PTE_U \<noteq> 0)"

abbreviation uaddr :: "'a vm_state_scheme \<Rightarrow> uint \<Rightarrow> uint option" where
  "uaddr s \<equiv> utrans (mem s) (cur_pgdir s) True"

definition span :: "bool \<Rightarrow> 'a vm_state_scheme \<Rightarrow> uint \<Rightarrow> nat \<Rightarrow> bool" where
  "span u s va n \<longleftrightarrow>
     (let as = map (\<lambda>i. va + of_nat i) [0..<n] in
      list_all (\<lambda>a. uaddr s a \<noteq> None \<and> (u \<longrightarrow> uperm (mem s) (cur_pgdir s) a)) as \<and>
      distinct (map (\<lambda>a. the (uaddr s a)) as) \<and>
      list_all (\<lambda>a. list_all (\<lambda>b. the (uaddr s a) \<notin> set (tabs (mem s) (cur_pgdir s) b)) as) as)"

definition uarr :: "'a vm_state_scheme \<Rightarrow> uint \<Rightarrow> bytes" where
  "uarr s va = (\<lambda>i. mem s (the (uaddr s (va + of_nat i))))"

lemma load32_eqI: "m a = n a \<Longrightarrow> m (a + 1) = n (a + 1) \<Longrightarrow> m (a + 2) = n (a + 2) \<Longrightarrow> m (a + 3) = n (a + 3) \<Longrightarrow> load32 m a = load32 n a"
  by (simp add: load32_def)

lemma tabs_cong:
  assumes "\<forall>x \<in> set (tabs m pgdir va). n x = m x"
  shows "utrans n pgdir w va = utrans m pgdir w va" "tabs n pgdir va = tabs m pgdir va" "uperm n pgdir va = uperm m pgdir va"
proof -
  let ?e = "load32 m (pgdir + 4 * PDX va)"
  have d: "load32 n (pgdir + 4 * PDX va) = ?e"
    by (rule load32_eqI) (use assms in \<open>auto simp: tabs_def\<close>)
  have t: "load32 n (p2v (PTE_ADDR ?e) + 4 * PTX va) = load32 m (p2v (PTE_ADDR ?e) + 4 * PTX va)"
    by (rule load32_eqI) (use assms in \<open>auto simp: tabs_def\<close>)
  show "utrans n pgdir w va = utrans m pgdir w va" unfolding utrans_def Let_def d t by (rule refl)
  show "tabs n pgdir va = tabs m pgdir va" unfolding tabs_def d by (rule refl)
  show "uperm n pgdir va = uperm m pgdir va" unfolding uperm_def Let_def d t by (rule refl)
qed

lemma utrans_read: "utrans m pgdir True va = Some a \<Longrightarrow> utrans m pgdir False va = Some a"
  by (auto simp: utrans_def Let_def split: if_splits)

lemma spanD:
  assumes "span u s va n" "i < n"
  shows "\<exists>a. uaddr s (va + of_nat i) = Some a" "u \<Longrightarrow> uperm (mem s) (cur_pgdir s) (va + of_nat i)"
    "j < n \<Longrightarrow> the (uaddr s (va + of_nat i)) \<notin> set (tabs (mem s) (cur_pgdir s) (va + of_nat j))"
    "j < n \<Longrightarrow> i \<noteq> j \<Longrightarrow> the (uaddr s (va + of_nat i)) \<noteq> the (uaddr s (va + of_nat j))"
proof -
  let ?as = "map (\<lambda>i. va + of_nat i) [0..<n]"
  have mem: "va + of_nat k \<in> set ?as" if "k < n" for k using that by simp
  have all: "\<forall>a \<in> set ?as. uaddr s a \<noteq> None \<and> (u \<longrightarrow> uperm (mem s) (cur_pgdir s) a)"
    and dist: "distinct (map (\<lambda>a. the (uaddr s a)) ?as)"
    and away: "\<forall>a \<in> set ?as. \<forall>b \<in> set ?as. the (uaddr s a) \<notin> set (tabs (mem s) (cur_pgdir s) b)"
    using assms(1) unfolding span_def Let_def list_all_iff by blast+
  show "\<exists>a. uaddr s (va + of_nat i) = Some a" using all mem [OF assms(2)] by blast
  show "u \<Longrightarrow> uperm (mem s) (cur_pgdir s) (va + of_nat i)" using all mem [OF assms(2)] by blast
  show "the (uaddr s (va + of_nat i)) \<notin> set (tabs (mem s) (cur_pgdir s) (va + of_nat j))" if "j < n"
    using away mem [OF assms(2)] mem [OF that] by blast
  show "the (uaddr s (va + of_nat i)) \<noteq> the (uaddr s (va + of_nat j))" if "j < n" "i \<noteq> j"
    using dist assms(2) that by (simp add: distinct_conv_nth)
qed

text \<open>A store into the stretch keeps the stretch and changes one byte of it.\<close>

lemma span_store:
  fixes v :: uchar
  assumes sp: "span u s va n" and i: "i < n"
    and t_def: "t = s\<lparr>mem := (mem s)(the (uaddr s (va + of_nat i)) := v)\<rparr>"
  shows "span u t va n" "j < n \<Longrightarrow> uaddr t (va + of_nat j) = uaddr s (va + of_nat j)"
    "j < n \<Longrightarrow> uarr t va j = (if j = i then v else uarr s va j)"
proof -
  let ?a = "the (uaddr s (va + of_nat i))"
  have pg: "cur_pgdir t = cur_pgdir s" by (simp add: t_def cur_pgdir_def)
  have same: "\<forall>x \<in> set (tabs (mem s) (cur_pgdir s) (va + of_nat k)). mem t x = mem s x" if "k < n" for k
    using spanD(3) [OF sp i that] by (auto simp: t_def)
  note c = tabs_cong [OF same, folded pg]
  have ad: "uaddr t (va + of_nat k) = uaddr s (va + of_nat k)" if "k < n" for k
    using tabs_cong(1) [OF same [OF that]] pg by simp
  then show "j < n \<Longrightarrow> uaddr t (va + of_nat j) = uaddr s (va + of_nat j)" .
  have tb: "tabs (mem t) (cur_pgdir t) (va + of_nat k) = tabs (mem s) (cur_pgdir s) (va + of_nat k)"
    "uperm (mem t) (cur_pgdir t) (va + of_nat k) = uperm (mem s) (cur_pgdir s) (va + of_nat k)" if "k < n" for k
    using tabs_cong(2,3) [OF same [OF that]] pg by simp_all
  show "span u t va n"
    unfolding span_def Let_def list_all_iff
  proof (intro conjI ballI, goal_cases)
    case (1 a)
    then obtain k where "k < n" "a = va + of_nat k" by auto
    then show ?case using spanD(1) [OF sp] ad by fastforce
  next
    case (2 a)
    then obtain k where "k < n" "a = va + of_nat k" by auto
    then show ?case using spanD(2) [OF sp] tb by simp
  next
    case 3
    then show ?case using spanD(4) [OF sp] ad by (auto simp: distinct_conv_nth)
  next
    case (4 a b)
    then obtain k l where "k < n" "a = va + of_nat k" "l < n" "b = va + of_nat l" by auto
    then show ?case using spanD(3) [OF sp] ad tb(1) by simp
  qed
  show "uarr t va j = (if j = i then v else uarr s va j)" if "j < n"
    using spanD(4) [OF sp i that] ad [OF that] unfolding uarr_def by (auto simp: t_def)
qed

lemma wr_user8_span:
  assumes "span u s va n" "i < n"
  obtains t where "wr_user8 (va + of_nat i) v s = Ok () t" "span u t va n" "\<And>j. j < n \<Longrightarrow> uarr t va j = (if j = i then v else uarr s va j)"
    "t = s\<lparr>mem := mem t\<rparr>"
proof -
  obtain a where a: "uaddr s (va + of_nat i) = Some a" using spanD(1) [OF assms] by blast
  let ?t = "s\<lparr>mem := (mem s)(the (uaddr s (va + of_nat i)) := v)\<rparr>"
  have "wr_user8 (va + of_nat i) v s = Ok () ?t" using a by (simp add: wr_user8_def kbind_def kget_def kmod_def)
  moreover note span_store [OF assms, of ?t v]
  ultimately show ?thesis by (intro that [of ?t]) simp_all
qed

lemma rd_user8_span:
  assumes "span u s va n" "i < n"
  shows "rd_user8 (va + of_nat i) s = Ok (uarr s va i) s"
proof -
  obtain a where "uaddr s (va + of_nat i) = Some a" using spanD(1) [OF assms] by blast
  then show ?thesis using utrans_read by (auto simp: rd_user8_def kbind_def kget_def uarr_def)
qed

lemma rd_user32_span:
  assumes "span u s va n" "k + 4 \<le> n"
  shows "rd_user32 (va + of_nat k) s = Ok (get32 (uarr s va) k) s"
proof -
  have 0: "va + of_nat k + 1 = va + of_nat (k + 1)" "va + of_nat k + 2 = va + of_nat (k + 2)" "va + of_nat k + 3 = va + of_nat (k + 3)"
    by simp_all
  have "rd_user8 (va + of_nat (k + j)) s = Ok (uarr s va (k + j)) s" if "j < 4" for j
    by (rule rd_user8_span [OF assms(1)]) (use assms(2) that in simp)
  from this [of 0] this [of 1] this [of 2] this [of 3]
  show ?thesis unfolding rd_user32_def 0 by (simp add: kbind_def kret_def get32_def del: of_nat_add)
qed

lemma wr_user32_span:
  assumes sp: "span u s va n" and k: "k + 4 \<le> n"
  obtains t where "wr_user32 (va + of_nat k) v s = Ok () t" "span u t va n" "\<And>j. j < n \<Longrightarrow> uarr t va j = put32 (uarr s va) k v j"
    "t = s\<lparr>mem := mem t\<rparr>"
proof -
  have 0: "va + of_nat k + 1 = va + of_nat (k + 1)" "va + of_nat k + 2 = va + of_nat (k + 2)" "va + of_nat k + 3 = va + of_nat (k + 3)"
    by simp_all
  have lt: "k < n" "k + 1 < n" "k + 2 < n" "k + 3 < n" using k by simp_all
  obtain a where a: "wr_user8 (va + of_nat k) (ucast v) s = Ok () a" "span u a va n"
    "\<And>j. j < n \<Longrightarrow> uarr a va j = (if j = k then ucast v else uarr s va j)" "a = s\<lparr>mem := mem a\<rparr>"
    by (rule wr_user8_span [OF sp lt(1), where v = "ucast v"], rule that)
  obtain b where b: "wr_user8 (va + of_nat (k + 1)) (ucast (drop_bit 8 v)) a = Ok () b" "span u b va n"
    "\<And>j. j < n \<Longrightarrow> uarr b va j = (if j = k + 1 then ucast (drop_bit 8 v) else uarr a va j)" "b = a\<lparr>mem := mem b\<rparr>"
    by (rule wr_user8_span [OF a(2) lt(2), where v = "ucast (drop_bit 8 v)"], rule that)
  obtain c where c: "wr_user8 (va + of_nat (k + 2)) (ucast (drop_bit 16 v)) b = Ok () c" "span u c va n"
    "\<And>j. j < n \<Longrightarrow> uarr c va j = (if j = k + 2 then ucast (drop_bit 16 v) else uarr b va j)" "c = b\<lparr>mem := mem c\<rparr>"
    by (rule wr_user8_span [OF b(2) lt(3), where v = "ucast (drop_bit 16 v)"], rule that)
  obtain d where d: "wr_user8 (va + of_nat (k + 3)) (ucast (drop_bit 24 v)) c = Ok () d" "span u d va n"
    "\<And>j. j < n \<Longrightarrow> uarr d va j = (if j = k + 3 then ucast (drop_bit 24 v) else uarr c va j)" "d = c\<lparr>mem := mem d\<rparr>"
    by (rule wr_user8_span [OF c(2) lt(4), where v = "ucast (drop_bit 24 v)"], rule that)
  have "wr_user32 (va + of_nat k) v s = Ok () d"
    unfolding wr_user32_def 0 using a(1) b(1) c(1) d(1) by (simp add: kseq_def del: of_nat_add)
  moreover have "uarr d va j = put32 (uarr s va) k v j" if "j < n" for j
    using a(3) [OF that] b(3) [OF that] c(3) [OF that] d(3) [OF that] by (auto simp: put32_def)
  moreover have "d = s\<lparr>mem := mem d\<rparr>"
  proof -
    have "b = s\<lparr>mem := mem b\<rparr>" by (subst b(4), subst a(4)) simp
    then have "c = s\<lparr>mem := mem c\<rparr>" by (subst c(4), metis kmem_state.update_convs(1) kmem_state.surjective)
    then show ?thesis by (subst d(4), metis kmem_state.update_convs(1) kmem_state.surjective)
  qed
  ultimately show ?thesis using d(2) that by blast
qed

text \<open>A stretch inside one page that is mapped for user writes, in a frame that is not a page table, is a span.\<close>

lemma same_page_off:
  assumes "unat va mod 4096 + i < 4096"
  shows "PGROUNDDOWN (va + of_nat i) = PGROUNDDOWN va" "(va + of_nat i) AND 0xFFF = (va AND 0xFFF) + of_nat i"
proof -
  have o: "unat (va AND 0xFFF) = unat va mod 4096" by (simp add: and_mod_PGSIZE unat_mod)
  have "unat ((va AND 0xFFF) + of_nat i) = unat va mod 4096 + i"
    using assms o by (simp add: unat_word_ariths unat_of_nat)
  then have lt: "(va AND 0xFFF) + of_nat i < PGSIZE" using assms by (simp add: word_less_nat_alt)
  have d: "va + of_nat i = PGROUNDDOWN va + ((va AND 0xFFF) + of_nat i)" using page_off(1) [of va] by (metis add.assoc)
  show pg: "PGROUNDDOWN (va + of_nat i) = PGROUNDDOWN va" unfolding d by (rule page_of [OF PGROUNDDOWN_aligned lt])
  show "(va + of_nat i) AND 0xFFF = (va AND 0xFFF) + of_nat i" using page_off(1) [of "va + of_nat i"] d pg by (metis add_left_cancel)
qed

lemma flags_set:
  assumes "e AND 3 = (3 :: uint)"
  shows "e AND PTE_P \<noteq> 0" "e AND PTE_W \<noteq> 0"
proof -
  have "e AND f = f" if "3 AND f = f" for f using assms that by (metis and.assoc)
  from this [of 1] this [of 2] show "e AND PTE_P \<noteq> 0" "e AND PTE_W \<noteq> 0" by (simp_all add: PTE_P_def PTE_W_def)
qed

lemma entry_page: "T mod PGSIZE = 0 \<Longrightarrow> d < 1024 \<Longrightarrow> i < 4 \<Longrightarrow> PGROUNDDOWN (T + 4 * d + i) = T"
  using page_of [of T "4 * d + i"] entry_off [of d i] by (simp add: add.assoc)

lemma tabs_page:
  assumes "pgdir mod PGSIZE = 0" "x \<in> set (tabs m pgdir va)"
  shows "PGROUNDDOWN x = pgdir \<or> PGROUNDDOWN x = tab (ent m pgdir (PDX va))"
proof -
  have "\<exists>i<4. x = pgdir + 4 * PDX va + i \<or> x = tab (ent m pgdir (PDX va)) + 4 * PTX va + i"
    using assms(2) by (force simp: tabs_def ent_def)
  then show ?thesis using entry_page [OF assms(1) PDX_lt(1)] entry_page [OF tab_aligned PDX_lt(2)] by blast
qed

lemma span_page:
  fixes s :: "'a vm_state_scheme"
  assumes pg: "cur_pgdir s mod PGSIZE = 0" and e: "e = ent (mem s) (cur_pgdir s) (PDX va)" "e AND 3 = 3"
    and p: "p = load32 (mem s) (tab e + 4 * PTX va)" "p AND 3 = 3" and u: "u \<Longrightarrow> e AND PTE_U \<noteq> 0 \<and> p AND PTE_U \<noteq> 0"
    and fr: "tab p \<noteq> cur_pgdir s" "tab p \<noteq> tab e" and n: "unat va mod 4096 + n \<le> 4096"
  shows "span u s va n"
proof -
  have xe: "PDX (va + of_nat i) = PDX va" "PTX (va + of_nat i) = PTX va" if "i < n" for i
    using same_page_off(1) [of va i] that n same_page by simp_all
  have ua: "uaddr s (va + of_nat i) = Some (tab p + ((va AND 0xFFF) + of_nat i))" if "i < n" for i
    using flags_set [OF e(2)] flags_set [OF p(2)] xe [OF that] same_page_off(2) [of va i] that n e(1) p(1)
    by (simp add: utrans_def ent_def)
  have up: "uperm (mem s) (cur_pgdir s) (va + of_nat i)" if "i < n" u for i
    using u [OF that(2)] xe [OF that(1)] e(1) p(1) by (simp add: uperm_def ent_def)
  have fp: "PGROUNDDOWN (the (uaddr s (va + of_nat i))) = tab p" if "i < n" for i
  proof -
    have "(va AND 0xFFF) + of_nat i = (va + of_nat i) AND 0xFFF" using same_page_off(2) [of va i] that n by simp
    then have "PGROUNDDOWN (tab p + ((va AND 0xFFF) + of_nat i)) = tab p" by (simp only: page_of [OF tab_aligned page_off(2)])
    then show ?thesis by (simp only: ua [OF that] option.sel)
  qed
  show ?thesis
    unfolding span_def Let_def list_all_iff
  proof (intro conjI ballI, goal_cases)
    case (1 a)
    then show ?case using ua by auto
  next
    case (2 a)
    then show ?case using up by auto
  next
    case 3
    have "of_nat i \<noteq> (of_nat j :: uint)" if "i < n" "j < n" "i \<noteq> j" for i j
      using that n by (simp add: word_unat_eq_iff unat_of_nat)
    then show ?case using ua by (auto simp: distinct_conv_nth)
  next
    case (4 a b)
    then obtain k l where kl: "k < n" "a = va + of_nat k" "l < n" "b = va + of_nat l" by auto
    show ?case
    proof
      assume "the (uaddr s a) \<in> set (tabs (mem s) (cur_pgdir s) b)"
      from tabs_page [OF pg this] have "tab p = cur_pgdir s \<or> tab p = tab e" using fp [OF kl(1)] xe(1) [OF kl(3)] kl(2,4) e(1) by simp
      then show False using fr by blast
    qed
  qed
qed

end
