(* ===== verification/Signal.thy ===== *)
theory Signal
  imports Trap User_Mem
begin

text \<open>
  Signals end to end: the kernel's delivery of the divide-error signal (\<^verbatim>\<open>trap.c\<close>), the user's handler, and the routine
  \<^verbatim>\<open>restorer\<close> of \<^verbatim>\<open>restorer.h\<close> the handler returns to. The user's registers are those of the trap frame. \<^verbatim>\<open>restorer\<close> is a C
  function around five assembly instructions; the compiler, which is told to keep frame pointers, puts
  \<^verbatim>\<open>push %ebp; mov %esp,%ebp\<close> before and \<^verbatim>\<open>pop %ebp; ret\<close> after them. Memory accesses of user code go through the page table of the process
  and need the user bit.
\<close>

section \<open>User code\<close>

definition user_ok :: "uint \<Rightarrow> 'a vm_state_scheme \<Rightarrow> bool" where
  "user_ok va s = list_all (\<lambda>i. uperm (mem s) (cur_pgdir s) (va + i)) [0, 1, 2, 3]"

definition ld32 :: "uint \<Rightarrow> ('a vm_state_scheme, uint) kprog" where
  "ld32 va = kbind (kget (user_ok va)) (\<lambda>ok. if ok then rd_user32 va else kpanic ''page fault'')"

definition st32 :: "uint \<Rightarrow> uint \<Rightarrow> ('a vm_state_scheme, unit) kprog" where
  "st32 va v = kbind (kget (user_ok va)) (\<lambda>ok. if ok then wr_user32 va v else kpanic ''page fault'')"

datatype insn = Push_ebp | Mov_esp_ebp | Load_edx uint | Load_ecx uint | Load_eax uint | Add_ebp uint | Mov_ebp_esp | Pop_ebp | Ret

fun ustep :: "insn \<Rightarrow> trapframe \<Rightarrow> ('a vm_state_scheme, trapframe) kprog" where
  "ustep Push_ebp tf = kseq (st32 (esp tf - 4) (ebp tf)) (kret (tf\<lparr>esp := esp tf - 4\<rparr>))"
| "ustep Mov_esp_ebp tf = kret (tf\<lparr>ebp := esp tf\<rparr>)"
| "ustep (Load_edx d) tf = kbind (ld32 (ebp tf + d)) (\<lambda>v. kret (tf\<lparr>edx := v\<rparr>))"
| "ustep (Load_ecx d) tf = kbind (ld32 (ebp tf + d)) (\<lambda>v. kret (tf\<lparr>ecx := v\<rparr>))"
| "ustep (Load_eax d) tf = kbind (ld32 (ebp tf + d)) (\<lambda>v. kret (tf\<lparr>eax := v\<rparr>))"
| "ustep (Add_ebp d) tf = kret (tf\<lparr>ebp := ebp tf + d\<rparr>)"
| "ustep Mov_ebp_esp tf = kret (tf\<lparr>esp := ebp tf\<rparr>)"
| "ustep Pop_ebp tf = kbind (ld32 (esp tf)) (\<lambda>v. kret (tf\<lparr>ebp := v, esp := esp tf + 4\<rparr>))"
| "ustep Ret tf = kbind (ld32 (esp tf)) (\<lambda>v. kret (tf\<lparr>eip := v, esp := esp tf + 4\<rparr>))"

fun urun :: "insn list \<Rightarrow> trapframe \<Rightarrow> ('a vm_state_scheme, trapframe) kprog" where
  "urun [] tf = kret tf"
| "urun (i # is) tf = kbind (ustep i tf) (urun is)"

definition restorer :: "insn list" where
  "restorer = [Push_ebp, Mov_esp_ebp, Load_edx 0x8, Load_ecx 0xc, Load_eax 0x10, Add_ebp 0x14, Mov_ebp_esp, Pop_ebp, Ret]"

text \<open>
  The calling convention of the handler, entered with registers \<open>tf\<close> in state \<open>s\<close>: it returns to the address on top of the stack,
  keeps the callee-saved registers and the caller's stack contents above its argument.
\<close>

definition handler_returns :: "trapframe \<Rightarrow> 'a vm_state_scheme \<Rightarrow> trapframe \<Rightarrow> 'a vm_state_scheme \<Rightarrow> bool" where
  "handler_returns tf s tf' s' \<longleftrightarrow>
     eip tf' = get32 (uarr s (esp tf)) 0 \<and> esp tf' = esp tf + 4 \<and>
     ebp tf' = ebp tf \<and> ebx tf' = ebx tf \<and> esi tf' = esi tf \<and> edi tf' = edi tf \<and>
     span True s' (esp tf) 28 \<and> (\<forall>i<28. 8 \<le> i \<longrightarrow> uarr s' (esp tf) i = uarr s (esp tf) i)"

section \<open>Lemmas\<close>

lemma user_ok_span:
  assumes "span True s va n" "k + 4 \<le> n"
  shows "user_ok (va + of_nat k) s"
proof -
  have "uperm (mem s) (cur_pgdir s) (va + of_nat k + of_nat j)" if "j < 4" for j
    using spanD(2) [OF assms(1), of "k + j"] assms(2) that by (simp add: add.assoc)
  from this [of 0] this [of 1] this [of 2] this [of 3] show ?thesis by (simp add: user_ok_def)
qed

lemma ld32_span: "span True s va n \<Longrightarrow> k + 4 \<le> n \<Longrightarrow> ld32 (va + of_nat k) s = Ok (get32 (uarr s va) k) s"
  using user_ok_span [of s va n k] rd_user32_span [of True s va n k] by (simp add: ld32_def kbind_def kget_def)

lemma st32_span: "span True s va n \<Longrightarrow> k + 4 \<le> n \<Longrightarrow> st32 (va + of_nat k) v s = wr_user32 (va + of_nat k) v s"
  using user_ok_span [of s va n k] by (simp add: st32_def kbind_def kget_def)

text \<open>A run of stores into the stretch.\<close>

fun stores :: "uint \<Rightarrow> (nat \<times> uint) list \<Rightarrow> ('a vm_state_scheme, unit) kprog" where
  "stores va [] = kret ()"
| "stores va ((k, v) # kvs) = kseq (wr_user32 (va + of_nat k) v) (stores va kvs)"

lemma stores_span:
  "span u s va n \<Longrightarrow> \<forall>(k, v) \<in> set kvs. k + 4 \<le> n \<Longrightarrow>
   \<exists>t. stores va kvs s = Ok () t \<and> span u t va n \<and> t = s\<lparr>mem := mem t\<rparr> \<and>
     (\<forall>j<n. uarr t va j = fold (\<lambda>(k, v) d. put32 d k v) kvs (uarr s va) j)"
proof (induction kvs arbitrary: s)
  case Nil
  then show ?case by (simp add: kret_def)
next
  case (Cons x kvs)
  obtain k v where x: "x = (k, v)" by force
  have k: "k + 4 \<le> n" using Cons.prems(2) x by simp
  obtain a where a: "wr_user32 (va + of_nat k) v s = Ok () a" "span u a va n" "\<And>j. j < n \<Longrightarrow> uarr a va j = put32 (uarr s va) k v j"
    "a = s\<lparr>mem := mem a\<rparr>" by (rule wr_user32_span [OF Cons.prems(1) k, where v = v], rule that)
  obtain t where t: "stores va kvs a = Ok () t" "span u t va n" "t = a\<lparr>mem := mem t\<rparr>"
    "\<forall>j<n. uarr t va j = fold (\<lambda>(k, v) d. put32 d k v) kvs (uarr a va) j"
    using Cons.IH [OF a(2)] Cons.prems(2) by auto
  have fc: "fold (\<lambda>(k, v) d. put32 d k v) kvs d j = fold (\<lambda>(k, v) d. put32 d k v) kvs e j" if "\<forall>j<n. d j = e j" "j < n" for d e j
    using that Cons.prems(2)
  proof (induction kvs arbitrary: d e)
    case (Cons y kvs)
    have "\<forall>j<n. put32 d (fst y) (snd y) j = put32 e (fst y) (snd y) j" using Cons.prems(1) by (simp add: put32_def)
    then show ?case using Cons.IH [of "put32 d (fst y) (snd y)" "put32 e (fst y) (snd y)"] Cons.prems(2,3) by (simp add: case_prod_beta)
  qed simp
  have "t = s\<lparr>mem := mem t\<rparr>" by (subst t(3), subst a(4)) simp
  moreover have "\<forall>j<n. uarr t va j = fold (\<lambda>(k, v) d. put32 d k v) (x # kvs) (uarr s va) j"
    using t(4) fc [of "uarr a va" "put32 (uarr s va) k v"] a(3) x by simp
  ultimately show ?case using a(1) t(1,2) x by (auto simp: kseq_def)
qed

lemma get32_uarr: "\<forall>j<n. uarr t va j = d j \<Longrightarrow> k + 4 \<le> n \<Longrightarrow> get32 (uarr t va) k = get32 d k"
  by (rule get32_cong) simp

text \<open>The kernel's half: the frame it builds on the user stack.\<close>

lemma deliver_frame:
  assumes cur: "cur s = Some p" and stack: "span u s va 28" and va: "esp tf = va + 28"
  defines "q \<equiv> ptab s p"
  obtains t where "deliver_sigfpe tf s = Ok (tf\<lparr>esp := va, eip := p_handler q SIGFPE\<rparr>) t" "t = s\<lparr>mem := mem t\<rparr>" "span u t va 28"
    "get32 (uarr t va) 0 = p_handler q 256" "get32 (uarr t va) 4 = of_nat SIGFPE" "get32 (uarr t va) 8 = edx tf" "get32 (uarr t va) 12 = ecx tf"
    "get32 (uarr t va) 16 = eax tf" "get32 (uarr t va) 20 = ebp tf" "get32 (uarr t va) 24 = 0x74"
proof -
  let ?kvs = "[(24, 0x74), (20, ebp tf), (16, eax tf), (12, ecx tf), (8, edx tf), (4, of_nat SIGFPE), (0, p_handler q 256)] :: (nat \<times> uint) list"
  have off: "esp tf - 4 = va + of_nat 24" "esp tf - 8 = va + of_nat 20" "esp tf - 12 = va + of_nat 16"
    "esp tf - 16 = va + of_nat 12" "esp tf - 20 = va + of_nat 8" "esp tf - 24 = va + of_nat 4" "esp tf - 28 = va + of_nat 0"
    by (simp_all add: va)
  obtain t where t: "stores va ?kvs s = Ok () t" "span u t va 28" "t = s\<lparr>mem := mem t\<rparr>"
    "\<forall>j<28. uarr t va j = fold (\<lambda>(k, v) d. put32 d k v) ?kvs (uarr s va) j"
    using stores_span [OF stack, of ?kvs] by auto
  have cp: "cur_proc s = Ok q s" using cur by (simp add: cur_proc_def myproc_def get_proc_def kbind_def kget_def kret_def q_def)
  have "deliver_sigfpe tf s = kseq (stores va ?kvs) (kret (tf\<lparr>esp := va, eip := p_handler q SIGFPE\<rparr>)) s"
    unfolding deliver_sigfpe_def kbind_Ok [where m = cur_proc, OF cp] off stores.simps
    by (simp add: kseq_def kbind_def kret_def split: outcome.split)
  then have "deliver_sigfpe tf s = Ok (tf\<lparr>esp := va, eip := p_handler q SIGFPE\<rparr>) t" using t(1) by (simp add: kseq_def kret_def)
  then show ?thesis by (rule that) (use t(2,3) in \<open>simp_all add: get32_uarr [OF t(4)]\<close>)
qed

text \<open>The user's half: \<^verbatim>\<open>restorer\<close> unwinds the frame.\<close>

lemma restorer_unwinds:
  assumes sp: "span True s va 28" and esp: "esp tf = va + 4"
  obtains t where "urun restorer tf s = Ok (tf\<lparr>edx := get32 (uarr s va) 8, ecx := get32 (uarr s va) 12, eax := get32 (uarr s va) 16,
    ebp := get32 (uarr s va) 20, eip := get32 (uarr s va) 24, esp := va + 28\<rparr>) t"
proof -
  obtain t where t: "wr_user32 (va + of_nat 0) (ebp tf) s = Ok () t" "span True t va 28"
    "\<And>j. j < 28 \<Longrightarrow> uarr t va j = put32 (uarr s va) 0 (ebp tf) j"
    by (rule wr_user32_span [OF sp, of 0 "ebp tf"]) (simp, rule that)
  have st: "st32 va (ebp tf) s = Ok () t" using st32_span [OF sp, of 0 "ebp tf"] t(1) by simp
  have r: "get32 (uarr t va) k = get32 (uarr s va) k" if "4 \<le> k" "k + 4 \<le> 28" for k
    by (rule get32_cong) (use that t(3) put32_outside in force)
  have ld: "ld32 (va + 8) t = Ok (get32 (uarr s va) 8) t" "ld32 (va + 12) t = Ok (get32 (uarr s va) 12) t"
    "ld32 (va + 16) t = Ok (get32 (uarr s va) 16) t" "ld32 (va + 20) t = Ok (get32 (uarr s va) 20) t" "ld32 (va + 24) t = Ok (get32 (uarr s va) 24) t"
    using ld32_span [OF t(2), of 8] ld32_span [OF t(2), of 12] ld32_span [OF t(2), of 16] ld32_span [OF t(2), of 20] ld32_span [OF t(2), of 24] r
    by simp_all
  show ?thesis by (rule that [of t]) (use st ld esp in \<open>simp add: restorer_def kseq_def kret_def kbind_def add.commute [of _ va]\<close>)
qed

text \<open>The trap as a whole, up to the handler's first instruction.\<close>

lemma trap_delivers:
  assumes cur: "cur s = Some p" and reg: "p_handler (ptab s p) SIGFPE \<noteq> - 1" and alive: "\<not> p_killed (ptab s p)"
    and dv: "trapno tf = T_DIVIDE" and stack: "span u s va 28" and va: "esp tf = va + 28"
  defines "q \<equiv> ptab s p"
  obtains t where "trap junk fuel cr2 tf s = Ok (tf\<lparr>esp := va, eip := p_handler q SIGFPE\<rparr>) t" "span u t va 28"
    "get32 (uarr t va) 0 = p_handler q 256" "get32 (uarr t va) 4 = of_nat SIGFPE" "get32 (uarr t va) 8 = edx tf" "get32 (uarr t va) 12 = ecx tf"
    "get32 (uarr t va) 16 = eax tf" "get32 (uarr t va) 20 = ebp tf" "get32 (uarr t va) 24 = 0x74"
proof -
  obtain t where t: "deliver_sigfpe tf s = Ok (tf\<lparr>esp := va, eip := p_handler q SIGFPE\<rparr>) t" "t = s\<lparr>mem := mem t\<rparr>" "span u t va 28"
    and w: "get32 (uarr t va) 0 = p_handler q 256" "get32 (uarr t va) 4 = of_nat SIGFPE" "get32 (uarr t va) 8 = edx tf"
    "get32 (uarr t va) 12 = ecx tf" "get32 (uarr t va) 16 = eax tf" "get32 (uarr t va) 20 = ebp tf" "get32 (uarr t va) 24 = 0x74"
    by (rule deliver_frame [OF cur stack va, folded q_def], rule that)
  let ?tf1 = "tf\<lparr>esp := va, eip := p_handler q SIGFPE\<rparr>"
  have same: "cur t = Some p" "ptab t = ptab s" by (subst t(2), simp add: cur)+
  have cp: "cur_proc s = Ok q s" using cur by (simp add: cur_proc_def myproc_def get_proc_def kbind_def kget_def kret_def q_def)
  have "trap_dispatch fuel cr2 tf s = Ok ?tf1 t"
    using dv reg t(1) by (simp add: trap_dispatch_def kbind_Ok [where m = cur_proc, OF cp] q_def)
  moreover have "exit_if_killed ?tf1 t = Ok () t" using same alive by (simp add: exit_if_killed_def kbind_def kget_def kret_def)
  ultimately have "trap junk fuel cr2 tf s = Ok ?tf1 t"
    using dv same by (simp add: trap_def trap_resume_def kseq_def kbind_def kget_def kret_def)
  then show ?thesis by (rule that [OF _ t(3) w])
qed

section \<open>Properties\<close>

text \<open>
  C5: a program that divides by zero with a handler registered continues after the signal as if nothing had happened: the
  kernel enters the handler, and whatever a handler that keeps the C calling convention does, its return runs \<^verbatim>\<open>restorer\<close>, after which
  every general register and the stack pointer have the values they had at the trap, and execution goes on at the
  address 0x74 that the kernel pushed.
\<close>

theorem signal_round_trip:
  assumes cur: "cur s = Some p" and reg: "p_handler (ptab s p) SIGFPE \<noteq> - 1" and alive: "\<not> p_killed (ptab s p)"
    and div: "trapno tf = T_DIVIDE" and stack: "span True s (esp tf - 28) 28"
  shows "\<exists>tf1 s1. trap junk fuel cr2 tf s = Ok tf1 s1 \<and> eip tf1 = p_handler (ptab s p) SIGFPE \<and> ecx tf1 = ecx tf \<and> span True s1 (esp tf1) 28 \<and>
     get32 (uarr s1 (esp tf1)) 0 = p_handler (ptab s p) 256 \<and> get32 (uarr s1 (esp tf1)) 4 = of_nat SIGFPE \<and>
     (\<forall>tf2 s2. handler_returns tf1 s1 tf2 s2 \<longrightarrow>
        eip tf2 = p_handler (ptab s p) 256 \<and>
        (\<exists>tf3 s3. urun restorer tf2 s2 = Ok tf3 s3 \<and> eip tf3 = 0x74 \<and> esp tf3 = esp tf \<and> ebp tf3 = ebp tf \<and>
           eax tf3 = eax tf \<and> ecx tf3 = ecx tf \<and> edx tf3 = edx tf \<and> ebx tf3 = ebx tf \<and> esi tf3 = esi tf \<and> edi tf3 = edi tf))"
proof -
  let ?q = "ptab s p"
  obtain va where va: "va = esp tf - 28" by blast
  then have esp: "esp tf = va + 28" by simp
  let ?tf1 = "tf\<lparr>esp := va, eip := p_handler ?q SIGFPE\<rparr>"
  obtain s1 where trap: "trap junk fuel cr2 tf s = Ok ?tf1 s1" and s1: "span True s1 va 28"
    and w: "get32 (uarr s1 va) 0 = p_handler ?q 256" "get32 (uarr s1 va) 4 = of_nat SIGFPE" "get32 (uarr s1 va) 8 = edx tf"
    "get32 (uarr s1 va) 12 = ecx tf" "get32 (uarr s1 va) 16 = eax tf" "get32 (uarr s1 va) 20 = ebp tf" "get32 (uarr s1 va) 24 = 0x74"
    by (rule trap_delivers [OF cur reg alive div stack [folded va] esp], rule that)
  have bk: "\<exists>tf3 s3. urun restorer tf2 s2 = Ok tf3 s3 \<and> eip tf3 = 0x74 \<and> esp tf3 = esp tf \<and> ebp tf3 = ebp tf \<and>
      eax tf3 = eax tf \<and> ecx tf3 = ecx tf \<and> edx tf3 = edx tf \<and> ebx tf3 = ebx tf \<and> esi tf3 = esi tf \<and> edi tf3 = edi tf"
    if h: "handler_returns ?tf1 s1 tf2 s2" for tf2 s2
  proof -
    have e: "esp tf2 = va + 4" "ebx tf2 = ebx tf" "esi tf2 = esi tf" "edi tf2 = edi tf" and sp: "span True s2 va 28"
      and keep: "\<And>i. 8 \<le> i \<Longrightarrow> i < 28 \<Longrightarrow> uarr s2 va i = uarr s1 va i"
      using h by (simp_all add: handler_returns_def)
    have g: "get32 (uarr s2 va) k = get32 (uarr s1 va) k" if "8 \<le> k" "k + 4 \<le> 28" for k by (rule get32_cong) (use that keep in simp)
    show ?thesis by (rule restorer_unwinds [OF sp e(1)]) (use g w e esp in simp)
  qed
  have "eip tf2 = p_handler ?q 256" if "handler_returns ?tf1 s1 tf2 s2" for tf2 s2 using that w(1) by (simp add: handler_returns_def)
  then show ?thesis using trap s1 w(1,2) bk by (intro exI [of _ ?tf1] exI [of _ s1]) simp
qed

text \<open>
  A process whose first page is mapped and whose handler clears the register \<^verbatim>\<open>ecx\<close>, as in the program \<^verbatim>\<open>stage3_test\<close>: after the
  signal the register has its old value.
\<close>

definition demo_mem :: memory where
  "demo_mem = store32 (store32 (\<lambda>_. 0) 0x80200000 0x201007) 0x80201000 0x202007"

definition demo_sig :: cons_state where
  "demo_sig = demo_cons\<lparr>cur := Some 0, mem := demo_mem, mycpu := (mycpu demo_cons)\<lparr>c_cr3 := 0x200000\<rparr>,
     ptab := (ptab demo_cons)(0 := (ptab demo_cons 0)\<lparr>p_state := RUNNING, p_killed := False, p_handler := (\<lambda>_. - 1)(0 := 0x20, 256 := 0x40)\<rparr>)\<rparr>"

definition demo_tf :: trapframe where
  "demo_tf = (p_tf (ptab demo_cons 0))\<lparr>trapno := 0, esp := 0xFF0, ebp := 0xFF8, eax := 1, ecx := 5, edx := 7\<rparr>"

lemma demo_sig_span: "span True demo_sig (esp demo_tf - 28) 28"
proof -
  have pg: "cur_pgdir demo_sig = 0x80200000" and m: "mem demo_sig = demo_mem" by (simp_all add: cur_pgdir_def demo_sig_def p2v_def KERNBASE_def)
  have x: "PDX 0xFD4 = 0" "PTX 0xFD4 = 0" by (simp_all add: PDX_def PTX_def)
  have "ent demo_mem 0x80200000 0 = 0x201007" "load32 demo_mem 0x80201000 = 0x202007"
    by (simp_all add: ent_def demo_mem_def load32_def store32_def)
  then have "span True demo_sig 0xFD4 28"
    by (intro span_page [where e = "0x201007" and p = "0x202007"]) (simp_all add: pg m x p2v_def KERNBASE_def PTE_ADDR_def PTE_U_def)
  then show ?thesis by (simp add: demo_tf_def)
qed

theorem signal_round_trip_witness:
  "\<exists>tf1 s1 tf2 s2 tf3 s3. trap (0, 0) 0 0 demo_tf demo_sig = Ok tf1 s1 \<and> eip tf1 = 0x20 \<and> handler_returns tf1 s1 tf2 s2 \<and> ecx tf2 = 0 \<and>
     urun restorer tf2 s2 = Ok tf3 s3 \<and> ecx tf3 = 5 \<and> eip tf3 = 0x74 \<and> esp tf3 = 0xFF0"
proof -
  have hyp: "cur demo_sig = Some 0" "p_handler (ptab demo_sig 0) SIGFPE \<noteq> - 1" "\<not> p_killed (ptab demo_sig 0)" "trapno demo_tf = T_DIVIDE"
    by (simp_all add: demo_sig_def demo_tf_def)
  have v: "p_handler (ptab demo_sig 0) SIGFPE = 0x20" "ecx demo_tf = 5" "esp demo_tf = 0xFF0" by (simp_all add: demo_sig_def demo_tf_def)
  obtain tf1 s1 where 1: "trap (0, 0) 0 0 demo_tf demo_sig = Ok tf1 s1" "eip tf1 = 0x20" "span True s1 (esp tf1) 28"
    and 2: "\<And>tf2 s2. handler_returns tf1 s1 tf2 s2 \<Longrightarrow> \<exists>tf3 s3. urun restorer tf2 s2 = Ok tf3 s3 \<and> ecx tf3 = 5 \<and> eip tf3 = 0x74 \<and> esp tf3 = 0xFF0"
    using signal_round_trip [OF hyp demo_sig_span, of "(0, 0)" 0 0] unfolding v by fast
  let ?tf2 = "tf1\<lparr>ecx := 0, esp := esp tf1 + 4, eip := get32 (uarr s1 (esp tf1)) 0\<rparr>"
  have h: "handler_returns tf1 s1 ?tf2 s1" using 1(3) by (simp add: handler_returns_def)
  obtain tf3 s3 where "urun restorer ?tf2 s1 = Ok tf3 s3" "ecx tf3 = 5" "eip tf3 = 0x74" "esp tf3 = 0xFF0" using 2 [OF h] by blast
  then show ?thesis using 1(1,2) h by (intro exI [of _ tf1] exI [of _ s1] exI [of _ ?tf2] exI [of _ s1] exI [of _ tf3] exI [of _ s3]) simp
qed

text \<open>
  C29: delivering the signal lets a process overwrite kernel memory. The kernel stores the frame through the stack pointer the program had
  at the trap. With a stack pointer into pages only the kernel may write, the trap succeeds and the kernel's
  memory then holds the registers the program chose.
\<close>

theorem signal_overwrites_kernel:
  assumes "cur s = Some p" and "p_handler (ptab s p) SIGFPE \<noteq> - 1" and "\<not> p_killed (ptab s p)"
    and "trapno tf = T_DIVIDE" and "span False s (esp tf - 28) 28" and "\<not> uperm (mem s) (cur_pgdir s) (esp tf - 16)"
  shows "\<exists>tf1 s1. trap junk fuel cr2 tf s = Ok tf1 s1 \<and> get32 (uarr s1 (esp tf - 28)) 12 = ecx tf \<and>
     get32 (uarr s1 (esp tf - 28)) 8 = edx tf \<and> get32 (uarr s1 (esp tf - 28)) 16 = eax tf \<and> get32 (uarr s1 (esp tf - 28)) 20 = ebp tf"
  by (rule trap_delivers [OF assms(1-5), of junk fuel cr2]) auto

text \<open>A page table with a page that only the kernel may write at KERNBASE.\<close>

definition demo_kmem :: memory where
  "demo_kmem = store32 (store32 (\<lambda>_. 0) 0x80200800 0x203003) 0x80203000 0x204003"

theorem signal_overwrites_kernel_witness:
  "\<not> uperm demo_kmem 0x80200000 (0x80000FF0 - 16) \<and>
   (\<exists>tf1 s1. trap (0, 0) 0 0 (demo_tf\<lparr>esp := 0x80000FF0\<rparr>) (demo_sig\<lparr>mem := demo_kmem\<rparr>) = Ok tf1 s1 \<and>
      get32 (uarr s1 (0x80000FF0 - 28)) 12 = 5)"
proof -
  let ?s = "demo_sig\<lparr>mem := demo_kmem\<rparr>" and ?tf = "demo_tf\<lparr>esp := 0x80000FF0\<rparr>"
  have pg: "cur_pgdir ?s = 0x80200000" by (simp add: cur_pgdir_def demo_sig_def p2v_def KERNBASE_def)
  have x: "PDX 0x80000FD4 = 0x200" "PTX 0x80000FD4 = 0" "PDX 0x80000FE0 = 0x200" "PTX 0x80000FE0 = 0" by (simp_all add: PDX_def PTX_def)
  have e: "ent demo_kmem 0x80200000 0x200 = 0x203003" "load32 demo_kmem 0x80203000 = 0x204003"
    by (simp_all add: ent_def demo_kmem_def load32_def store32_def)
  have "span False ?s 0x80000FD4 28"
    by (rule span_page [where e = "0x203003" and p = "0x204003"]) (simp_all add: pg x e p2v_def KERNBASE_def PTE_ADDR_def)
  then have sp: "span False ?s (esp ?tf - 28) 28" by simp
  have nu: "\<not> uperm demo_kmem 0x80200000 0x80000FE0"
    using e by (simp add: uperm_def ent_def x p2v_def KERNBASE_def PTE_ADDR_def PTE_U_def)
  then have nu': "\<not> uperm (mem ?s) (cur_pgdir ?s) (esp ?tf - 16)" by (simp add: pg)
  have hyp: "cur ?s = Some 0" "p_handler (ptab ?s 0) SIGFPE \<noteq> - 1" "\<not> p_killed (ptab ?s 0)" "trapno ?tf = T_DIVIDE"
    by (simp_all add: demo_sig_def demo_tf_def)
  have "ecx ?tf = 5" by (simp add: demo_tf_def)
  then show ?thesis using signal_overwrites_kernel [OF hyp sp nu', of "(0, 0)" 0 0] nu by auto
qed


definition demo_args :: cons_state where
  "demo_args = demo_sig\<lparr>mem := store32 demo_mem 0x80202108 0x20,
     ptab := (ptab demo_sig)(0 := (ptab demo_sig 0)\<lparr>p_sz := 0x1000, p_tf := demo_tf\<lparr>esp := 0x100\<rparr>\<rparr>)\<rparr>"

lemma demo_args_rd:
  "rd_user32 0x104 demo_args = Ok 0 demo_args" "rd_user32 0x108 demo_args = Ok 0x20 demo_args"
  "rd_user8 0x108 demo_args = Ok 0x20 demo_args" "rd_user8 0x109 demo_args = Ok 0 demo_args"
proof -
  have pg: "cur_pgdir demo_args = 0x80200000" by (simp add: cur_pgdir_def demo_args_def demo_sig_def p2v_def KERNBASE_def)
  have tr: "utrans (mem demo_args) 0x80200000 False (0x100 + of_nat k) = Some (0x80202100 + of_nat k)" if "k < 16" for k
  proof -
    have "PGROUNDDOWN (0x100 + of_nat k) = PGROUNDDOWN 0x100" "(0x100 + of_nat k :: uint) AND 0xFFF = 0x100 + of_nat k"
      using same_page_off [of "0x100" k] that by simp_all
    moreover have "PDX 0x100 = 0" "PTX 0x100 = 0" by (simp_all add: PDX_def PTX_def)
    ultimately have x: "PDX (0x100 + of_nat k) = 0" "PTX (0x100 + of_nat k) = 0" "(0x100 + of_nat k :: uint) AND 0xFFF = 0x100 + of_nat k"
      using same_page [of "0x100 + of_nat k" "0x100"] by simp_all
    have "load32 (mem demo_args) 0x80200000 = 0x201007" "load32 (mem demo_args) 0x80201000 = 0x202007"
      by (simp_all add: demo_args_def demo_mem_def load32_def store32_def)
    then show ?thesis by (simp add: utrans_def x PTE_P_def PTE_ADDR_def p2v_def KERNBASE_def)
  qed
  have m: "mem demo_args (0x80202100 + of_nat k) = (if k = 8 then 0x20 else 0)" if "k \<in> {4, 5, 6, 7, 8, 9, 10, 11}" for k
    using that by (auto simp: demo_args_def demo_mem_def store32_def)
  have rd: "rd_user8 (0x100 + of_nat k) demo_args = Ok (if k = 8 then 0x20 else 0) demo_args" if "k \<in> {4, 5, 6, 7, 8, 9, 10, 11}" for k
    using tr [of k] m [OF that] that pg by (auto simp: rd_user8_def kbind_def kget_def)
  from rd [of 4] rd [of 5] rd [of 6] rd [of 7] show "rd_user32 0x104 demo_args = Ok 0 demo_args"
    by (simp add: rd_user32_def kbind_def kret_def)
  from rd [of 8] rd [of 9] show "rd_user8 0x108 demo_args = Ok 0x20 demo_args" "rd_user8 0x109 demo_args = Ok 0 demo_args" by simp_all
  from rd [of 8] rd [of 9] rd [of 10] rd [of 11] show "rd_user32 0x108 demo_args = Ok 0x20 demo_args"
    by (simp add: rd_user32_def kbind_def kret_def)
qed

lemma demo_args_argint: "argint 0 demo_args = Ok (Some 0) demo_args" "argint 1 demo_args = Ok (Some 0x20) demo_args"
proof -
  have c: "cur demo_args = Some 0" by (simp add: demo_args_def demo_sig_def)
  have q: "p_sz (ptab demo_args 0) = 0x1000" "esp (p_tf (ptab demo_args 0)) = 0x100" by (simp_all add: demo_args_def)
  show "argint 0 demo_args = Ok (Some 0) demo_args" "argint 1 demo_args = Ok (Some 0x20) demo_args"
    using c q demo_args_rd
    by (simp_all add: argint_def fetchint_def cur_proc_def get_proc_def myproc_def kbind_def kget_def kret_def)
qed


end
