(* ===== verification/Arg_Bounds.thy ===== *)
theory Arg_Bounds
  imports Signal
begin

text \<open>
  The checks that \<^verbatim>\<open>syscall.c\<close> makes on system call arguments: what the kernel goes on to use lies inside the memory of the process.
\<close>

lemma argint_state: "argint n s = Ok r t \<Longrightarrow> t = s"
proof -
  have rd8: "rd_user8 va s = Ok v u \<Longrightarrow> u = s" for va v u
    by (auto simp: rd_user8_def kbind_def kget_def kpanic_def split: option.splits)
  have rd: "rd_user32 va s = Ok v u \<Longrightarrow> u = s" for va v u
    unfolding rd_user32_def kbind_eq_Ok by (auto simp: kret_def dest!: rd8)
  show "argint n s = Ok r t \<Longrightarrow> t = s"
    by (auto simp: argint_def fetchint_def cur_proc_def get_proc_def myproc_def kbind_eq_Ok kget_def kret_def
        dest!: rd split: if_splits option.splits)
qed

lemma fetchstr_from_ok:
  "fetchstr_from a n s = Ok (Some cs) t \<Longrightarrow>
   t = s \<and> length cs < n \<and> (\<forall>i<length cs. cs ! i \<noteq> 0 \<and> uview s a i = cs ! i) \<and> uview s a (length cs) = 0"
proof (induction a n arbitrary: cs t rule: fetchstr_from.induct)
  case (1 a)
  then show ?case by (simp add: kret_def)
next
  case (2 a n)
  obtain c where c: "rd_user8 a s = Ok c s" "uview s a 0 = c"
    using 2(2) by (auto simp: kbind_eq_Ok rd_user8_def kget_def kpanic_def uview_def split: option.splits)
  show ?case
  proof (cases "c = 0")
    case True
    then show ?thesis using 2(2) c by (simp add: kbind_def kret_def)
  next
    case False
    then obtain ds where ds: "fetchstr_from (a + 1) n s = Ok (Some ds) t" "cs = c # ds"
      using 2(2) c by (auto simp: kbind_def kret_def split: outcome.splits)
    have sh: "uview s (a + 1) i = uview s a (Suc i)" for i by (simp add: uview_def add.assoc add.left_commute)
    from 2(1) [OF False ds(1)] have ih: "t = s" "length ds < n" "\<forall>i<length ds. ds ! i \<noteq> 0 \<and> uview s a (Suc i) = ds ! i" "uview s a (Suc (length ds)) = 0"
      by (simp_all add: sh)
    then show ?thesis using c(2) False ds(2) by (auto simp: nth_Cons less_Suc_eq_0_disj)
  qed
qed

section \<open>Properties\<close>


text \<open>
  C28: a string argument that \<^verbatim>\<open>fetchstr\<close> accepts is a NUL-terminated string that ends, terminator included, below the size of the process; what is
  returned are exactly its bytes.
\<close>

theorem fetchstr_in_bounds:
  assumes "fetchstr addr s = Ok (Some cs) t" "cur s = Some p"
  shows "t = s \<and> unat addr + length cs < unat (p_sz (ptab s p)) \<and>
    (\<forall>i<length cs. cs ! i \<noteq> 0 \<and> uview s addr i = cs ! i) \<and> uview s addr (length cs) = 0"
proof -
  have c: "cur_proc s = Ok (ptab s p) s" using assms(2) by (simp add: cur_proc_def myproc_def get_proc_def kbind_def kget_def)
  have lt: "addr < p_sz (ptab s p)" and f: "fetchstr_from addr (unat (p_sz (ptab s p) - addr)) s = Ok (Some cs) t"
    using assms(1) by (auto simp: fetchstr_def kbind_Ok [where m = cur_proc, OF c] kret_def split: if_splits)
  have "unat (p_sz (ptab s p) - addr) = unat (p_sz (ptab s p)) - unat addr" using lt by (simp add: unat_sub)
  then show ?thesis using fetchstr_from_ok [OF f] lt by (auto simp: word_less_nat_alt)
qed


theorem fetchstr_in_bounds_witness: "fetchstr 0x108 demo_args = Ok (Some [0x20]) demo_args \<and> unat (0x108 :: uint) + length [0x20 :: uchar] < unat (p_sz (ptab demo_args 0))"
proof -
  have c: "cur demo_args = Some 0" and q: "p_sz (ptab demo_args 0) = 0x1000" by (simp_all add: demo_args_def demo_sig_def)
  have "fetchstr_from 0x108 (Suc (Suc m)) demo_args = Ok (Some [0x20]) demo_args" for m
    using demo_args_rd(3,4) by (simp add: kbind_def kret_def)
  from this [of 3830] have f: "fetchstr_from 0x108 3832 demo_args = Ok (Some [0x20]) demo_args" by simp
  have "fetchstr 0x108 demo_args = Ok (Some [0x20]) demo_args"
    using f c q by (simp add: fetchstr_def kbind_def kret_def cur_proc_def get_proc_def myproc_def kget_def)
  then show ?thesis using fetchstr_in_bounds [OF _ c] by blast
qed

end
