(* ===== verification/Vm_Map.thy ===== *)
theory Vm_Map
  imports Page_Table
begin

text \<open>
  What \<^verbatim>\<open>mappages\<close> and \<^verbatim>\<open>allocuvm\<close> do to an address space as a whole.
\<close>

lemma mappages_ok:
  assumes inv: "pgdir_inv s pgdir xs" and sz: "0 < sz" "unat va + unat sz \<le> 2 ^ 32"
  defines "a \<equiv> PGROUNDDOWN va" and "l \<equiv> PGROUNDDOWN (va + sz - 1)"
  assumes free: "unat (l - a) div 4096 < length xs"
    and un: "\<And>vb. a \<le> PGROUNDDOWN vb \<Longrightarrow> PGROUNDDOWN vb \<le> l \<Longrightarrow> \<not> present (tpte (mem s) pgdir vb)"
  obtains t ys where "mappages pgdir va sz pa perm s = Ok 0 t" "vm_step s pgdir xs t ys" "length xs \<le> Suc (unat (l - a) div 4096) + length ys"
    "\<And>vb. tpte (mem t) pgdir vb =
       (if a \<le> PGROUNDDOWN vb \<and> PGROUNDDOWN vb \<le> l then new_pte pa perm (PGROUNDDOWN vb - a) else tpte (mem s) pgdir vb)"
proof -
  have "unat (va + sz - 1) = unat va + unat sz - 1"
  proof -
    have "unat (sz - 1) = unat sz - 1" using sz(1) by (simp add: unat_sub word_less_nat_alt word_le_nat_alt)
    moreover have "unat va + unat (sz - 1) < 2 ^ 32" using sz calculation by (simp add: word_less_nat_alt)
    ultimately show ?thesis using sz(1) by (simp add: add_diff_eq [symmetric] unat_word_ariths word_less_nat_alt)
  qed
  then have "unat va \<le> unat (va + sz - 1)" using sz(1) by (simp add: word_less_nat_alt)
  then have al: "a \<le> l" by (simp add: a_def l_def word_le_nat_alt unat_PGROUNDDOWN div_le_mono)
  let ?k = "unat (l - a) div 4096"
  have k: "4096 * ?k = unat (l - a)" using page_diff [of "va + sz - 1" va] by (auto simp: a_def l_def)
  have le: "unat (PGROUNDDOWN vb - a) \<le> 4096 * ?k \<longleftrightarrow> a \<le> PGROUNDDOWN vb \<and> PGROUNDDOWN vb \<le> l" for vb
  proof -
    have "unat (l - a) = unat l - unat a" using al by (simp add: unat_sub)
    moreover have "unat (PGROUNDDOWN vb - a) = (if unat a \<le> unat (PGROUNDDOWN vb) then unat (PGROUNDDOWN vb) - unat a
      else unat (PGROUNDDOWN vb) + 2 ^ 32 - unat a)" by (simp add: unat_sub_if_size word_size)
    moreover have "unat l < 2 ^ 32" using unsigned_less [of l, where 'a = nat] by simp
    moreover have "unat a \<le> unat l" using al by (simp add: word_le_nat_alt)
    ultimately show ?thesis unfolding k by (auto simp: word_le_nat_alt)
  qed
  have k32: "4096 * ?k < 2 ^ 32" unfolding k using unsigned_less [of "l - a", where 'a = nat] by simp
  have aa: "a mod PGSIZE = 0" by (simp add: a_def)
  have un': "\<not> present (tpte (mem s) pgdir vb)" if "unat (PGROUNDDOWN vb - a) \<le> 4096 * ?k" for vb using un that le by blast
  obtain t ys where t: "mappages_from pgdir a ?k pa perm s = Ok 0 t" "vm_step s pgdir xs t ys" "length xs \<le> Suc ?k + length ys"
    "\<forall>va. tpte (mem t) pgdir va =
        (if unat (PGROUNDDOWN va - a) \<le> 4096 * ?k then new_pte pa perm (PGROUNDDOWN va - a) else tpte (mem s) pgdir va)"
    using mappages_from_ok [OF inv free k32 aa un', of pa perm] by blast
  have "mappages pgdir va sz pa perm s = Ok 0 t"
    using t(1) by (simp add: mappages_def Let_def a_def l_def unat_div)
  then show ?thesis using that t(2-4) le by simp
qed

section \<open>Growing an address space\<close>

lemma alloc_zeroed:
  assumes inv: "pgdir_inv s pgdir (x # xs)"
  obtains t where "kalloc s = Ok x (s\<lparr>freelist := load32 (mem s) x\<rparr>)" "t = s\<lparr>freelist := load32 (mem s) x, mem := memset x 0 PGSIZE (mem s)\<rparr>"
    "vm_step s pgdir (x # xs) t xs" "tables (mem t) pgdir = tables (mem s) pgdir" "\<And>va. tpte (mem t) pgdir va = tpte (mem s) pgdir va"
    "\<And>a. PGROUNDDOWN a = x \<Longrightarrow> mem t a = 0" "x \<noteq> 0" "x mod PGSIZE = 0"
proof -
  note i = pgdir_invD [OF inv]
  let ?s = "s\<lparr>freelist := load32 (mem s) x\<rparr>"
  let ?t = "s\<lparr>freelist := load32 (mem s) x, mem := memset x 0 PGSIZE (mem s)\<rparr>"
  have k: "kalloc s = Ok x ?s" "kmem_inv ?s xs" using kalloc_Cons [OF i(1)] by simp_all
  have x: "x mod PGSIZE = 0" "x \<noteq> 0" "x \<noteq> pgdir" "x \<notin> tables (mem s) pgdir" "x \<notin> set xs"
    using free_aligned [OF i(1)] i(1,3,6) page_ok_nonzero by (auto simp: kmem_inv_def)
  have out: "mem ?t a = mem s a" if "PGROUNDDOWN a \<noteq> x" for a using memset_other_page [OF x(1) that] by simp
  have "pgdir_inv ?s pgdir xs" using i k(2) unfolding pgdir_inv_def by auto
  then have it: "pgdir_inv ?t pgdir xs"
  proof (rule pgdir_inv_frame)
    fix a assume "PGROUNDDOWN a = pgdir \<or> PGROUNDDOWN a \<in> set xs"
    then have "PGROUNDDOWN a \<noteq> x" using x(3,5) by auto
    from out [OF this] show "mem ?t a = mem ?s a" by simp
  qed simp_all
  have e: "ent (mem ?t) pgdir d = ent (mem s) pgdir d" if "d < 1024" for d by (rule ent_cong [OF i(2) _ that]) (rule out, use x(3) in auto)
  have tb: "tables (mem ?t) pgdir = tables (mem s) pgdir" by (rule tables_cong) (rule e)
  have "tpte (mem ?t) pgdir va = tpte (mem s) pgdir va" for va by (rule tpte_cong [OF i(2)]) (rule out, use x(3,4) in auto)
  moreover have "vm_step s pgdir (x # xs) ?t xs"
    by (rule vm_stepI' [OF it, where zs = "[x]"]) (use tb out in auto)
  moreover have "mem ?t a = 0" if "PGROUNDDOWN a = x" for a
  proof -
    have "a - x < PGSIZE" using page_off [of a] that by (metis add_diff_cancel_left')
    then show ?thesis by (simp add: memset_eq)
  qed
  ultimately show ?thesis by (intro that [OF k(1) refl _ tb _ _ x(2,1)])
qed

lemma mappages_page: "a mod PGSIZE = 0 \<Longrightarrow> mappages pgdir a PGSIZE pa perm = mappages_from pgdir a 0 pa perm"
proof -
  assume a: "a mod PGSIZE = 0"
  have "PGROUNDDOWN (a + 4095) = a" by (rule page_of [OF a]) simp
  then have "PGROUNDDOWN (a + PGSIZE - 1) = a" by (simp add: add.commute [of a])
  moreover have "PGROUNDDOWN a = a" using page_of [OF a, of 0] by simp
  ultimately show ?thesis by (simp only: mappages_def Let_def) simp
qed

text \<open>One turn of the loop of \<^verbatim>\<open>allocuvm\<close>: a zeroed page is mapped at \<open>a\<close>.\<close>

lemma alloc_one:
  assumes inv: "pgdir_inv s pgdir xs" and free: "2 \<le> length xs" and a: "of_nat a mod PGSIZE = (0 :: uint)" "a < unat newsz"
    and un: "\<not> present (tpte (mem s) pgdir (of_nat a))"
  obtains t x ys where "x \<in> set xs" "x \<notin> set ys" "x \<noteq> pgdir" "x \<notin> tables (mem t) pgdir" "vm_step s pgdir xs t ys" "length xs \<le> 2 + length ys"
    "\<And>b. PGROUNDDOWN b = x \<Longrightarrow> mem t b = 0"
    "\<And>vb. tpte (mem t) pgdir vb = (if PGROUNDDOWN vb = of_nat a then v2p x OR 7 else tpte (mem s) pgdir vb)"
    "allocuvm_from pgdir oldsz newsz a s = allocuvm_from pgdir oldsz newsz (a + 4096) t"
proof -
  obtain x zs where xs: "xs = x # zs" "zs \<noteq> []" using free by (cases xs) (auto simp: Suc_le_length_iff numeral_2_eq_2)
  obtain r where r: "kalloc s = Ok x (s\<lparr>freelist := load32 (mem s) x\<rparr>)" "r = s\<lparr>freelist := load32 (mem s) x, mem := memset x 0 PGSIZE (mem s)\<rparr>"
    "vm_step s pgdir (x # zs) r zs" "tables (mem r) pgdir = tables (mem s) pgdir" "\<And>va. tpte (mem r) pgdir va = tpte (mem s) pgdir va"
    "\<And>a. PGROUNDDOWN a = x \<Longrightarrow> mem r a = 0" "x \<noteq> 0" "x mod PGSIZE = 0"
    by (rule alloc_zeroed [OF inv [unfolded xs(1)]], rule that)
  have ir: "pgdir_inv r pgdir zs" using r(3) by (simp add: vm_step_def)
  note i = pgdir_invD [OF inv]
  have x: "x \<notin> set zs" "x \<noteq> pgdir" "x \<notin> tables (mem r) pgdir" using i(1,3,6) r(4) xs(1) by (auto simp: kmem_inv_def)
  have ur: "\<not> present (tpte (mem r) pgdir (of_nat a))" using un r(5) by simp
  obtain t ys where t: "vm_step r pgdir zs t ys" "length zs \<le> Suc (length ys)"
    "\<And>vb. tpte (mem t) pgdir vb = (if PGROUNDDOWN vb = PGROUNDDOWN (of_nat a) then new_pte (v2p x) (PTE_W OR PTE_U) 0 else tpte (mem r) pgdir vb)"
    "\<And>k. mappages_from pgdir (of_nat a) k (v2p x) (PTE_W OR PTE_U) r =
       (case k of 0 \<Rightarrow> Ok 0 t | Suc k \<Rightarrow> mappages_from pgdir (of_nat a + PGSIZE) k (v2p x + PGSIZE) (PTE_W OR PTE_U) t)"
    by (rule map_one [OF ir xs(2) ur, of "v2p x" "PTE_W OR PTE_U"], rule that)
  obtain ws where ws: "zs = ws @ ys" "tables (mem t) pgdir \<subseteq> tables (mem r) pgdir \<union> set ws" using t(1) by (auto simp: vm_step_def)
  have xt: "x \<notin> set ys" "x \<notin> tables (mem t) pgdir" using x ws by auto
  have z: "mem t b = 0" if "PGROUNDDOWN b = x" for b
    using t(1) r(6) [OF that] that x unfolding vm_step_def by metis
  have pa: "PGROUNDDOWN (of_nat a) = of_nat a" using page_of [OF a(1), of 0] by simp
  have fl: "new_pte (v2p x) (PTE_W OR PTE_U) 0 = v2p x OR 7" by (simp add: PTE_P_def PTE_W_def PTE_U_def or.assoc)
  have "allocuvm_from pgdir oldsz newsz a s = allocuvm_from pgdir oldsz newsz (a + 4096) t"
    using a(2) r(1,2,7) t(4) [of 0]
    by (subst allocuvm_from.simps) (simp add: kbind_def kseq_def kmemset_def kmod_def mappages_page [OF a(1)])
  moreover have "x \<in> set xs" "length xs \<le> 2 + length ys" using xs(1) t(2) by auto
  ultimately show ?thesis
    using that [of x ys t] xt x(2) z t(3) r(5) pa fl vm_step_trans [OF r(3) t(1)] xs(1) by auto
qed

text \<open>
  The pages \<open>a\<close> to \<open>a + 4096 * n\<close> are mapped, writable by the user, to the frames \<open>f\<close>: zeroed, pairwise different and taken from \<open>xs\<close>. Nothing else
  about the address space \<open>old\<close> has changed.
\<close>

definition grown :: "(uint \<Rightarrow> uint) \<Rightarrow> memory \<Rightarrow> uint \<Rightarrow> uint list \<Rightarrow> nat \<Rightarrow> nat \<Rightarrow> (uint \<Rightarrow> uint) \<Rightarrow> bool" where
  "grown old m pgdir xs a b f \<longleftrightarrow>
     (\<forall>va. tpte m pgdir va = (if a \<le> unat va \<and> unat (PGROUNDDOWN va) < b then v2p (f (PGROUNDDOWN va)) OR 7 else old va)) \<and>
     inj_on f {p. a \<le> unat p \<and> unat p < b \<and> p mod PGSIZE = 0} \<and>
     (\<forall>p. a \<le> unat p \<longrightarrow> unat p < b \<longrightarrow> p mod PGSIZE = 0 \<longrightarrow> f p \<in> set xs \<and> (\<forall>c. PGROUNDDOWN c = f p \<longrightarrow> m c = 0))"

lemma page_le: "a mod 4096 = 0 \<Longrightarrow> a \<le> unat (PGROUNDDOWN va) \<longleftrightarrow> a \<le> unat va"
  unfolding unat_PGROUNDDOWN by (auto elim!: dvdE simp: mod_eq_0_iff_dvd)

lemma inj_on_upd: "inj_on f S \<Longrightarrow> x \<notin> f ` S \<Longrightarrow> P \<subseteq> insert a S \<Longrightarrow> inj_on (f(a := x)) P"
  by (auto simp: inj_on_def)

lemma grown_step:
  assumes g: "grown (tpte (mem t) pgdir) (mem u) pgdir ys (a + 4096) b f"
    and x: "x \<in> set xs" "x \<notin> set ys" "x \<noteq> pgdir" "x \<notin> tables (mem t) pgdir" "\<And>c. PGROUNDDOWN c = x \<Longrightarrow> mem t c = 0"
    and tp: "\<And>vb. tpte (mem t) pgdir vb = (if PGROUNDDOWN vb = of_nat a then v2p x OR 7 else tpte (mem s) pgdir vb)"
    and st: "vm_step s pgdir xs t ys" "vm_step t pgdir ys u zs"
    and sep: "\<And>va. PGROUNDDOWN va = of_nat a \<longleftrightarrow> a \<le> unat va \<and> \<not> a + 4096 \<le> unat va"
    and a: "a < b" "unat (of_nat a :: uint) = a" "of_nat a mod PGSIZE = (0 :: uint)"
  shows "grown (tpte (mem s) pgdir) (mem u) pgdir xs a b (f(of_nat a := x))"
proof -
  let ?f = "f(of_nat a := x)" and ?P = "\<lambda>a. {p. a \<le> unat p \<and> unat p < b \<and> p mod PGSIZE = (0 :: uint)}"
  have pg: "PGROUNDDOWN p = p" if "p mod PGSIZE = 0" for p using page_of [OF that, of 0] by simp
  obtain S where S: "?P (a + 4096) = S" by blast
  have Pi: "p = of_nat a \<or> p \<in> S" if "p \<in> ?P a" for p
    unfolding S [symmetric] using that sep [of p] pg [of p] unfolding mem_Collect_eq by metis
  have an: "of_nat a \<notin> S" unfolding S [symmetric] using a(2) by simp
  have g1: "tpte (mem u) pgdir va =
      (if a + 4096 \<le> unat va \<and> unat (PGROUNDDOWN va) < b then v2p (f (PGROUNDDOWN va)) OR 7 else tpte (mem t) pgdir va)" for va
    by (rule conjunct1 [OF g [unfolded grown_def], THEN spec])
  have g2: "inj_on f S" unfolding S [symmetric] by (rule conjunct1 [OF conjunct2 [OF g [unfolded grown_def]]])
  have g3: "f p \<in> set ys" "PGROUNDDOWN c = f p \<Longrightarrow> mem u c = 0" if "p \<in> S" for p c
    using that unfolding S [symmetric] using conjunct2 [OF conjunct2 [OF g [unfolded grown_def]], rule_format, of p] by auto
  have ys: "set ys \<subseteq> set xs" using st(1) by (auto simp: vm_step_def)
  have fr: "mem u c = mem t c" if "PGROUNDDOWN c \<noteq> pgdir" "PGROUNDDOWN c \<notin> tables (mem t) pgdir" "PGROUNDDOWN c \<notin> set ys" for c
    using st(2) that unfolding vm_step_def by blast
  have z: "mem u c = 0" if "PGROUNDDOWN c = x" for c using fr [of c] x(2-5) that by simp
  show ?thesis
    unfolding grown_def
  proof (intro conjI allI impI, goal_cases)
    case (1 va)
    show ?case using g1 [of va] tp [of va] sep [of va] a(1,2) by auto
  next
    case 2
    show ?case
    proof (rule inj_on_upd [OF g2])
      show "x \<notin> f ` S" using g3(1) x(2) by blast
      show "?P a \<subseteq> insert (of_nat a) S" by (rule subsetI, drule Pi) (simp only: insert_iff)
    qed
  next
    case (3 p)
    then have "p \<in> ?P a" by blast
    then show ?case
    proof (rule Pi [THEN disjE])
      assume "p \<in> S"
      then have "p \<noteq> of_nat a" "f p \<in> set ys" using an g3(1) by metis+
      then show ?thesis using ys by auto
    qed (simp add: x(1))
  next
    case (4 p c)
    then have "p \<in> ?P a" by blast
    then show ?case
    proof (rule Pi [THEN disjE])
      assume p: "p \<in> S"
      then have "p \<noteq> of_nat a" using an by metis
      then show ?thesis using g3(2) [OF p, of c] 4(4) by simp
    next
      assume "p = of_nat a"
      then show ?thesis using z 4(4) by simp
    qed
  qed
qed

lemma allocuvm_from_ok:
  "pgdir_inv s pgdir xs \<Longrightarrow> 2 * n \<le> length xs \<Longrightarrow> a mod 4096 = 0 \<Longrightarrow> n = (unat newsz - a + 4095) div 4096 \<Longrightarrow>
   (\<And>va. a \<le> unat va \<Longrightarrow> unat (PGROUNDDOWN va) < unat newsz \<Longrightarrow> \<not> present (tpte (mem s) pgdir va)) \<Longrightarrow>
   \<exists>t ys f. allocuvm_from pgdir oldsz newsz a s = Ok newsz t \<and> vm_step s pgdir xs t ys \<and> grown (tpte (mem s) pgdir) (mem t) pgdir xs a (unat newsz) f"
proof (induction n arbitrary: s xs a)
  case 0
  then have a: "\<not> a < unat newsz" by auto
  then have "allocuvm_from pgdir oldsz newsz a s = Ok newsz s" by (subst allocuvm_from.simps) (simp add: kret_def)
  moreover have "\<not> (a \<le> unat va \<and> unat (PGROUNDDOWN va) < unat newsz)" for va using a page_le [OF 0(3), of va] by linarith
  ultimately show ?case using vm_step_refl [OF 0(1)] a unfolding grown_def by (intro exI [of _ s] exI [of _ xs] exI [of _ id]) auto
next
  case (Suc n)
  have lt: "a < unat newsz" using Suc.prems(4) by (cases "a < unat newsz") auto
  have n: "n = (unat newsz - (a + 4096) + 4095) div 4096" using Suc.prems(4) lt by auto
  have a32: "a < 2 ^ 32" using lt unsigned_less [of newsz, where 'a = nat] by simp
  then have ua: "unat (of_nat a :: uint) = a" by (simp add: unat_of_nat)
  have al: "of_nat a mod PGSIZE = (0 :: uint)" using Suc.prems(3) ua by (simp add: unat_mod_4096)
  have pa: "PGROUNDDOWN (of_nat a) = of_nat a" using page_of [OF al, of 0] by simp
  have un: "\<not> present (tpte (mem s) pgdir (of_nat a))" by (rule Suc.prems(5)) (use ua pa lt in simp_all)
  obtain t x ys where t: "x \<in> set xs" "x \<notin> set ys" "x \<noteq> pgdir" "x \<notin> tables (mem t) pgdir" "vm_step s pgdir xs t ys" "length xs \<le> 2 + length ys"
    "\<And>b. PGROUNDDOWN b = x \<Longrightarrow> mem t b = 0"
    "\<And>vb. tpte (mem t) pgdir vb = (if PGROUNDDOWN vb = of_nat a then v2p x OR 7 else tpte (mem s) pgdir vb)"
    "allocuvm_from pgdir oldsz newsz a s = allocuvm_from pgdir oldsz newsz (a + 4096) t"
    by (rule alloc_one [OF Suc.prems(1) _ al lt un, of oldsz]) (use Suc.prems(2) in simp, rule that)
  have it: "pgdir_inv t pgdir ys" using t(5) by (simp add: vm_step_def)
  have sep: "PGROUNDDOWN va = of_nat a \<longleftrightarrow> a \<le> unat va \<and> \<not> a + 4096 \<le> unat va" for va
  proof -
    have "unat (PGROUNDDOWN va) = a \<longleftrightarrow> a \<le> unat va \<and> \<not> a + 4096 \<le> unat va"
      unfolding unat_PGROUNDDOWN using Suc.prems(3) by (auto simp: mod_eq_0_iff_dvd elim!: dvdE)
    moreover have "PGROUNDDOWN va = of_nat a \<longleftrightarrow> unat (PGROUNDDOWN va) = a" using ua by (metis word_unat_eq_iff)
    ultimately show ?thesis by auto
  qed
  have a': "(a + 4096) mod 4096 = 0" using Suc.prems(3) by simp
  have un': "\<not> present (tpte (mem t) pgdir va)" if "a + 4096 \<le> unat va" "unat (PGROUNDDOWN va) < unat newsz" for va
  proof -
    have "a + 4096 \<le> unat (PGROUNDDOWN va)" using that(1) page_le [OF a', of va] by simp
    then have "PGROUNDDOWN va \<noteq> of_nat a" using ua by auto
    then show ?thesis using t(8) [of va] Suc.prems(5) [of va] that by simp
  qed
  obtain u zs f where u: "allocuvm_from pgdir oldsz newsz (a + 4096) t = Ok newsz u" "vm_step t pgdir ys u zs"
    "grown (tpte (mem t) pgdir) (mem u) pgdir ys (a + 4096) (unat newsz) f"
    using Suc.IH [OF it _ a' n un'] Suc.prems(2) t(6) by auto
  have "grown (tpte (mem s) pgdir) (mem u) pgdir xs a (unat newsz) (f(of_nat a := x))"
    by (rule grown_step [OF u(3) t(1-4,7,8) t(5) u(2) sep lt ua al])
  then show ?case using u(1) t(9) vm_step_trans [OF t(5) u(2)] by metis
qed

section \<open>Properties\<close>

text \<open>
  C6: \<^verbatim>\<open>mappages\<close> maps exactly the pages it is asked to map: with enough free pages it succeeds, afterwards the page table entry of every
  address in the pages of the range is the corresponding physical page with the given permissions, the entries of all
  other addresses are as before, and the page directory keeps its shape.
\<close>

theorem mappages_maps:
  assumes "pgdir_inv s pgdir xs" and "0 < sz" "unat va + unat sz \<le> 2 ^ 32"
    and "unat (PGROUNDDOWN (va + sz - 1) - PGROUNDDOWN va) div 4096 < length xs"
    and "\<forall>vb. PGROUNDDOWN va \<le> PGROUNDDOWN vb \<longrightarrow> PGROUNDDOWN vb \<le> PGROUNDDOWN (va + sz - 1) \<longrightarrow> tpte (mem s) pgdir vb AND PTE_P = 0"
  shows "\<exists>t ys. mappages pgdir va sz pa perm s = Ok 0 t \<and> pgdir_inv t pgdir ys \<and> set ys \<subseteq> set xs \<and>
     (\<forall>vb. tpte (mem t) pgdir vb =
        (if PGROUNDDOWN va \<le> PGROUNDDOWN vb \<and> PGROUNDDOWN vb \<le> PGROUNDDOWN (va + sz - 1)
         then (pa + (PGROUNDDOWN vb - PGROUNDDOWN va)) OR perm OR PTE_P else tpte (mem s) pgdir vb))"
  by (rule mappages_ok [OF assms(1-4), of pa perm]) (use assms(5) in \<open>auto simp: vm_step_def\<close>)

text \<open>
  C7: \<^verbatim>\<open>allocuvm\<close> grows an address space: with enough free pages it returns the new size, every page between the old and the new size is
  mapped for the user to a frame of its own that was on the free list and holds only zeros, and no other
  page table entry has changed.
\<close>

theorem allocuvm_grows:
  assumes "pgdir_inv s pgdir xs" and "oldsz \<le> newsz" "newsz < KERNBASE" and "2 * ((unat newsz - unat (PGROUNDUP oldsz) + 4095) div 4096) \<le> length xs"
    and "\<forall>va. unat (PGROUNDUP oldsz) \<le> unat va \<longrightarrow> unat (PGROUNDDOWN va) < unat newsz \<longrightarrow> tpte (mem s) pgdir va AND PTE_P = 0"
  shows "\<exists>t ys f. allocuvm pgdir oldsz newsz s = Ok newsz t \<and> pgdir_inv t pgdir ys \<and>
     grown (tpte (mem s) pgdir) (mem t) pgdir xs (unat (PGROUNDUP oldsz)) (unat newsz) f"
proof -
  have "unat (PGROUNDUP oldsz) mod 4096 = 0" using PGROUNDUP_aligned unat_mod_4096 by blast
  from allocuvm_from_ok [OF assms(1,4) this refl, of oldsz] assms(5)
  obtain t ys f where "allocuvm_from pgdir oldsz newsz (unat (PGROUNDUP oldsz)) s = Ok newsz t" "vm_step s pgdir xs t ys"
    "grown (tpte (mem s) pgdir) (mem t) pgdir xs (unat (PGROUNDUP oldsz)) (unat newsz) f" by blast
  then show ?thesis using assms(2,3) by (auto simp: allocuvm_def vm_step_def)
qed

text \<open>An empty page directory and two free pages.\<close>

definition demo_pgdir :: kmem_state where
  "demo_pgdir = \<lparr>mem = store32 (\<lambda>_. 0) 0x80200000 0x80201000, freelist = 0x80200000, use_lock = False, kend = 0x80100000\<rparr>"

lemma demo_pgdir_inv: "pgdir_inv demo_pgdir 0x80300000 [0x80200000, 0x80201000]" "tpte (mem demo_pgdir) 0x80300000 va = 0"
proof -
  have e: "ent (mem demo_pgdir) 0x80300000 d = 0" if "d < 1024" for d
  proof -
    have "ent (mem demo_pgdir) 0x80300000 d = load32 (\<lambda>_. 0) (0x80300000 + 4 * d)"
      unfolding ent_def demo_pgdir_def using load32_other_entry [of "0x80200000" "0x80300000" 0 d "\<lambda>_. 0"] that by simp
    then show ?thesis by (simp add: load32_def)
  qed
  have "kmem_inv demo_pgdir [0x80200000, 0x80201000]"
    by (simp add: kmem_inv_def demo_pgdir_def page_ok_def v2p_def KERNBASE_def PHYSTOP_def) (simp add: load32_def store32_def)
  then show "pgdir_inv demo_pgdir 0x80300000 [0x80200000, 0x80201000]" unfolding pgdir_inv_def using e by (auto simp: tables_def)
  show "tpte (mem demo_pgdir) 0x80300000 va = 0" using e [OF PDX_lt(1)] by (simp add: tpte_def)
qed

theorem mappages_maps_witness:
  "\<exists>t ys. mappages 0x80300000 0x1800 0x10 0x5000 PTE_W demo_pgdir = Ok 0 t \<and> pgdir_inv t 0x80300000 ys \<and> tpte (mem t) 0x80300000 0x1234 = 0x5003"
proof -
  have p: "PGROUNDDOWN (0x1800 + 0x10 - 1) = 0x1000" "PGROUNDDOWN 0x1800 = 0x1000" "PGROUNDDOWN 0x1234 = 0x1000" by (simp_all add: PGROUNDDOWN_def)
  have h: "(0 :: uint) < 0x10" "unat (0x1800 :: uint) + unat (0x10 :: uint) \<le> 2 ^ 32"
    "unat (PGROUNDDOWN (0x1800 + 0x10 - 1) - PGROUNDDOWN 0x1800) div 4096 < length [0x80200000, 0x80201000 :: uint]"
    "\<forall>vb. PGROUNDDOWN 0x1800 \<le> PGROUNDDOWN vb \<longrightarrow> PGROUNDDOWN vb \<le> PGROUNDDOWN (0x1800 + 0x10 - 1) \<longrightarrow>
       tpte (mem demo_pgdir) 0x80300000 vb AND PTE_P = 0"
    unfolding p by (simp_all add: demo_pgdir_inv(2))
  obtain t ys where t: "mappages 0x80300000 0x1800 0x10 0x5000 PTE_W demo_pgdir = Ok 0 t" "pgdir_inv t 0x80300000 ys"
    "\<forall>vb. tpte (mem t) 0x80300000 vb =
        (if 0x1000 \<le> PGROUNDDOWN vb \<and> PGROUNDDOWN vb \<le> 0x1000
         then (0x5000 + (PGROUNDDOWN vb - 0x1000)) OR PTE_W OR PTE_P else tpte (mem demo_pgdir) 0x80300000 vb)"
    using mappages_maps [OF demo_pgdir_inv(1) h, of "0x5000" PTE_W] unfolding p by blast
  from t(3) have "tpte (mem t) 0x80300000 0x1234 = 0x5003" unfolding p by (drule_tac x = "0x1234" in spec) (simp add: p PTE_W_def PTE_P_def)
  then show ?thesis using t(1,2) by blast
qed

theorem allocuvm_grows_witness:
  "\<exists>t ys x. allocuvm 0x80300000 0 0x800 demo_pgdir = Ok 0x800 t \<and> pgdir_inv t 0x80300000 ys \<and>
     tpte (mem t) 0x80300000 0x123 = v2p x OR 7 \<and> x \<in> {0x80200000, 0x80201000}"
proof -
  have p: "PGROUNDUP 0 = 0" "PGROUNDDOWN 0x123 = 0" by (simp_all add: PGROUNDDOWN_def PGROUNDUP_def)
  have v: "unat (0x800 :: uint) = 0x800" by simp
  have h: "(0 :: uint) \<le> 0x800" "0x800 < KERNBASE" "2 * ((unat (0x800 :: uint) - unat (PGROUNDUP 0) + 4095) div 4096) \<le> length [0x80200000, 0x80201000 :: uint]"
    "\<forall>va. unat (PGROUNDUP 0) \<le> unat va \<longrightarrow> unat (PGROUNDDOWN va) < unat (0x800 :: uint) \<longrightarrow> tpte (mem demo_pgdir) 0x80300000 va AND PTE_P = 0"
    unfolding p by (simp_all add: demo_pgdir_inv(2) KERNBASE_def)
  obtain t ys f where "allocuvm 0x80300000 0 0x800 demo_pgdir = Ok 0x800 t" "pgdir_inv t 0x80300000 ys"
    "grown (tpte (mem demo_pgdir) 0x80300000) (mem t) 0x80300000 [0x80200000, 0x80201000] 0 0x800 f"
    using allocuvm_grows [OF demo_pgdir_inv(1) h] unfolding p unat_0 v by blast
  then have g: "allocuvm 0x80300000 0 0x800 demo_pgdir = Ok 0x800 t" "pgdir_inv t 0x80300000 ys"
    "\<forall>va. tpte (mem t) 0x80300000 va = (if unat (PGROUNDDOWN va) < 0x800 then v2p (f (PGROUNDDOWN va)) OR 7 else tpte (mem demo_pgdir) 0x80300000 va)"
    "\<forall>p. unat p < 0x800 \<longrightarrow> p mod PGSIZE = 0 \<longrightarrow> f p \<in> {0x80200000, 0x80201000}"
    by (simp_all add: grown_def)
  have "tpte (mem t) 0x80300000 0x123 = v2p (f 0) OR 7" using g(3) p(2) by simp
  moreover have "f 0 \<in> {0x80200000, 0x80201000}" using g(4) by simp
  ultimately show ?thesis using g(1,2) by blast
qed

end
