(* ===== verification/Sched.thy ===== *)
theory Sched
  imports Proc
begin

text \<open>
  The scheduler's loop over the process table, \<^verbatim>\<open>scheduler\<close> of \<^verbatim>\<open>proc.c\<close>, as a sequence of turns. A turn starts at a position of the table and
  either finds the next runnable process and dispatches it (\<^verbatim>\<open>swtch\<close>), after which the loop goes on behind it, or reaches the end of the
  table and starts over. \<open>S k\<close> is the process table as the loop sees it in turn \<open>k\<close>: between two turns the dispatched process, interrupts and
  the other processors may have changed it in any way.
\<close>

definition sched_turn :: "'a ptable_state_scheme \<Rightarrow> nat \<Rightarrow> nat option \<times> nat" where
  "sched_turn s i = (case sched_next s i of Some p \<Rightarrow> (Some p, Suc p) | None \<Rightarrow> (None, 0))"

primrec sched_pos :: "(nat \<Rightarrow> 'a ptable_state_scheme) \<Rightarrow> nat \<Rightarrow> nat" where
  "sched_pos S 0 = 0"
| "sched_pos S (Suc k) = snd (sched_turn (S k) (sched_pos S k))"

definition dispatched :: "(nat \<Rightarrow> 'a ptable_state_scheme) \<Rightarrow> nat \<Rightarrow> nat option" where
  "dispatched S k = fst (sched_turn (S k) (sched_pos S k))"

text \<open>From turn \<open>n\<close> on process \<open>q\<close> is runnable until it is dispatched.\<close>

definition waits :: "(nat \<Rightarrow> 'a ptable_state_scheme) \<Rightarrow> nat \<Rightarrow> nat \<Rightarrow> bool" where
  "waits S n q \<longleftrightarrow> (\<forall>k\<ge>n. (\<forall>j. n \<le> j \<and> j < k \<longrightarrow> dispatched S j \<noteq> Some q) \<longrightarrow> p_state (ptab (S k) q) = RUNNABLE)"

lemma sched_next_Some:
  assumes "sched_next s i = Some p"
  shows "i \<le> p" "p < NPROC" "p_state (ptab s p) = RUNNABLE" "\<And>q. i \<le> q \<Longrightarrow> q < p \<Longrightarrow> p_state (ptab s q) \<noteq> RUNNABLE"
proof -
  from assms obtain k where k: "k < length [i..<NPROC]" "p_state (ptab s ([i..<NPROC] ! k)) = RUNNABLE" "p = [i..<NPROC] ! k"
    "\<forall>j<k. p_state (ptab s ([i..<NPROC] ! j)) \<noteq> RUNNABLE"
    unfolding sched_next_def find_Some_iff by blast
  then have p: "p = i + k" "i + k < NPROC" by simp_all
  show "i \<le> p" "p < NPROC" "p_state (ptab s p) = RUNNABLE" using p k by simp_all
  show "p_state (ptab s q) \<noteq> RUNNABLE" if "i \<le> q" "q < p" for q
    using k(4) [rule_format, of "q - i"] that p by simp
qed

lemma sched_next_None: "sched_next s i = None \<Longrightarrow> i \<le> q \<Longrightarrow> q < NPROC \<Longrightarrow> p_state (ptab s q) \<noteq> RUNNABLE"
  unfolding sched_next_def find_None_iff by auto

lemma sched_pos_le: "sched_pos S k \<le> NPROC"
  using sched_next_Some(2) by (cases k) (force simp: sched_turn_def split: option.split)+

text \<open>A waiting process is passed only by dispatching processes before it.\<close>

lemma turn_before:
  assumes "p_state (ptab s q) = RUNNABLE" "i \<le> q" "q < NPROC"
  shows "\<exists>p. sched_turn s i = (Some p, Suc p) \<and> i \<le> p \<and> p \<le> q"
proof (cases "sched_next s i")
  case None
  then show ?thesis using sched_next_None [OF None assms(2,3)] assms(1) by simp
next
  case (Some p)
  then show ?thesis using sched_next_Some [OF Some] assms by (metis linorder_not_less option.simps(5) sched_turn_def)
qed

lemma reach_before:
  assumes wait: "waits S n q" and q: "q < NPROC"
  shows "n \<le> m \<Longrightarrow> sched_pos S m \<le> q \<Longrightarrow> \<forall>j. n \<le> j \<and> j < m \<longrightarrow> dispatched S j \<noteq> Some q \<Longrightarrow>
    \<exists>k. m \<le> k \<and> k \<le> m + (q - sched_pos S m) \<and> dispatched S k = Some q"
proof (induction "q - sched_pos S m" arbitrary: m rule: less_induct)
  case less
  obtain p where p: "sched_turn (S m) (sched_pos S m) = (Some p, Suc p)" "sched_pos S m \<le> p" "p \<le> q"
    using turn_before [OF _ less.prems(2) q, of "S m"] wait less.prems(1,3) unfolding waits_def by blast
  show ?case
  proof (cases "p = q")
    case True
    then show ?thesis using p by (intro exI [of _ m]) (simp add: dispatched_def)
  next
    case False
    have d: "dispatched S m = Some p" "sched_pos S (Suc m) = Suc p" using p by (simp_all add: dispatched_def)
    have "\<forall>j. n \<le> j \<and> j < Suc m \<longrightarrow> dispatched S j \<noteq> Some q" using less.prems(3) d(1) False less_Suc_eq by auto
    moreover have "q - sched_pos S (Suc m) < q - sched_pos S m" "sched_pos S (Suc m) \<le> q" "n \<le> Suc m"
      unfolding d(2) using p(2,3) False less.prems(1) by linarith+
    ultimately obtain k where "Suc m \<le> k" "k \<le> Suc m + (q - Suc p)" "dispatched S k = Some q"
      using less.hyps [of "Suc m"] unfolding d(2) by blast
    then show ?thesis using p False by (intro exI [of _ k]) auto
  qed
qed

lemma reach_end:
  "q < sched_pos S m \<Longrightarrow> \<exists>k. m \<le> k \<and> k \<le> m + (NPROC - sched_pos S m) \<and> sched_pos S (Suc k) = 0 \<and> (\<forall>j. m \<le> j \<longrightarrow> j \<le> k \<longrightarrow> dispatched S j \<noteq> Some q)"
proof (induction "NPROC - sched_pos S m" arbitrary: m rule: less_induct)
  case less
  show ?case
  proof (cases "sched_next (S m) (sched_pos S m)")
    case None
    then show ?thesis by (intro exI [of _ m]) (auto simp: sched_turn_def dispatched_def)
  next
    case (Some p)
    note n = sched_next_Some [OF Some]
    have d: "sched_pos S (Suc m) = Suc p" "dispatched S m \<noteq> Some q" using Some n(1) less.prems by (auto simp: sched_turn_def dispatched_def)
    have "NPROC - sched_pos S (Suc m) < NPROC - sched_pos S m" "q < sched_pos S (Suc m)" unfolding d(1) using n(1,2) less.prems by linarith+
    from less.hyps [OF this] obtain k where k: "Suc m \<le> k" "k \<le> Suc m + (NPROC - Suc p)" "sched_pos S (Suc k) = 0" "\<forall>j. Suc m \<le> j \<longrightarrow> j \<le> k \<longrightarrow> dispatched S j \<noteq> Some q"
      unfolding d(1) by blast
    have "dispatched S j \<noteq> Some q" if "m \<le> j" "j \<le> k" for j using that k(4) d(2) by (cases "j = m") auto
    then show ?thesis using k n(1,2) by (intro exI [of _ k]) auto
  qed
qed

section \<open>Properties\<close>

text \<open>
  C8: no runnable process starves: whatever the other processes do to the table between the turns of the scheduler, a process that
  stays runnable until it is dispatched is dispatched within \<open>NPROC\<close> further turns.
\<close>

theorem scheduler_fair:
  assumes wait: "waits S n q" and q: "q < NPROC"
  shows "\<exists>k. n \<le> k \<and> k \<le> n + NPROC \<and> dispatched S k = Some q"
proof (cases "sched_pos S n \<le> q")
  case True
  then obtain k where "n \<le> k" "k \<le> n + (q - sched_pos S n)" "dispatched S k = Some q" using reach_before [OF wait q, of n] by fastforce
  then show ?thesis using q by (intro exI [of _ k]) auto
next
  case False
  then obtain m where m: "n \<le> m" "m \<le> n + (NPROC - sched_pos S n)" "sched_pos S (Suc m) = 0" "\<forall>j. n \<le> j \<longrightarrow> j \<le> m \<longrightarrow> dispatched S j \<noteq> Some q"
    using reach_end [of q S n] by auto
  obtain k where "Suc m \<le> k" "k \<le> Suc m + q" "dispatched S k = Some q"
    using reach_before [OF wait q, of "Suc m"] m by (auto simp: less_Suc_eq_le)
  then show ?thesis using m(1,2) False sched_pos_le [of S n] by (intro exI [of _ k]) auto
qed

text \<open>Processes 0 and 3 are always runnable: process 3 gets its turn.\<close>

definition demo_table :: ptable_state where
  "demo_table = (undefined :: ptable_state)\<lparr>ptab := (\<lambda>p. undefined\<lparr>p_state := (if p = 0 \<or> p = 3 then RUNNABLE else UNUSED)\<rparr>)\<rparr>"

theorem scheduler_fair_witness: "\<exists>k\<le>NPROC. dispatched (\<lambda>_. demo_table) k = Some 3"
  using scheduler_fair [of "\<lambda>_. demo_table" 0 3] by (simp add: waits_def demo_table_def)

end
