(* ===== verification/File_Props.thy ===== *)
theory File_Props
  imports File
begin

text \<open>
  Files and pipes together: \<^verbatim>\<open>pipealloc\<close> obtains two files and a page or nothing, and closing both ends of a pipe gives everything back.
\<close>

text \<open>Free entries of the file table have no type, as \<^verbatim>\<open>fileclose\<close> leaves them.\<close>

definition ftable_inv :: "'a file_state_scheme \<Rightarrow> bool" where
  "ftable_inv s \<longleftrightarrow> (\<forall>f<NFILE. f_ref (ftable s f) = 0 \<longrightarrow> f_type (ftable s f) = FD_NONE)"

definition free_files :: "'a file_state_scheme \<Rightarrow> nat list" where
  "free_files s = filter (\<lambda>f. f_ref (ftable s f) = 0) [0..<NFILE]"

lemma find_filter: "find P xs = (case filter P xs of [] \<Rightarrow> None | x # _ \<Rightarrow> Some x)"
  by (induction xs) auto

lemma filealloc_run:
  "filealloc s = (case free_files s of [] \<Rightarrow> Ok None s
     | f # _ \<Rightarrow> Ok (Some f) (s\<lparr>ftable := (ftable s)(f := (ftable s f)\<lparr>f_ref := 1\<rparr>)\<rparr>))"
  by (auto simp: filealloc_def free_files_def find_filter kbind_def kget_def kseq_def kret_def upd_file_def kmod_def split: list.split)

lemma free_files_facts: "distinct (free_files s)" "f \<in> set (free_files s) \<longleftrightarrow> f < NFILE \<and> f_ref (ftable s f) = 0"
  by (auto simp: free_files_def)

lemma free_files_upd:
  assumes "free_files s = f # fs" "f_ref x \<noteq> 0"
  shows "free_files (s\<lparr>ftable := (ftable s)(f := x)\<rparr>) = fs"
proof -
  have "f \<notin> set fs" using free_files_facts(1) [of s] assms(1) by simp
  have "free_files (s\<lparr>ftable := (ftable s)(f := x)\<rparr>) = filter (\<lambda>g. g \<noteq> f) (free_files s)"
    using assms(2) unfolding free_files_def filter_filter by (intro filter_cong) auto
  also have "\<dots> = fs" using \<open>f \<notin> set fs\<close> assms(1) by (auto simp: filter_id_conv)
  finally show ?thesis .
qed

text \<open>Closing a file that was just allocated puts its entry back.\<close>

lemma fileclose_fresh:
  assumes "ftable_inv s" "f < NFILE" "f_ref (ftable s f) = 0" "ftable t f = (ftable s f)\<lparr>f_ref := 1\<rparr>"
  shows "fileclose f t = Ok () (t\<lparr>ftable := (ftable t)(f := ftable s f)\<rparr>)"
proof -
  have ty: "f_type (ftable s f) = FD_NONE" using assms by (auto simp: ftable_inv_def)
  have "(ftable s f)\<lparr>f_ref := 0, f_type := FD_NONE\<rparr> = ftable s f" using ty assms(3) by simp
  then show ?thesis using assms(4) ty by (simp add: fileclose_def get_file_def upd_file_def kbind_def kget_def kseq_def kmod_def kret_def)
qed

definition fresh_pipe :: "pipe \<Rightarrow> pipe" where
  "fresh_pipe q = q\<lparr>pi_readopen := True, pi_writeopen := True, pi_nwrite := 0, pi_nread := 0\<rparr>"

definition pipe_end :: "bool \<Rightarrow> uint \<Rightarrow> file_struct \<Rightarrow> file_struct" where
  "pipe_end wr p x = x\<lparr>f_ref := 1, f_type := FD_PIPE, f_readable := \<not> wr, f_writable := wr, f_pipe := p\<rparr>"

text \<open>Closing the last reference to an end of a pipe.\<close>

lemma fileclose_pipe:
  assumes "f_ref (ftable s f) = 1" "f_type (ftable s f) = FD_PIPE"
  shows "fileclose f s = pipeclose (f_pipe (ftable s f)) (f_writable (ftable s f))
     (s\<lparr>ftable := (ftable s)(f := (ftable s f)\<lparr>f_ref := 0, f_type := FD_NONE\<rparr>)\<rparr>)"
  using assms by (simp add: fileclose_def get_file_def upd_file_def kbind_def kget_def kseq_def kmod_def kret_def)

lemma pipeclose_run:
  "pi_writeopen (pipes s p) \<Longrightarrow> pipeclose p False s = Ok () (wakeup1 (ChanPipeWrite p) (s\<lparr>pipes := (pipes s)(p := (pipes s p)\<lparr>pi_readopen := False\<rparr>)\<rparr>))"
  "\<not> pi_readopen (pipes s p) \<Longrightarrow> pipeclose p True s = kfree p (wakeup1 (ChanPipeRead p) (s\<lparr>pipes := (pipes s)(p := (pipes s p)\<lparr>pi_writeopen := False\<rparr>)\<rparr>))"
  by (simp_all add: pipeclose_def upd_pipe_def get_pipe_def kbind_def kget_def kseq_def kmod_def kret_def wakeup1_def)

lemma kfree_ftable: "kfree v s = Ok () t \<Longrightarrow> ftable t = ftable s"
  by (auto simp: kfree_def split: if_splits)

lemma pipealloc_run:
  assumes ft: "ftable_inv s" and km: "kmem_inv s xs"
  shows "pipealloc s =
    (case (free_files s, xs) of
       (r # w # _, p # _) \<Rightarrow>
         Ok (Some (r, w)) (s\<lparr>freelist := load32 (mem s) p, pipes := (pipes s)(p := fresh_pipe (pipes s p)),
           ftable := (ftable s)(r := pipe_end False p (ftable s r), w := pipe_end True p (ftable s w))\<rparr>)
     | _ \<Rightarrow> Ok None s)"
proof (cases "free_files s")
  case Nil
  then show ?thesis using filealloc_run [of s]
    by (simp add: pipealloc_def pipealloc_bad_def kbind_def kseq_def kret_def)
next
  case (Cons r fs)
  let ?a = "s\<lparr>ftable := (ftable s)(r := (ftable s r)\<lparr>f_ref := 1\<rparr>)\<rparr>"
  have r: "r < NFILE" "f_ref (ftable s r) = 0" using free_files_facts(2) [where f = r and s = s] Cons by simp_all
  have fa: "filealloc s = Ok (Some r) ?a" using filealloc_run [of s] Cons by simp
  have fs: "free_files ?a = fs" by (rule free_files_upd [OF Cons]) simp
  have undo: "fileclose r ?a = Ok () s" using fileclose_fresh [OF ft r, of ?a] by simp
  show ?thesis
  proof (cases fs)
    case Nil
    then show ?thesis using Cons fa fs undo filealloc_run [of ?a]
      by (simp add: pipealloc_def pipealloc_bad_def kbind_def kseq_def kret_def)
  next
    case c2: (Cons w gs)
    let ?b = "?a\<lparr>ftable := (ftable ?a)(w := (ftable ?a w)\<lparr>f_ref := 1\<rparr>)\<rparr>"
    have w: "w < NFILE" "f_ref (ftable s w) = 0" "w \<noteq> r" using free_files_facts(1) [of s] free_files_facts(2) [where f = w and s = s] Cons c2 by auto
    have fb: "filealloc ?a = Ok (Some w) ?b" using filealloc_run [of ?a] fs c2 by simp
    have kb: "kmem_inv ?b xs" using km by (simp add: kmem_inv_def page_ok_def)
    show ?thesis
    proof (cases xs)
      case Nil
      have ka: "kalloc ?b = Ok 0 ?b" using kalloc_Nil kb Nil by blast
      let ?c = "?b\<lparr>ftable := (ftable ?b)(r := ftable s r)\<rparr>"
      have "fileclose r ?b = Ok () ?c" by (rule fileclose_fresh [OF ft r]) (use w in simp)
      moreover have "fileclose w ?c = Ok () (?c\<lparr>ftable := (ftable ?c)(w := ftable s w)\<rparr>)" by (rule fileclose_fresh [OF ft w(1,2)]) (use w in simp)
      moreover have "?c\<lparr>ftable := (ftable ?c)(w := ftable s w)\<rparr> = s" using w(3) by (simp add: fun_upd_twist)
      ultimately show ?thesis using Cons c2 Nil fa fb ka
        by (simp add: pipealloc_def pipealloc_bad_def kbind_def kseq_def kret_def)
    next
      case c3: (Cons p ps)
      have "kalloc ?b = Ok p (?b\<lparr>freelist := load32 (mem ?b) p\<rparr>)" and p: "p \<noteq> 0"
        using kalloc_Cons [OF kb [unfolded c3]] km c3 page_ok_nonzero by (auto simp: kmem_inv_def)
      then show ?thesis using Cons c2 c3 fa fb w(3)
        by (simp add: pipealloc_def kbind_def kseq_def kret_def upd_pipe_def upd_file_def kmod_def fresh_pipe_def pipe_end_def fun_upd_twist)
    qed
  qed
qed

section \<open>Properties\<close>

text \<open>
  C23: \<^verbatim>\<open>pipealloc\<close> is all or nothing. With two free entries in the file table and a free page it takes exactly these: the first becomes the
  reading end and the second the writing end of an open, empty pipe in that page. When an entry or the page is
  missing it fails and leaves the whole kernel state as it was.
\<close>

theorem pipealloc_all_or_nothing:
  assumes ft: "ftable_inv s" and km: "kmem_inv s xs"
  shows "pipealloc s =
    (case (free_files s, xs) of
       (r # w # _, p # _) \<Rightarrow>
         Ok (Some (r, w)) (s\<lparr>freelist := load32 (mem s) p, pipes := (pipes s)(p := fresh_pipe (pipes s p)),
           ftable := (ftable s)(r := pipe_end False p (ftable s r), w := pipe_end True p (ftable s w))\<rparr>)
     | _ \<Rightarrow> Ok None s)"
  by (rule pipealloc_run [OF assms])

text \<open>
  C24: closing both ends of a new pipe undoes \<^verbatim>\<open>pipealloc\<close>: the page goes back to the head of the free list, and the same entries of
  the file table are free again.
\<close>

theorem pipealloc_fileclose:
  assumes ft: "ftable_inv s" and km: "kmem_inv s xs" and pa: "pipealloc s = Ok (Some (r, w)) t"
  shows "wp (kseq (fileclose r) (fileclose w)) (\<lambda>_ u. kmem_inv u xs \<and> free_files u = free_files s \<and> ftable_inv u) t"
proof -
  obtain fs p ps where f: "free_files s = r # w # fs" "xs = p # ps"
    and t: "t = s\<lparr>freelist := load32 (mem s) p, pipes := (pipes s)(p := fresh_pipe (pipes s p)),
      ftable := (ftable s)(r := pipe_end False p (ftable s r), w := pipe_end True p (ftable s w))\<rparr>"
    using pa pipealloc_run [OF ft km] by (auto split: list.splits)
  have rw: "r \<noteq> w" using free_files_facts(1) [of s] f(1) by auto
  let ?x = "(ftable t r)\<lparr>f_ref := 0, f_type := FD_NONE\<rparr>" and ?y = "(ftable t w)\<lparr>f_ref := 0, f_type := FD_NONE\<rparr>"
  obtain u where u: "fileclose r t = Ok () u" "ftable u = (ftable t)(r := ?x)" "mem u = mem t" "freelist u = freelist t" "kend u = kend t"
    "pipes u p = (fresh_pipe (pipes s p))\<lparr>pi_readopen := False\<rparr>"
    using rw t fileclose_pipe [of t r] pipeclose_run(1) [where p = p and s = "t\<lparr>ftable := (ftable t)(r := ?x)\<rparr>"]
    by (simp add: pipe_end_def fresh_pipe_def wakeup1_def)
  obtain v where v: "fileclose w u = kfree p v" "ftable v = (ftable t)(r := ?x, w := ?y)" "mem v = mem t" "freelist v = freelist t" "kend v = kend t"
    using rw t u fileclose_pipe [of u w] pipeclose_run(2) [where p = p and s = "u\<lparr>ftable := (ftable u)(w := ?y)\<rparr>"]
    by (simp add: pipe_end_def fresh_pipe_def wakeup1_def)
  have kv: "kmem_inv v ps" "page_ok v p" "p \<notin> set ps"
    using kalloc_Cons [OF km [unfolded f(2)]] km f(2) t v(3-5) by (auto simp: kmem_inv_def page_ok_def)
  obtain z where z: "kfree p v = Ok () z" "kmem_inv z xs" using kfree_inv [OF kv] f(2) by (auto elim: wpE)
  have ref: "f_ref (ftable z g) = f_ref (ftable s g)" "f_ref (ftable z g) = 0 \<longrightarrow> g < NFILE \<longrightarrow> f_type (ftable z g) = FD_NONE" for g
    using kfree_ftable [OF z(1)] v(2) t f(1) rw ft free_files_facts(2) [where s = s] by (auto simp: ftable_inv_def pipe_end_def)
  then have "free_files z = free_files s" "ftable_inv z" by (simp_all add: free_files_def ftable_inv_def)
  then show ?thesis using u(1) v(1) z by (auto intro!: wpI simp: kseq_def)
qed

text \<open>A state with no open file and one free page.\<close>

definition demo_files :: file_state where
  "demo_files = demo_file\<lparr>freelist := 0x80100000, kend := 0x80100000, mem := (\<lambda>_. 0)\<rparr>"

lemma demo_files_inv: "ftable_inv demo_files" "kmem_inv demo_files [0x80100000]" "free_files demo_files = [0..<NFILE]"
  by (simp_all add: ftable_inv_def demo_files_def demo_file_def pipe_state.defs free_files_def kmem_inv_def page_ok_def load32_def v2p_def KERNBASE_def PHYSTOP_def
      del: upt_rec_numeral)

lemma upt_NFILE: "[0..<NFILE] = 0 # 1 # [2..<NFILE]"
  by (simp add: upt_rec)

theorem pipealloc_all_or_nothing_witness: "\<exists>t. pipealloc demo_files = Ok (Some (0, 1)) t"
  using pipealloc_all_or_nothing [OF demo_files_inv(1,2)] unfolding demo_files_inv(3) upt_NFILE by simp

theorem pipealloc_fileclose_witness:
  "\<exists>t u. pipealloc demo_files = Ok (Some (0, 1)) t \<and> kseq (fileclose 0) (fileclose 1) t = Ok () u \<and> kmem_inv u [0x80100000] \<and> free_files u = free_files demo_files"
proof -
  obtain t where t: "pipealloc demo_files = Ok (Some (0, 1)) t"
    using pipealloc_run [OF demo_files_inv(1,2)] unfolding demo_files_inv(3) upt_NFILE by simp
  from pipealloc_fileclose [OF demo_files_inv(1,2) t] t show ?thesis by (auto elim!: wpE)
qed

end
