(* ===== verification/Fs_Content.thy ===== *)
theory Fs_Content
  imports Fs_Inode_Props
begin

text \<open>
  The contents of a file: \<^verbatim>\<open>bmap\<close>, \<^verbatim>\<open>readi\<close> and \<^verbatim>\<open>writei\<close> of \<^verbatim>\<open>fs.c\<close> against the abstract reading of a file as a sequence of bytes. A byte
  that lies in no block of the file reads as zero, so giving a file a new, zeroed block does not change its contents.
\<close>

section \<open>The blocks and bytes of a file\<close>

text \<open>Slots 0 to 139 are the data blocks of a file, slot 140 is its indirect block; 0 stands for no block.\<close>

definition faddr :: "(uint \<Rightarrow> bytes) \<Rightarrow> inode \<Rightarrow> nat \<Rightarrow> uint" where
  "faddr v ip n =
     (if n < NDIRECT then i_addrs ip n
      else if n = MAXFILE then i_addrs ip NDIRECT
      else if i_addrs ip NDIRECT = 0 then 0
      else get32 (v (i_addrs ip NDIRECT)) (4 * (n - NDIRECT)))"

definition fbyte :: "(uint \<Rightarrow> bytes) \<Rightarrow> inode \<Rightarrow> nat \<Rightarrow> uchar" where
  "fbyte v ip k = (let a = faddr v ip (k div BSIZE) in if a = 0 then 0 else v a (k mod BSIZE))"

section \<open>Reading\<close>

definition rd_step :: "'a bcache_state_scheme \<Rightarrow> (nat \<rightharpoonup> uint) \<Rightarrow> uint set \<Rightarrow> 'a bcache_state_scheme \<Rightarrow> bool" where
  "rd_step s H D t \<longleftrightarrow> bc t H D \<and> view t = view s \<and> disk t = disk s \<and> wtrace t = wtrace s \<and> bio_frame s t"

lemma rd_step_refl: "bc s H D \<Longrightarrow> rd_step s H D s"
  by (simp add: rd_step_def)

lemma rd_step_trans: "rd_step s H D t \<Longrightarrow> rd_step t H D u \<Longrightarrow> rd_step s H D u"
  by (auto simp: rd_step_def intro: bio_frame_trans)

lemma rd_step_icache: "rd_step s H D t \<Longrightarrow> icache t = icache s" for s :: "'a fs_state_scheme"
  by (auto simp: rd_step_def dest: log_frame_icache [OF log_frame_bio])

lemma rd_step_disksize: "rd_step s H D t \<Longrightarrow> disksize t = disksize s"
  by (auto simp: rd_step_def dest: bio_frame_fields(1))

lemma bc_view_disk:
  assumes bc: "bc s H D" and "sec \<notin> D" "sec \<notin> ran H"
  shows "view s sec = disk s sec"
proof (cases "\<exists>i. caches s sec i \<and> valid (bufs s i)")
  case True
  then obtain i where i: "caches s sec i" "valid (bufs s i)" by blast
  then have "\<not> dirty (bufs s i)" using assms bc_mem [OF bc] by blast
  moreover have "\<not> busy (bufs s i)" using bc_free [OF bc assms(3) i(1)] .
  ultimately have "b_data (bufs s i) = disk s sec"
    using i bc_inv [OF bc] by (auto simp: bcache_inv_def caches_def)
  then show ?thesis using view_cached [OF bc_inv [OF bc] i] by simp
qed (auto intro: view_uncached)

lemma bc_read_release:
  assumes bc: "bc s H D" and new: "sec \<notin> ran H" "sec < disksize s" and room: "card (ran H \<union> D) < NBUF"
  obtains b t where "\<And>R. wp (bread 1 sec) (\<lambda>i t. wp (brelse i) (R (bufs t i)) t) s = R b () t"
    "b_data b = view s sec" "rd_step s H D t"
proof -
  obtain i s1 where r1: "\<And>Q. wp (bread 1 sec) Q s = Q i s1" and Hi: "H i = None" and b1: "bc s1 (H(i \<mapsto> sec)) D"
    and s1: "view s1 = view s" "disk s1 = disk s" "wtrace s1 = wtrace s" "bio_frame s s1"
    by (rule breadE [OF bc new disjI1 [OF room]], rule that)
  have keep: "sec \<in> D \<or> view s1 sec = disk s1 sec" using bc_view_disk [OF bc _ new(1)] s1 by auto
  have own: "(H(i \<mapsto> sec)) i = Some sec" by simp
  obtain s2 where r2: "\<And>Q. wp (brelse i) Q s1 = Q () s2" and b2: "bc s2 ((H(i \<mapsto> sec))(i := None)) D"
    and s2: "view s2 = view s1" "disk s2 = disk s1" "wtrace s2 = wtrace s1" "bio_frame s1 s2"
    by (rule brelseE [OF b1 own keep], rule that)
  have H: "(H(i \<mapsto> sec))(i := None) = H" using Hi by auto
  have "rd_step s H D s2"
    using b2 [unfolded H] s1 s2 bio_frame_trans [OF s1(4) s2(4)] by (simp add: rd_step_def)
  moreover have "b_data (bufs s1 i) = view s sec" using bc_data [OF b1 own] s1 by simp
  ultimately show thesis using that [of "bufs s1 i" s2] r1 r2 by simp
qed

text \<open>The blocks that a read of data block \<open>n\<close> goes through are there.\<close>

definition mapped :: "'a fs_state_scheme \<Rightarrow> (nat \<rightharpoonup> uint) \<Rightarrow> nat \<Rightarrow> nat \<Rightarrow> bool" where
  "mapped s H p n \<longleftrightarrow> n < MAXFILE \<and> (\<forall>m \<in> {n} \<union> (if n < NDIRECT then {} else {MAXFILE}).
     let a = faddr (view s) (icache s p) m in a \<noteq> 0 \<and> a \<notin> ran H \<and> a < disksize s)"

lemma mapped_step: "rd_step s H D t \<Longrightarrow> mapped t H p n = mapped s H p n"
  using rd_step_icache [of s H D t] rd_step_disksize [of s H D t] by (simp add: mapped_def rd_step_def)

lemma of_nat_block: "n < MAXFILE \<Longrightarrow> unat (of_nat n :: uint) = n"
  by (simp add: unat_of_nat)

lemma bmap_mapped:
  assumes bc: "bc s H D" and room: "card (ran H \<union> D) < NBUF" and m: "mapped s H p n" and dev: "i_dev (icache s p) = 1"
  obtains t where "\<And>Q. wp (bmap p (of_nat n)) Q s = Q (faddr (view s) (icache s p) n) t" "rd_step s H D t"
proof (cases "n < NDIRECT")
  case True
  then have n: "(of_nat n :: uint) < 12" "unat (of_nat n :: uint) = n" using of_nat_block [of n] by (simp_all add: word_less_nat_alt)
  have "i_addrs (icache s p) n \<noteq> 0" using m True by (simp add: mapped_def faddr_def Let_def)
  then have "wp (bmap p (of_nat n)) Q s = Q (faddr (view s) (icache s p) n) s" for Q
    using n True by (simp add: bmap_def bmap_slot_def wp_rules faddr_def)
  then show thesis using that rd_step_refl [OF bc] by blast
next
  case False
  let ?ip = "icache s p" and ?k = "n - NDIRECT"
  have lt: "n < MAXFILE" using m by (simp add: mapped_def)
  have "unat (of_nat n :: uint) = n" by (rule of_nat_block [OF lt])
  then have n: "\<not> (of_nat n :: uint) < 12" "unat (of_nat n - 12 :: uint) = ?k"
    using False by (simp_all add: word_less_nat_alt unat_sub word_le_nat_alt)
  then have n': "(of_nat n - 12 :: uint) < 128" using lt False by (simp add: word_less_nat_alt)
  have ind: "i_addrs ?ip 12 \<noteq> 0" "i_addrs ?ip 12 \<notin> ran H" "i_addrs ?ip 12 < disksize s"
    using m False by (simp_all add: mapped_def faddr_def Let_def)
  have a: "get32 (view s (i_addrs ?ip 12)) (4 * ?k) \<noteq> 0" "faddr (view s) ?ip n = get32 (view s (i_addrs ?ip 12)) (4 * ?k)"
    using m False ind(1) by (auto simp: mapped_def faddr_def Let_def)
  obtain b t where r: "\<And>R. wp (bread 1 (i_addrs ?ip 12)) (\<lambda>i t. wp (brelse i) (R (bufs t i)) t) s = R b () t"
    and t: "b_data b = view s (i_addrs ?ip 12)" "rd_step s H D t"
    by (rule bc_read_release [OF bc ind(2,3) room], rule that)
  obtain i s1 where r1: "\<And>Q. wp (bread 1 (i_addrs ?ip 12)) Q s = Q i s1" and d1: "b_data (bufs s1 i) = view s (i_addrs ?ip 12)"
  proof (rule breadE [OF bc ind(2,3) disjI1 [OF room]])
    fix i s1 assume a: "\<And>Q. wp (bread 1 (i_addrs ?ip 12)) Q s = Q i s1" "bc s1 (H(i \<mapsto> i_addrs ?ip 12)) D" "view s1 = view s"
    show thesis using that [OF a(1)] bc_data [OF a(2), of i] a(3) by simp
  qed
  have "wp (bmap p (of_nat n)) Q s = Q (faddr (view s) ?ip n) t" for Q
    using r [of "\<lambda>b _. Q (get32 (b_data b) (4 * ?k))"] n n' ind dev a t(1)
    by (simp add: bmap_def bmap_slot_def wp_rules Let_def r1 d1)
  then show thesis using that t(2) by blast
qed

text \<open>One turn of the loops of \<^verbatim>\<open>readi\<close> and \<^verbatim>\<open>writei\<close> handles the part of the range that lies in the block of \<^verbatim>\<open>off\<close>.\<close>

lemma div_512: "(x div 512 :: uint) = of_nat (unat x div 512)"
proof -
  have "unat (x div 512) = unat x div 512" by (simp add: unat_div)
  then show ?thesis by (metis of_nat_unat [of "x div 512"] unsigned_of_nat ucast_id)
qed

lemma off_arith:
  assumes "unat off + n \<le> MAXFILE * BSIZE" "0 < n"
  shows "(off div 512 :: uint) = of_nat (unat off div 512)" "unat (off + of_nat (chunk off n)) = unat off + chunk off n"
    "unat off div 512 < MAXFILE"
proof -
  have "unat off + chunk off n \<le> MAXFILE * BSIZE" using chunk_le(1) [of off n] assms(1) by simp
  then show "unat (off + of_nat (chunk off n)) = unat off + chunk off n"
    by (simp add: unat_word_ariths unat_of_nat)
  show "(off div 512 :: uint) = of_nat (unat off div 512)" by (rule div_512)
  show "unat off div 512 < MAXFILE" using assms by (simp add: div_less_iff_less_mult)
qed

lemma div_mod_add: "m mod d + k < d \<Longrightarrow> (m + k) div d = m div d \<and> (m + k) mod d = m mod d + k" for m d k :: nat
proof -
  assume a: "m mod d + k < d"
  have "m + k = (m mod d + k) + (m div d) * d" by simp
  moreover have "((m mod d + k) + (m div d) * d) div d = m div d + (m mod d + k) div d" by (rule div_mult_self1) (use a in simp)
  ultimately have 1: "(m + k) div d = m div d" using a by (metis add.right_neutral div_less)
  have "(m + k) mod d = (m mod d + k) mod d" by (simp add: mod_add_left_eq)
  then show ?thesis using 1 a by simp
qed

lemma chunk_block: "k < chunk off n \<Longrightarrow> (unat off + k) div 512 = unat off div 512 \<and> (unat off + k) mod 512 = unat off mod 512 + k"
  by (rule div_mod_add) (use chunk_le(2) [of off n] in linarith)

lemma blit_split:
  assumes "c \<le> n" "\<And>k. k < c \<Longrightarrow> src (j + k) = f k"
  shows "(\<lambda>k. if tot + c \<le> k \<and> k < tot + c + (n - c) then f (c + (k - (tot + c))) else blit dst tot src j c k) =
     (\<lambda>k. if tot \<le> k \<and> k < tot + n then f (k - tot) else dst k)"
proof
  fix k
  show "(if tot + c \<le> k \<and> k < tot + c + (n - c) then f (c + (k - (tot + c))) else blit dst tot src j c k) =
      (if tot \<le> k \<and> k < tot + n then f (k - tot) else dst k)"
  proof (cases "tot \<le> k \<and> k < tot + c")
    case True
    then have "src (j + (k - tot)) = f (k - tot)" by (intro assms(2)) linarith
    then show ?thesis using True assms(1) by (simp add: blit_def)
  next
    case False
    moreover have "tot + c \<le> k \<Longrightarrow> c + (k - (tot + c)) = k - tot" by simp
    ultimately show ?thesis using assms(1) by (auto simp: blit_def)
  qed
qed

lemma readi_from_ok:
  assumes "bc s H D" "card (ran H \<union> D) < NBUF" "i_dev (icache s p) = 1" "unat off + n \<le> MAXFILE * BSIZE"
    and "\<And>k. unat off \<le> k \<Longrightarrow> k < unat off + n \<Longrightarrow> mapped s H p (k div 512)"
  shows "\<exists>t. rd_step s H D t \<and> (\<forall>Q. wp (readi_from p dst tot off n) Q s =
      Q (\<lambda>k. if tot \<le> k \<and> k < tot + n then fbyte (view s) (icache s p) (unat off + (k - tot)) else dst k) t)"
  using assms
proof (induction n arbitrary: s dst tot off rule: less_induct)
  case (less n)
  show ?case
  proof (cases "n = 0")
    case True
    have "(\<lambda>k. if tot \<le> k \<and> k < tot + n then f k else dst k) = dst" for f using True by (intro ext) auto
    then show ?thesis using True rd_step_refl [OF less.prems(1)] by (auto simp: readi_from.simps wp_rules)
  next
    case False
    let ?c = "chunk off n" and ?b = "unat off div 512" and ?ip = "icache s p"
    let ?a = "faddr (view s) ?ip ?b"
    have o: "(off div 512 :: uint) = of_nat ?b" "unat (off + of_nat ?c) = unat off + ?c"
      using off_arith [OF less.prems(4)] False by auto
    have c: "0 < ?c" "?c \<le> n" using False chunk_le(1) by auto
    have m: "mapped s H p ?b" using less.prems(5) [of "unat off"] False by simp
    then have a: "?a \<noteq> 0" "?a \<notin> ran H" "?a < disksize s" by (auto simp: mapped_def Let_def)
    obtain s1 where r1: "\<And>Q. wp (bmap p (of_nat ?b)) Q s = Q ?a s1" and s1: "rd_step s H D s1"
      by (rule bmap_mapped [OF less.prems(1,2) m less.prems(3)], rule that)
    have b1: "bc s1 H D" "view s1 = view s" "?a < disksize s1" "icache s1 = icache s"
      using s1 a(3) rd_step_disksize [OF s1] rd_step_icache [OF s1] by (simp_all add: rd_step_def)
    obtain bf s2 where r2: "\<And>R. wp (bread 1 ?a) (\<lambda>i t. wp (brelse i) (R (bufs t i)) t) s1 = R bf () s2"
      and s2: "b_data bf = view s1 ?a" "rd_step s1 H D s2"
      by (rule bc_read_release [OF b1(1) a(2) b1(3) less.prems(2)], rule that)
    have st: "rd_step s H D s2" by (rule rd_step_trans [OF s1 s2(2)])
    have ic: "icache s2 = icache s" by (rule rd_step_icache [OF st])
    have v2: "view s2 = view s" "bc s2 H D" using st by (simp_all add: rd_step_def)
    let ?dst = "blit dst tot (view s ?a) (unat off mod 512) ?c"
    have lt: "n - ?c < n" using c by simp
    have dev: "i_dev (icache s2 p) = 1" using less.prems(3) ic by simp
    have lim: "unat (off + of_nat ?c) + (n - ?c) \<le> MAXFILE * BSIZE" using o(2) c less.prems(4) by simp
    have map: "mapped s2 H p (k div 512)" if "unat (off + of_nat ?c) \<le> k" "k < unat (off + of_nat ?c) + (n - ?c)" for k
      using less.prems(5) [of k] that o(2) c unfolding mapped_step [OF st] by simp
    obtain t where t: "rd_step s2 H D t" and r3: "\<And>Q. wp (readi_from p ?dst (tot + ?c) (off + of_nat ?c) (n - ?c)) Q s2 =
        Q (\<lambda>k. if tot + ?c \<le> k \<and> k < tot + ?c + (n - ?c) then fbyte (view s) ?ip (unat off + (?c + (k - (tot + ?c)))) else ?dst k) t"
      using less.IH [OF lt v2(2) less.prems(2) dev lim map, of ?dst "tot + ?c", unfolded v2(1) ic o(2) add.assoc [of "unat off"]] by blast
    have "view s ?a (unat off mod 512 + k) = fbyte (view s) ?ip (unat off + k)" if "k < ?c" for k
      using chunk_block [OF that] a(1) by (simp add: fbyte_def)
    then have bs: "(\<lambda>k. if tot + ?c \<le> k \<and> k < tot + ?c + (n - ?c) then fbyte (view s) ?ip (unat off + (?c + (k - (tot + ?c)))) else ?dst k) =
        (\<lambda>k. if tot \<le> k \<and> k < tot + n then fbyte (view s) ?ip (unat off + (k - tot)) else dst k)"
      by (rule blit_split [where f = "\<lambda>k. fbyte (view s) ?ip (unat off + k)", OF c(2)])
    have "wp (readi_from p dst tot off n) Q s = wp (readi_from p ?dst (tot + ?c) (off + of_nat ?c) (n - ?c)) Q s2" for Q
      using r2 [of "\<lambda>b _. wp (readi_from p (blit dst tot (b_data b) (unat off mod 512) ?c) (tot + ?c) (off + of_nat ?c) (n - ?c)) Q"]
        False s2(1) b1
      by (subst readi_from.simps) (simp add: wp_rules o r1 less.prems(3))
    then have "wp (readi_from p dst tot off n) Q s = Q (\<lambda>k. if tot \<le> k \<and> k < tot + n then fbyte (view s) ?ip (unat off + (k - tot)) else dst k) t" for Q
      unfolding r3 bs by simp
    then show ?thesis using rd_step_trans [OF st t] by blast
  qed
qed

lemma sint_unat: "unat x < 2 ^ 31 \<Longrightarrow> sint x = int (unat x)" for x :: uint
proof -
  assume a: "unat x < 2 ^ 31"
  have "int (unat x) < int (2 ^ 31)" using a by (simp only: of_nat_less_iff)
  then have b: "uint x < 2 ^ 31" "- 2147483648 \<le> uint x" using order_trans [OF _ uint_ge_0 [of x], of "- 2147483648"] by simp_all
  have "sint x = signed_take_bit 31 (int (unat x))" by (simp add: sint_uint)
  also have "\<dots> = int (unat x)" by (rule signed_take_bit_int_eq_self) (use b in simp_all)
  finally show ?thesis .
qed

lemma read_count:
  fixes off n size :: uint
  assumes "off \<le> size" "unat off + unat n < 2 ^ 32" "unat size \<le> MAXFILE * BSIZE"
  defines "m \<equiv> (if off + n > size then size - off else n)"
  shows "unat m = min (unat n) (unat size - unat off)" "sint m = int (min (unat n) (unat size - unat off))" "\<not> off + n < off"
proof -
  have a: "unat (off + n) = unat off + unat n" using assms(2) by (simp add: unat_word_ariths)
  then show "\<not> off + n < off" by (simp add: word_less_nat_alt)
  show u: "unat m = min (unat n) (unat size - unat off)"
    using a assms(1) by (auto simp: m_def word_less_nat_alt word_le_nat_alt unat_sub)
  have "unat m < 2 ^ 31" using u assms(3) by simp
  then show "sint m = int (min (unat n) (unat size - unat off))" using sint_unat [of m] u by simp
qed

lemma readi_ok:
  fixes s :: "'a fs_state_scheme"
  assumes "bc s H D" "card (ran H \<union> D) < NBUF" "i_dev (icache s p) = 1" "i_type (icache s p) \<noteq> T_DEV"
    and size: "unat (i_size (icache s p)) \<le> MAXFILE * BSIZE" "off \<le> i_size (icache s p)" "unat off + unat n < 2 ^ 32"
  defines "m \<equiv> min (unat n) (unat (i_size (icache s p)) - unat off)"
  assumes map: "\<And>k. unat off \<le> k \<Longrightarrow> k < unat off + m \<Longrightarrow> mapped s H p (k div 512)"
  obtains t where "\<And>Q. wp (readi dv p dst off n) Q s =
      Q (int m, \<lambda>k. if k < m then fbyte (view s) (icache s p) (unat off + k) else dst k) t" "rd_step s H D t"
proof -
  let ?sz = "i_size (icache s p)"
  let ?n = "if off + n > ?sz then ?sz - off else n"
  note c = read_count [OF size(2,3,1), folded m_def]
  have "unat off + unat ?n \<le> MAXFILE * BSIZE" using size(1,2) unfolding c m_def by (simp add: word_le_nat_alt)
  note rd = readi_from_ok [OF assms(1-3) this, where dst = dst and tot = 0, unfolded c(1) add_0 diff_zero]
  have "\<exists>t. rd_step s H D t \<and> (\<forall>Q. wp (readi_from p dst 0 off m) Q s =
      Q (\<lambda>k. if 0 \<le> k \<and> k < m then fbyte (view s) (icache s p) (unat off + k) else dst k) t)" by (rule rd [OF map])
  then obtain t where t: "rd_step s H D t" and r: "\<And>Q. wp (readi_from p dst 0 off m) Q s =
      Q (\<lambda>k. if 0 \<le> k \<and> k < m then fbyte (view s) (icache s p) (unat off + k) else dst k) t" by blast
  have "wp (readi dv p dst off n) Q s = Q (int m, \<lambda>k. if k < m then fbyte (view s) (icache s p) (unat off + k) else dst k) t" for Q
    using assms(4) linorder_not_less [THEN iffD2, OF size(2)] c r by (simp add: readi_def wp_rules Let_def)
  then show thesis using that t by blast
qed

end
