(* ===== verification/Fs_Write.thy ===== *)
theory Fs_Write
  imports Fs_Content
begin

text \<open>
  Writing to a file, \<^verbatim>\<open>bmap\<close> and \<^verbatim>\<open>writei\<close> of \<^verbatim>\<open>fs.c\<close>, inside a transaction. The invariant \<open>file_ok\<close> says that the blocks of
  the file are distinct blocks in use; \<open>room\<close> bounds the blocks the operation may still log and allocate.
\<close>

section \<open>The invariant of a file\<close>

definition bitmaps :: "superblock \<Rightarrow> uint set" where
  "bitmaps sb = (\<lambda>c. BBLOCK c (sb_ninodes sb)) ` {c. c < sb_size sb}"

definition frees :: "(uint \<Rightarrow> bytes) \<Rightarrow> superblock \<Rightarrow> uint set" where
  "frees v sb = {c. c < sb_size sb \<and> blk_free v sb c}"

definition good :: "'a log_state_scheme \<Rightarrow> (nat \<rightharpoonup> uint) \<Rightarrow> superblock \<Rightarrow> uint \<Rightarrow> bool" where
  "good s H sb a \<longleftrightarrow> a \<in> home s \<and> a \<notin> ran H \<and> a \<noteq> 1 \<and> a \<notin> bitmaps sb \<and> a \<notin> frees (view s) sb"

abbreviation (input) slot :: "'a fs_state_scheme \<Rightarrow> nat \<Rightarrow> nat \<Rightarrow> uint" where
  "slot s p n \<equiv> faddr (view s) (icache s p) n"

abbreviation (input) iblk :: "'a fs_state_scheme \<Rightarrow> nat \<Rightarrow> uint" where
  "iblk s p \<equiv> IBLOCK (i_inum (icache s p))"

definition file_ok :: "'a fs_state_scheme \<Rightarrow> (nat \<rightharpoonup> uint) \<Rightarrow> superblock \<Rightarrow> nat \<Rightarrow> bool" where
  "file_ok s H sb p \<longleftrightarrow> alloc_ok s H sb \<and> i_dev (icache s p) = 1 \<and> 0 \<notin> frees (view s) sb \<and> good s H sb (iblk s p) \<and>
     (\<forall>n \<le> MAXFILE. slot s p n \<noteq> 0 \<longrightarrow> good s H sb (slot s p n) \<and> slot s p n \<noteq> iblk s p) \<and>
     (\<forall>m \<le> MAXFILE. \<forall>n \<le> MAXFILE. slot s p m = slot s p n \<and> slot s p m \<noteq> 0 \<longrightarrow> m = n)"

definition fblks :: "'a fs_state_scheme \<Rightarrow> nat \<Rightarrow> uint set" where
  "fblks s p = slot s p ` {..MAXFILE} - {0}"

definition ind :: "'a fs_state_scheme \<Rightarrow> nat \<Rightarrow> uint set" where
  "ind s p = {slot s p MAXFILE} - {0}"

lemma file_okD:
  assumes "file_ok s H sb p"
  shows "alloc_ok s H sb" "i_dev (icache s p) = 1" "0 \<notin> frees (view s) sb" "good s H sb (iblk s p)"
    "n \<le> MAXFILE \<Longrightarrow> slot s p n \<noteq> 0 \<Longrightarrow> good s H sb (slot s p n)"
    "n \<le> MAXFILE \<Longrightarrow> slot s p n \<noteq> 0 \<Longrightarrow> slot s p n \<noteq> iblk s p"
    "m \<le> MAXFILE \<Longrightarrow> n \<le> MAXFILE \<Longrightarrow> slot s p m = slot s p n \<Longrightarrow> slot s p m \<noteq> 0 \<Longrightarrow> m = n"
  using assms unfolding file_ok_def by blast+

lemma goodD:
  assumes "good s H sb a"
  shows "a \<in> home s" "a \<notin> ran H" "a \<noteq> 1" "a \<notin> bitmaps sb" "a \<notin> frees (view s) sb"
  using assms unfolding good_def by blast+

lemma ind_good: "file_ok s H sb p \<Longrightarrow> a \<in> ind s p \<Longrightarrow> good s H sb a"
  using file_okD(5) [of s H sb p MAXFILE] by (auto simp: ind_def)

lemma ind_fblks: "ind s p \<subseteq> fblks s p"
  by (auto simp: ind_def fblks_def)

lemma alloc_ok_frees:
  assumes "alloc_ok s H sb" "b \<in> frees (view s) sb"
  shows "b \<in> home s" "b \<notin> ran H" "b \<noteq> 1" "b \<notin> bitmaps sb"
  using assms by (auto simp: alloc_ok_def frees_def bitmaps_def)

lemma alloc_ok_bitmaps:
  assumes "alloc_ok s H sb" "x \<in> bitmaps sb"
  shows "x \<noteq> 1" "x \<in> home s" "x \<notin> ran H"
  using assms by (auto simp: alloc_ok_def bitmaps_def)

lemma frees_upd: "a \<notin> bitmaps sb \<Longrightarrow> frees (v(a := d)) sb = frees v sb"
  by (auto simp: frees_def bitmaps_def blk_free_def)

lemma alloc_ok_mono:
  assumes "alloc_ok s H sb" "view t 1 = view s 1" "frees (view t) sb \<subseteq> frees (view s) sb" "home t = home s" "disksize t = disksize s"
  shows "alloc_ok t H sb"
  using assms unfolding alloc_ok_def frees_def by auto

text \<open>The file keeps its invariant when one of its empty slots gets a free block, and when nothing of this changes.\<close>

lemma file_ok_alloc:
  assumes ok: "file_ok s H sb p" and b: "b \<in> frees (view s) sb"
    and fa: "\<And>m. m \<le> MAXFILE \<Longrightarrow> slot t p m = (if m = n then b else slot s p m)"
    and fr: "frees (view t) sb = frees (view s) sb - {b}" and v: "view t 1 = view s 1"
    and g: "home t = home s" "disksize t = disksize s" and ip: "i_dev (icache t p) = i_dev (icache s p)" "i_inum (icache t p) = i_inum (icache s p)"
  shows "file_ok t H sb p"
proof -
  note d = file_okD [OF ok]
  have gd: "good t H sb a" if "good s H sb a" for a using that g fr by (auto simp: good_def)
  have gb: "good t H sb b" using alloc_ok_frees [OF d(1) b] g fr by (simp add: good_def)
  have nb: "iblk s p \<noteq> b" "b \<noteq> 0" using goodD(5) [OF d(4)] d(3) b by auto
  have ns: "slot s p m \<noteq> b" if "m \<le> MAXFILE" for m
  proof (cases "slot s p m = 0")
    case False
    then show ?thesis using goodD(5) [OF d(5) [OF that False]] b by auto
  qed (use nb in simp)
  show ?thesis
    unfolding file_ok_def ip
  proof (intro conjI allI impI)
    show "alloc_ok t H sb" by (rule alloc_ok_mono [OF d(1) v _ g]) (use fr in blast)
    show "good t H sb (iblk s p)" by (rule gd [OF d(4)])
    show "0 \<notin> frees (view t) sb" using d(3) fr by blast
    fix m assume m: "m \<le> MAXFILE"
    show "good t H sb (slot t p m)" "slot t p m \<noteq> iblk s p" if "slot t p m \<noteq> 0"
      using gb gd [OF d(5) [OF m]] d(6) [OF m] fa [OF m] that nb by (auto split: if_splits)
    fix k assume "k \<le> MAXFILE" "slot t p m = slot t p k \<and> slot t p m \<noteq> 0"
    then show "m = k" using fa [OF m] fa [of k] d(7) [OF m, of k] ns [OF m] ns [of k] by (auto split: if_splits)
  qed (use d(2) in simp)
qed

lemma file_ok_same:
  assumes ok: "file_ok s H sb p" and fa: "\<And>m. m \<le> MAXFILE \<Longrightarrow> slot t p m = slot s p m"
    and fr: "frees (view t) sb = frees (view s) sb" and v: "view t 1 = view s 1"
    and g: "home t = home s" "disksize t = disksize s" and ip: "i_dev (icache t p) = i_dev (icache s p)" "i_inum (icache t p) = i_inum (icache s p)"
  shows "file_ok t H sb p"
proof -
  note d = file_okD [OF ok]
  have gd: "good t H sb a = good s H sb a" for a using g fr by (auto simp: good_def)
  have "alloc_ok t H sb" by (rule alloc_ok_mono [OF d(1) v _ g]) (use fr in blast)
  moreover have "m = k" if "m \<le> MAXFILE" "k \<le> MAXFILE" "slot t p m = slot t p k \<and> slot t p m \<noteq> 0" for m k
    using d(7) [OF that(1,2)] that(3) fa [OF that(1)] fa [OF that(2)] by metis
  ultimately show ?thesis using d(2-6) fr unfolding file_ok_def gd ip by (intro conjI allI impI) (auto simp: fa)
qed

section \<open>Steps that work on one file\<close>

lemma log_frame_icache_upd: "log_frame s t \<Longrightarrow> log_frame (s\<lparr>icache := c\<rparr>) (t\<lparr>icache := c\<rparr>)" for s :: "'a fs_state_scheme"
proof -
  assume f: "log_frame s t"
  then obtain q d w b l where t: "t = s\<lparr>l_n := l_n t, l_sector := l_sector t, ptab := q, disk := d, wtrace := w, bufs := b, lru := l\<rparr>"
    and wk: "woken (ptab s) q"
    unfolding log_frame_def by (elim bio_frameE) simp
  have "t\<lparr>icache := c\<rparr> = s\<lparr>l_n := l_n t, l_sector := l_sector t, ptab := q, disk := d, wtrace := w, bufs := b, lru := l\<rparr>\<lparr>icache := c\<rparr>"
    by (rule arg_cong [OF t])
  then show ?thesis unfolding log_frame_def using wk by (intro bio_frameI [where p = q and d = d and w = w and b = b and l = l]) simp_all
qed

lemma tx_step_icache_upd: "tx_step s H t X \<Longrightarrow> tx_step (s\<lparr>icache := c\<rparr>) H (t\<lparr>icache := c\<rparr>) X" for s :: "'a fs_state_scheme"
  by (auto simp: tx_step_def intro: log_frame_icache_upd)

definition fs_step :: "'a fs_state_scheme \<Rightarrow> (nat \<rightharpoonup> uint) \<Rightarrow> nat \<Rightarrow> 'a fs_state_scheme \<Rightarrow> uint set \<Rightarrow> bool" where
  "fs_step s H p t X \<longleftrightarrow> tx_step (s\<lparr>icache := icache t\<rparr>) H t X \<and> (\<forall>q. q \<noteq> p \<longrightarrow> icache t q = icache s q)"

lemma fs_step_trans: "fs_step s H p t X \<Longrightarrow> fs_step t H p u Y \<Longrightarrow> fs_step s H p u (X \<union> Y)"
proof -
  assume a: "fs_step s H p t X" "fs_step t H p u Y"
  then have "tx_step ((s\<lparr>icache := icache t\<rparr>)\<lparr>icache := icache u\<rparr>) H (t\<lparr>icache := icache u\<rparr>) X"
    by (intro tx_step_icache_upd) (simp add: fs_step_def)
  then have "tx_step (s\<lparr>icache := icache u\<rparr>) H u (X \<union> Y)" using tx_step_trans a(2) by (fastforce simp: fs_step_def)
  then show ?thesis using a by (simp add: fs_step_def)
qed

lemma fs_step_tx: "tx_step s H t X \<Longrightarrow> fs_step s H p t X" for s :: "'a fs_state_scheme"
  using tx_step_icache [of s H t X] by (simp add: fs_step_def)

lemma fs_step_weaken: "fs_step s H p t X \<Longrightarrow> X \<subseteq> Y \<Longrightarrow> fs_step s H p t Y"
  using tx_step_weaken by (auto simp: fs_step_def)

lemma fs_stepD:
  assumes "fs_step s H p t X"
  shows "txn t H" "home t = home s" "disksize t = disksize s" "disk t = disk s" "wtrace t = wtrace s" "set (logged t) \<subseteq> set (logged s) \<union> X" "l_size t = l_size s"
    "q \<noteq> p \<Longrightarrow> icache t q = icache s q"
proof -
  have a: "tx_step (s\<lparr>icache := icache t\<rparr>) H t X" using assms by (simp add: fs_step_def)
  then have lf: "log_frame (s\<lparr>icache := icache t\<rparr>) t" by (simp add: tx_step_def)
  show "txn t H" "disk t = disk s" "wtrace t = wtrace s" "set (logged t) \<subseteq> set (logged s) \<union> X" using a by (simp_all add: tx_step_def)
  show "home t = home s" "disksize t = disksize s" using tx_step_home [OF a] tx_step_disksize [OF a] by simp_all
  show "l_size t = l_size s" using log_frame_fields(10) [OF lf] by simp
  show "q \<noteq> p \<Longrightarrow> icache t q = icache s q" using assms by (simp add: fs_step_def)
qed

text \<open>
  \<open>fwd s H sb p A t\<close>: from \<open>s\<close> to \<open>t\<close> only the file \<open>p\<close> was changed, using the data blocks \<open>A\<close> and the indirect block: no
  block of the file has moved, new blocks were free, and blocks of other files are as before.
\<close>

definition fwd :: "'a fs_state_scheme \<Rightarrow> (nat \<rightharpoonup> uint) \<Rightarrow> superblock \<Rightarrow> nat \<Rightarrow> uint set \<Rightarrow> 'a fs_state_scheme \<Rightarrow> bool" where
  "fwd s H sb p A t \<longleftrightarrow> file_ok t H sb p \<and> fs_step s H p t (bitmaps sb \<union> A \<union> ind t p) \<and>
     icache t p = (icache s p)\<lparr>i_addrs := i_addrs (icache t p)\<rparr> \<and> (\<forall>n \<le> MAXFILE. slot s p n \<noteq> 0 \<longrightarrow> slot t p n = slot s p n) \<and>
     frees (view t) sb \<subseteq> frees (view s) sb \<and> frees (view s) sb \<subseteq> frees (view t) sb \<union> A \<union> ind t p \<and> fblks t p \<subseteq> fblks s p \<union> frees (view s) sb \<and>
     (\<forall>x. x \<notin> bitmaps sb \<union> frees (view s) sb \<union> fblks s p \<longrightarrow> view t x = view s x)"

lemma fwdD:
  assumes "fwd s H sb p A t"
  shows "file_ok t H sb p" "fs_step s H p t (bitmaps sb \<union> A \<union> ind t p)" "icache t p = (icache s p)\<lparr>i_addrs := i_addrs (icache t p)\<rparr>"
    "n \<le> MAXFILE \<Longrightarrow> slot s p n \<noteq> 0 \<Longrightarrow> slot t p n = slot s p n" "frees (view t) sb \<subseteq> frees (view s) sb"
    "frees (view s) sb \<subseteq> frees (view t) sb \<union> A \<union> ind t p" "fblks t p \<subseteq> fblks s p \<union> frees (view s) sb"
    "x \<notin> bitmaps sb \<union> frees (view s) sb \<union> fblks s p \<Longrightarrow> view t x = view s x"
  using assms unfolding fwd_def by blast+

lemma fwd_fields:
  assumes "fwd s H sb p A t"
  shows "i_dev (icache t p) = i_dev (icache s p)" "i_inum (icache t p) = i_inum (icache s p)" "i_size (icache t p) = i_size (icache s p)"
    "i_type (icache t p) = i_type (icache s p)"
  by (subst fwdD(3) [OF assms], simp)+

lemma fwd_ind: "fwd s H sb p A t \<Longrightarrow> ind s p \<subseteq> ind t p"
  using fwdD(4) [of s H sb p A t MAXFILE] by (cases "slot s p MAXFILE = 0") (auto simp: ind_def)

lemma fwd_refl: "txn s H \<Longrightarrow> file_ok s H sb p \<Longrightarrow> fwd s H sb p {} s"
  unfolding fwd_def by (auto intro: fs_step_weaken [OF fs_step_tx [OF tx_step_refl]])

lemma fwd_trans:
  assumes a: "fwd s H sb p A t" and b: "fwd t H sb p B u"
  shows "fwd s H sb p (A \<union> B) u"
  unfolding fwd_def
proof (intro conjI allI impI)
  note fa = fwdD [OF a] and fb = fwdD [OF b]
  have i: "ind t p \<subseteq> ind u p" by (rule fwd_ind [OF b])
  show "file_ok u H sb p" by (rule fb(1))
  show "fs_step s H p u (bitmaps sb \<union> (A \<union> B) \<union> ind u p)"
    by (rule fs_step_weaken [OF fs_step_trans [OF fa(2) fb(2)]]) (use i in blast)
  show "icache u p = (icache s p)\<lparr>i_addrs := i_addrs (icache u p)\<rparr>" using fa(3) fb(3) by (metis inode.update_convs(10) inode.surjective inode.ext_inject)
  show "slot u p n = slot s p n" if "n \<le> MAXFILE" "slot s p n \<noteq> 0" for n using fa(4) [OF that] fb(4) [OF that(1)] that(2) by simp
  show "frees (view u) sb \<subseteq> frees (view s) sb" using fa(5) fb(5) by blast
  show "frees (view s) sb \<subseteq> frees (view u) sb \<union> (A \<union> B) \<union> ind u p" using fa(6) fb(6) i by blast
  show "fblks u p \<subseteq> fblks s p \<union> frees (view s) sb" using fa(5,7) fb(7) by blast
  show "view u x = view s x" if "x \<notin> bitmaps sb \<union> frees (view s) sb \<union> fblks s p" for x
    
  proof -
    have "x \<notin> bitmaps sb \<union> frees (view t) sb \<union> fblks t p" using fa(5,7) that by blast
    then show ?thesis using fb(8) fa(8) [OF that] by simp
  qed
qed

text \<open>
  \<open>room s H sb p k\<close>: \<open>k\<close> more blocks can be logged, and one less allocated, besides the bitmap blocks and the indirect block of the file.
\<close>

definition room :: "'a fs_state_scheme \<Rightarrow> (nat \<rightharpoonup> uint) \<Rightarrow> superblock \<Rightarrow> nat \<Rightarrow> nat \<Rightarrow> bool" where
  "room s H sb p k \<longleftrightarrow> (let x = k + (if ind s p = {} then 1 else 0) in
     card (ran H \<union> set (logged s) \<union> bitmaps sb \<union> ind s p) + x \<le> NBUF \<and>
     int (card (set (logged s) \<union> bitmaps sb \<union> ind s p) + x) < l_size s \<and> x \<le> card (frees (view s) sb) + 1)"

lemma finite_sets [simp]: "finite (bitmaps sb)" "finite (frees v sb)" "finite (ind s p)"
  by (auto simp: bitmaps_def frees_def ind_def)

lemma card_ind: "card (ind s p) = (if ind s p = {} then 0 else 1)"
  by (auto simp: ind_def card_Diff_singleton_if)

lemma room_fwd:
  assumes f: "fwd s H sb p A t" and "txn s H" "file_ok s H sb p" and A: "finite A" and r: "room s H sb p (card A + k)"
  shows "room t H sb p k"
proof -
  let ?e = "\<lambda>s. if ind s p = {} then 1 else 0 :: nat"
  have fin: "finite (ran H)" using txn_finite [OF assms(2)] by simp
  note st = fs_stepD [OF fwdD(2) [OF f]]
  obtain I where I: "finite I" "ind t p \<subseteq> ind s p \<union> I" "card I + ?e t \<le> ?e s"
  proof (cases "ind s p = {}")
    case True
    then show thesis using that [of "ind t p"] by (simp add: card_ind)
  next
    case False
    then have "ind t p = ind s p" using fwd_ind [OF f] by (auto simp: ind_def)
    then show thesis using that [of "{}"] False by simp
  qed
  have c: "card B \<le> card C + card A + card I" if "finite C" "B \<subseteq> C \<union> (A \<union> I)" for B C
    using card_grow [OF that(1) _ that(2)] card_Un_le [of A I] A I(1) by simp
  have 1: "card (ran H \<union> set (logged t) \<union> bitmaps sb \<union> ind t p) \<le> card (ran H \<union> set (logged s) \<union> bitmaps sb \<union> ind s p) + card A + card I"
    by (rule c) (use fin in simp, use st(6) I(2) in blast)
  have 2: "card (set (logged t) \<union> bitmaps sb \<union> ind t p) \<le> card (set (logged s) \<union> bitmaps sb \<union> ind s p) + card A + card I"
    by (rule c) (simp, use st(6) I(2) in blast)
  have "x \<notin> frees (view s) sb" if "x \<in> ind s p" for x using goodD(5) [OF ind_good [OF assms(3) that]] .
  then have 3: "card (frees (view s) sb) \<le> card (frees (view t) sb) + card A + card I"
    by (intro c) (simp, use fwdD(6) [OF f] I(2) in blast)
  show ?thesis using r 1 2 3 I(3) st(7) by (simp add: room_def Let_def)
qed

lemma room_mono: "room s H sb p k \<Longrightarrow> j \<le> k \<Longrightarrow> room s H sb p j"
  by (auto simp: room_def Let_def)

lemma room_space:
  assumes "room s H sb p k" "txn s H"
  shows "space s H k"
proof -
  have "finite (ran H)" using txn_finite [OF assms(2)] by simp
  then have "card (ran H \<union> set (logged s)) \<le> card (ran H \<union> set (logged s) \<union> bitmaps sb \<union> ind s p)"
    "card (set (logged s)) \<le> card (set (logged s) \<union> bitmaps sb \<union> ind s p)" by (auto intro!: card_mono)
  then show ?thesis using assms(1) txn_l_n [OF assms(2)] by (auto simp: room_def space_def Let_def)
qed

lemma room_frees: "room s H sb p 2 \<Longrightarrow> frees (view s) sb \<noteq> {}"
  by (auto simp: room_def Let_def)

section \<open>Allocation for a file\<close>

lemma balloc_frees:
  assumes txn: "txn s H" and sp: "space s H 2" and ok: "alloc_ok s H sb" and fr: "frees (view s) sb \<noteq> {}"
  obtains b t where "\<And>Q. wp (balloc 1) Q s = Q b t" "b \<in> frees (view s) sb" "tx_step s H t (bitmaps sb \<union> {b})"
    "frees (view t) sb = frees (view s) sb - {b}" "view t b = (\<lambda>_. 0)" "\<And>x. x \<notin> bitmaps sb \<Longrightarrow> x \<noteq> b \<Longrightarrow> view t x = view s x"
proof -
  obtain c where c: "c < sb_size sb" "blk_free (view s) sb c" using fr by (auto simp: frees_def)
  obtain b t where r: "\<And>Q. wp (balloc 1) Q s = Q b t" and p: "balloc_post s H sb b t"
    by (rule balloc_ok [OF txn sp ok c], rule that)
  let ?bb = "\<lambda>c. BBLOCK c (sb_ninodes sb)"
  have b: "b \<in> frees (view s) sb" "?bb b \<in> bitmaps sb" using p by (auto simp: balloc_post_def frees_def bitmaps_def)
  have v: "view t = (view s)(?bb b := bm_set (view s (?bb b)) (unat (b mod BPB)), b := (\<lambda>_. 0))" using p by (simp add: balloc_post_def)
  have ne: "?bb c \<noteq> b" if "c < sb_size sb" for c using alloc_ok_frees(4) [OF ok b(1)] that by (auto simp: bitmaps_def)
  have "blk_free (view t) sb c \<longleftrightarrow> blk_free (view s) sb c \<and> c \<noteq> b" if "c < sb_size sb" for c
    using ne [OF that] BBLOCK_bit_inj [of c "sb_ninodes sb" b] v by (auto simp: blk_free_def bm_free_set)
  then have "frees (view t) sb = frees (view s) sb - {b}" by (auto simp: frees_def)
  moreover have "tx_step s H t (bitmaps sb \<union> {b})" using p b(2) by (auto simp: balloc_post_def intro: tx_step_weaken)
  moreover have "view t x = view s x" if "x \<notin> bitmaps sb" "x \<noteq> b" for x using v that b(2) by auto
  ultimately show thesis using that [OF r b(1)] v by simp
qed

definition same :: "'a fs_state_scheme \<Rightarrow> nat \<Rightarrow> 'a fs_state_scheme \<Rightarrow> bool" where
  "same s p t \<longleftrightarrow> (\<forall>k < MAXFILE * BSIZE. fbyte (view t) (icache t p) k = fbyte (view s) (icache s p) k)"

lemma same_refl: "same s p s"
  by (simp add: same_def)

lemma same_trans: "same s p t \<Longrightarrow> same t p u \<Longrightarrow> same s p u"
  by (simp add: same_def)

lemma block_lt: "k < MAXFILE * BSIZE \<Longrightarrow> k div BSIZE < MAXFILE"
  by (simp add: div_less_iff_less_mult)

text \<open>An empty slot of the file has got a free block that holds zeros.\<close>

lemma fwd_alloc:
  assumes ok: "file_ok s H sb p" and b: "b \<in> frees (view s) sb" and n: "n \<le> MAXFILE" "slot s p n = 0"
    and fa: "\<And>m. m \<le> MAXFILE \<Longrightarrow> slot t p m = (if m = n then b else slot s p m)"
    and fr: "frees (view t) sb = frees (view s) sb - {b}"
    and v: "\<And>x. x \<notin> bitmaps sb \<Longrightarrow> x \<noteq> b \<Longrightarrow> x \<notin> ind t p \<Longrightarrow> view t x = view s x" "view t b = (\<lambda>_. 0)"
    and st: "fs_step s H p t (bitmaps sb \<union> A \<union> ind t p)" and A: "A = (if n = MAXFILE then {} else {b})"
    and ip: "icache t p = (icache s p)\<lparr>i_addrs := i_addrs (icache t p)\<rparr>"
  shows "fwd s H sb p A t" "same s p t"
proof -
  note d = file_okD [OF ok] and sd = fs_stepD [OF st]
  have ip': "i_dev (icache t p) = i_dev (icache s p)" "i_inum (icache t p) = i_inum (icache s p)" by (subst ip, simp)+
  have bg: "b \<noteq> 0" "b \<noteq> 1" "b \<notin> bitmaps sb" using d(3) b alloc_ok_frees [OF d(1) b] by auto
  have bs: "slot s p m \<noteq> b" if "m \<le> MAXFILE" for m
  proof (cases "slot s p m = 0")
    case False
    then show ?thesis using goodD(5) [OF d(5) [OF that False]] b by auto
  qed (use bg in simp)
  have it: "ind t p \<subseteq> {b} \<union> fblks s p" using fa [of MAXFILE] by (auto simp: ind_def fblks_def)
  have one: "1 \<notin> bitmaps sb" using alloc_ok_bitmaps(1) [OF d(1)] by auto
  have "1 \<notin> fblks s p" using goodD(3) [OF d(5)] by (force simp: fblks_def)
  then have v1: "view t 1 = view s 1" using v(1) [of 1] it bg one by auto
  have okt: "file_ok t H sb p" by (rule file_ok_alloc [OF ok b fa fr v1 sd(2,3) ip'])
  show "same s p t"
    unfolding same_def
  proof (intro allI impI)
    fix k :: nat assume "k < MAXFILE * BSIZE"
    then have m: "k div BSIZE < MAXFILE" "k div BSIZE \<le> MAXFILE" using block_lt [of k] by simp_all
    let ?m = "k div BSIZE"
    show "fbyte (view t) (icache t p) k = fbyte (view s) (icache s p) k"
    proof (cases "slot s p ?m = 0")
      case True
      then show ?thesis using fa [OF m(2)] v(2) by (auto simp: fbyte_def Let_def)
    next
      case False
      then have a: "slot t p ?m = slot s p ?m" "slot t p ?m \<noteq> 0" using fa [OF m(2)] n(2) by auto
      have "slot s p ?m \<notin> ind t p" using file_okD(7) [OF okt m(2), of MAXFILE] a m(1) by (auto simp: ind_def)
      then have "view t (slot s p ?m) = view s (slot s p ?m)" using v(1) bs [OF m(2)] goodD(4) [OF d(5) [OF m(2) False]] by blast
      then show ?thesis using a by (simp add: fbyte_def)
    qed
  qed
  show "fwd s H sb p A t"
    unfolding fwd_def
  proof (intro conjI allI impI)
    show "slot t p m = slot s p m" if "m \<le> MAXFILE" "slot s p m \<noteq> 0" for m using fa [OF that(1)] that(2) n(2) by auto
    have "b \<in> A \<union> ind t p" using A fa [of MAXFILE] bg(1) by (auto simp: ind_def)
    then show "frees (view s) sb \<subseteq> frees (view t) sb \<union> A \<union> ind t p" using fr by blast
    show "fblks t p \<subseteq> fblks s p \<union> frees (view s) sb" using fa b by (auto simp: fblks_def)
    show "view t x = view s x" if "x \<notin> bitmaps sb \<union> frees (view s) sb \<union> fblks s p" for x using that b it by (intro v(1)) auto
  qed (use okt st ip fr in auto)
qed

lemma fwd_write:
  assumes ok: "file_ok s H sb p" and n: "n < MAXFILE" "slot s p n \<noteq> 0" and st: "tx_step s H t {slot s p n}"
    and v: "view t = (view s)(slot s p n := d)"
  shows "fwd s H sb p {slot s p n} t"
    "k < MAXFILE * BSIZE \<Longrightarrow> fbyte (view t) (icache t p) k = (if k div BSIZE = n then d (k mod BSIZE) else fbyte (view s) (icache s p) k)"
proof -
  note d = file_okD [OF ok] and ic = tx_step_icache [OF st]
  have g: "good s H sb (slot s p n)" using d(5) n by simp
  have ne: "slot s p m \<noteq> slot s p n" if "m \<le> MAXFILE" "m \<noteq> n" for m using d(7) [of n m] that n by auto
  have fa: "slot t p m = slot s p m" if "m \<le> MAXFILE" for m
    using ne [of MAXFILE] n v ic by (auto simp: faddr_def)
  have fr: "frees (view t) sb = frees (view s) sb" using v frees_upd goodD(4) [OF g] by simp
  have okt: "file_ok t H sb p"
    by (rule file_ok_same [OF ok fa fr _ tx_step_home [OF st] tx_step_disksize [OF st]]) (use v goodD(3) [OF g] ic in auto)
  show "fwd s H sb p {slot s p n} t"
    unfolding fwd_def
  proof (intro conjI allI impI)
    show "fs_step s H p t (bitmaps sb \<union> {slot s p n} \<union> ind t p)" by (rule fs_step_weaken [OF fs_step_tx [OF st]]) blast
    show "fblks t p \<subseteq> fblks s p \<union> frees (view s) sb" using fa by (auto simp: fblks_def)
    show "view t x = view s x" if "x \<notin> bitmaps sb \<union> frees (view s) sb \<union> fblks s p" for x
      using that v n by (auto simp: fblks_def)
  qed (use okt fr ic fa in auto)
  show "fbyte (view t) (icache t p) k = (if k div BSIZE = n then d (k mod BSIZE) else fbyte (view s) (icache s p) k)"
    if "k < MAXFILE * BSIZE"
  proof -
    have "k div BSIZE \<le> MAXFILE" using block_lt [OF that] by simp
    then show ?thesis using fa [of "k div BSIZE"] ne [of "k div BSIZE"] n v by (auto simp: fbyte_def Let_def)
  qed
qed

lemma fwd_mono: "fwd s H sb p A t \<Longrightarrow> A \<subseteq> B \<Longrightarrow> fwd s H sb p B t"
  unfolding fwd_def by (blast intro: fs_step_weaken)

lemma bmap_slot_ok:
  fixes s :: "'a fs_state_scheme"
  assumes txn: "txn s H" and ok: "file_ok s H sb p" and rm: "room s H sb p 2" and k: "k \<le> NDIRECT"
  defines "n \<equiv> if k = NDIRECT then MAXFILE else k"
  obtains a t where "\<And>Q. wp (bmap_slot p k) Q s = Q a t" "fwd s H sb p (if n = MAXFILE then {} else {a}) t" "same s p t" "slot t p n = a" "a \<noteq> 0"
proof (cases "i_addrs (icache s p) k = 0")
  case False
  have "wp (bmap_slot p k) Q s = Q (i_addrs (icache s p) k) s" for Q using False by (simp add: bmap_slot_def wp_rules)
  moreover have "fwd s H sb p X s" for X by (rule fwd_mono [OF fwd_refl [OF txn ok]]) simp
  moreover have "slot s p n = i_addrs (icache s p) k" using k by (auto simp: n_def faddr_def)
  ultimately show thesis using that same_refl False by blast
next
  case True
  note d = file_okD [OF ok]
  have n: "n \<le> MAXFILE" "slot s p n = 0" using True k by (auto simp: n_def faddr_def)
  obtain b s1 where r: "\<And>Q. wp (balloc 1) Q s = Q b s1" and b: "b \<in> frees (view s) sb" and st: "tx_step s H s1 (bitmaps sb \<union> {b})"
    and v: "frees (view s1) sb = frees (view s) sb - {b}" "view s1 b = (\<lambda>_. 0)" "\<And>x. x \<notin> bitmaps sb \<Longrightarrow> x \<noteq> b \<Longrightarrow> view s1 x = view s x"
    by (rule balloc_frees [OF txn room_space [OF rm txn] d(1) room_frees [OF rm]], rule that)
  have ic: "icache s1 = icache s" by (rule tx_step_icache [OF st])
  let ?ip = "(icache s p)\<lparr>i_addrs := (i_addrs (icache s p))(k := b)\<rparr>"
  define t where "t = s1\<lparr>icache := (icache s)(p := ?ip)\<rparr>"
  have t: "view t = view s1" "icache t = (icache s)(p := ?ip)" by (simp_all add: t_def)
  have b0: "b \<noteq> 0" using d(3) b by auto
  have iv: "i_addrs (icache s p) 12 \<noteq> 0 \<Longrightarrow> view s1 (i_addrs (icache s p) 12) = view s (i_addrs (icache s p) 12)"
    using goodD(4,5) [OF d(5) [of MAXFILE]] v(3) b by (auto simp: faddr_def)
  have fa: "slot t p m = (if m = n then b else slot s p m)" if "m \<le> MAXFILE" for m
  proof (cases "k = NDIRECT")
    case True
    then show ?thesis using that v(2) b0 n(2) by (auto simp: t faddr_def n_def get32_def)
  next
    case False
    then show ?thesis using that iv k by (auto simp: t faddr_def n_def)
  qed
  have "fs_step s H p t (bitmaps sb \<union> {b})"
    using tx_step_icache_upd [OF st, of "icache t"] t(2) by (auto simp: fs_step_def t_def ic)
  then have st': "fs_step s H p t (bitmaps sb \<union> (if n = MAXFILE then {} else {b}) \<union> ind t p)"
    by (rule fs_step_weaken) (use fa [of MAXFILE] b0 in \<open>auto simp: ind_def\<close>)
  note fw = fwd_alloc [OF ok b n fa _ _ _ st' refl]
  have fw': "fwd s H sb p (if n = MAXFILE then {} else {b}) t" "same s p t" by (rule fw; use v t in auto)+
  have "wp (bmap_slot p k) Q s = Q b t" for Q
    using True d(2) by (simp add: bmap_slot_def set_addr_def wp_rules r ic t_def)
  then show thesis using that fw' fa [OF n(1)] b0 by simp
qed

lemma fwd_read:
  fixes s :: "'a fs_state_scheme"
  assumes ok: "file_ok s H sb p" and st: "tx_step s H t {}" and v: "view t = view s"
  shows "fwd s H sb p {} t" "same s p t"
proof -
  have ic: "icache t = icache s" by (rule tx_step_icache [OF st])
  have "file_ok t H sb p"
    by (rule file_ok_same [OF ok _ _ _ tx_step_home [OF st] tx_step_disksize [OF st]]) (use v ic in simp_all)
  moreover have "fs_step s H p t (bitmaps sb \<union> {} \<union> ind t p)" by (rule fs_step_weaken [OF fs_step_tx [OF st]]) simp
  ultimately show "fwd s H sb p {} t" using v ic by (simp add: fwd_def fblks_def)
  show "same s p t" using v ic by (simp add: same_def)
qed

text \<open>The new entry in the indirect block: the block is held while \<^verbatim>\<open>balloc\<close> runs.\<close>

lemma hold_ind:
  fixes s :: "'a fs_state_scheme"
  assumes txn: "txn s H" and ok: "file_ok s H sb p" and rm: "room s H sb p 2" and a: "ind s p = {a}"
  obtains i t where "\<And>Q. wp (bread 1 a) Q s = Q i t" "H i = None" "txn t (H(i \<mapsto> a))" "view t = view s" "disk t = disk s" "wtrace t = wtrace s"
    "log_frame s t" "logged t = logged s" "space t (H(i \<mapsto> a)) 2" "alloc_ok t (H(i \<mapsto> a)) sb"
proof -
  have g: "good s H sb a" by (rule ind_good [OF ok]) (use a in simp)
  have sp1: "space s H 1" by (rule room_space [OF room_mono [OF rm] txn]) simp
  obtain i t where r1: "\<And>Q. wp (bread 1 a) Q s = Q i t" and Hi: "H i = None" and tt: "txn t (H(i \<mapsto> a))"
    and t: "view t = view s" "disk t = disk s" "wtrace t = wtrace s" "bio_frame s t" "logged t = logged s"
    by (rule txn_bread [OF txn goodD(2) [OF g] home_rng [OF goodD(1) [OF g]] sp1], rule that)
  let ?H = "H(i \<mapsto> a)"
  have ran: "ran ?H = insert a (ran H)" using Hi by simp
  note lf = log_frame_bio [OF t(4)]
  have f: "home t = home s" "disksize t = disksize s" "l_size t = l_size s" using log_frame_fields [OF lf] by (simp_all add: home_def)
  have "alloc_ok t ?H sb" using file_okD(1) [OF ok] g f t(1) unfolding alloc_ok_def ran good_def bitmaps_def frees_def by auto
  moreover have "card (insert a (ran H) \<union> set (logged s)) \<le> card (ran H \<union> set (logged s) \<union> bitmaps sb \<union> ind s p)"
    by (rule card_mono) (use txn_finite [OF txn] a in auto)
  moreover have "card (set (logged s)) \<le> card (set (logged s) \<union> bitmaps sb \<union> ind s p)" by (rule card_mono) auto
  ultimately show thesis
    using that [OF r1 Hi tt t(1-3) lf t(5)] rm a txn_l_n [OF tt] f t(5) unfolding space_def ran room_def Let_def by auto
qed

lemma get32_entry: "NDIRECT \<le> n \<Longrightarrow> NDIRECT \<le> m \<Longrightarrow> m \<noteq> n \<Longrightarrow> get32 (put32 d (4 * (n - NDIRECT)) b) (4 * (m - NDIRECT)) = get32 d (4 * (m - NDIRECT))"
  by (rule get32_put32_other) arith

lemma bmap_entry_ok:
  fixes s :: "'a fs_state_scheme"
  assumes txn: "txn s H" and ok: "file_ok s H sb p" and rm: "room s H sb p 2" and n: "NDIRECT \<le> n" "n < MAXFILE"
  defines "a \<equiv> slot s p MAXFILE"
  assumes a: "a \<noteq> 0" and e: "slot s p n = 0"
  obtains b t where "\<And>R. wp (bread 1 a) (\<lambda>i s2. wp (balloc 1) (\<lambda>b s3.
      wp (set_buf i ((bufs s3 i)\<lparr>b_data := put32 (b_data (bufs s3 i)) (4 * (n - NDIRECT)) b\<rparr>)) (\<lambda>_. wp (log_write i) (\<lambda>_. wp (brelse i) (R b))) s3) s2) s = R b () t"
    "fwd s H sb p {b} t" "same s p t" "slot t p n = b" "b \<noteq> 0"
proof -
  note d = file_okD [OF ok]
  let ?e = "4 * (n - NDIRECT)"
  have ia: "i_addrs (icache s p) 12 = a" by (simp add: a_def faddr_def)
  have ai: "ind s p = {a}" using a by (simp add: ind_def a_def)
  have g: "good s H sb a" by (rule ind_good [OF ok]) (use ai in simp)
  obtain i s2 where r1: "\<And>Q. wp (bread 1 a) Q s = Q i s2" and Hi: "H i = None" and t2: "txn s2 (H(i \<mapsto> a))"
    and s2: "view s2 = view s" "disk s2 = disk s" "wtrace s2 = wtrace s" "log_frame s s2" "logged s2 = logged s"
    and sp2: "space s2 (H(i \<mapsto> a)) 2" and ok2: "alloc_ok s2 (H(i \<mapsto> a)) sb"
    by (rule hold_ind [OF txn ok rm ai], rule that)
  let ?H = "H(i \<mapsto> a)"
  have f2: "home s2 = home s" "disksize s2 = disksize s" "l_size s2 = l_size s" using log_frame_fields [OF s2(4)] by (simp_all add: home_def)
  have fr2: "frees (view s2) sb \<noteq> {}" using room_frees [OF rm] s2(1) by simp
  obtain b s3 where r2: "\<And>Q. wp (balloc 1) Q s2 = Q b s3" and b: "b \<in> frees (view s2) sb" and st3: "tx_step s2 ?H s3 (bitmaps sb \<union> {b})"
    and v3: "frees (view s3) sb = frees (view s2) sb - {b}" "view s3 b = (\<lambda>_. 0)" "\<And>x. x \<notin> bitmaps sb \<Longrightarrow> x \<noteq> b \<Longrightarrow> view s3 x = view s2 x"
    by (rule balloc_frees [OF t2 sp2 ok2 fr2], rule that)
  have b': "b \<in> frees (view s) sb" "b \<noteq> 0" "b \<noteq> a" using b s2(1) d(3) goodD(5) [OF g] by auto
  have t3: "txn s3 ?H" by (rule tx_step_txn [OF st3])
  have f3: "home s3 = home s" "disksize s3 = disksize s" "l_size s3 = l_size s" "log_frame s2 s3" "set (logged s3) \<subseteq> set (logged s) \<union> (bitmaps sb \<union> {b})"
    using st3 f2 s2(5) tx_step_home [OF st3] tx_step_disksize [OF st3] log_frame_fields(10) [of s2 s3] by (auto simp: tx_step_def)
  have va: "view s3 a = view s a" using v3(3) [of a] goodD(4) [OF g] b'(3) s2(1) by simp
  have da: "b_data (bufs s3 i) = view s a" using bc_data [of s3 ?H "set (logged s3)" i a] t3 va by (simp add: txn_def)
  have "card (set (logged s3)) \<le> card (set (logged s) \<union> bitmaps sb \<union> ind s p) + card {b}" by (rule card_grow) (use f3(5) in auto)
  then have ln: "l_n s3 < l_size s3 - 1" using rm txn_l_n [OF t3] f3(3) by (auto simp: room_def Let_def split: if_splits)
  have h3: "a \<in> home s3" using goodD(1) [OF g] f3(1) by simp
  let ?d = "put32 (view s a) ?e b"
  obtain t where r3: "\<And>R. wp (set_buf i ((bufs s3 i)\<lparr>b_data := ?d\<rparr>)) (\<lambda>_. wp (log_write i) (\<lambda>_. wp (brelse i) R)) s3 = R () t"
    and t: "txn t H" "view t = (view s3)(a := ?d)" "disk t = disk s3" "wtrace t = wtrace s3" "log_frame s3 t"
      "set (logged t) = insert a (set (logged s3))"
    by (rule txn_write_release [OF t3 Hi h3 ln, of ?d], rule that)
  have st: "tx_step s H t (bitmaps sb \<union> {b} \<union> {a})"
    using t st3 f3(5) s2 log_frame_trans [OF s2(4) log_frame_trans [OF f3(4) t(5)]] by (auto simp: tx_step_def)
  have ic: "icache t = icache s" by (rule tx_step_icache [OF st])
  have fa: "slot t p m = (if m = n then b else slot s p m)" if "m \<le> MAXFILE" for m
    using that n a by (auto simp: faddr_def ic ia t(2) get32_entry)
  have "ind t p = {a}" using fa [of MAXFILE] n ai by (auto simp: ind_def)
  then have st': "fs_step s H p t (bitmaps sb \<union> {b} \<union> ind t p)" using fs_step_tx [OF st] by simp
  have fr: "frees (view t) sb = frees (view s) sb - {b}" using t(2) v3(1) s2(1) frees_upd goodD(4) [OF g] by simp
  have vx: "view t x = view s x" if "x \<notin> bitmaps sb" "x \<noteq> b" "x \<notin> ind t p" for x
    using t(2) v3(3) [OF that(1,2)] that(3) \<open>ind t p = {a}\<close> s2(1) by simp
  have vb: "view t b = (\<lambda>_. 0)" using t(2) v3(2) b'(3) by simp
  have n': "n \<le> MAXFILE" "{b} = (if n = MAXFILE then {} else {b})" using n by auto
  note fw = fwd_alloc [OF ok b'(1) n'(1) e fa fr vx vb st' n'(2)]
  show thesis
    by (rule that [of b t]) (use r1 r2 r3 da fw ic fa [OF n'(1)] b' in simp_all)
qed

lemma bmap_ok:
  fixes s :: "'a fs_state_scheme"
  assumes txn: "txn s H" and ok: "file_ok s H sb p" and rm: "room s H sb p 2" and n: "n < MAXFILE"
  obtains a t where "\<And>Q. wp (bmap p (of_nat n)) Q s = Q a t" "fwd s H sb p {a} t" "same s p t" "slot t p n = a" "a \<noteq> 0"
proof (cases "n < NDIRECT")
  case True
  then have w: "(of_nat n :: uint) < 12" "unat (of_nat n :: uint) = n" using of_nat_block [of n] by (simp_all add: word_less_nat_alt)
  obtain a t where r: "\<And>Q. wp (bmap_slot p n) Q s = Q a t" and t: "fwd s H sb p {a} t" "same s p t" "slot t p n = a" "a \<noteq> 0"
    by (rule bmap_slot_ok [OF txn ok rm, of n]) (use True in \<open>auto intro: that\<close>)
  have "wp (bmap p (of_nat n)) Q s = Q a t" for Q using r w by (simp add: bmap_def)
  then show thesis using that t by blast
next
  case False
  let ?k = "n - NDIRECT"
  have "unat (of_nat n :: uint) = n" by (rule of_nat_block [OF n])
  then have w: "\<not> (of_nat n :: uint) < 12" "unat (of_nat n - 12 :: uint) = ?k"
    using False by (simp_all add: word_less_nat_alt unat_sub word_le_nat_alt)
  then have w': "(of_nat n - 12 :: uint) < 128" using n False by (simp add: word_less_nat_alt)
  obtain a s1 where r1: "\<And>Q. wp (bmap_slot p NDIRECT) Q s = Q a s1" and s1: "fwd s H sb p {} s1" "same s p s1" "slot s1 p MAXFILE = a" "a \<noteq> 0"
    by (rule bmap_slot_ok [OF txn ok rm, of NDIRECT]) (auto intro: that)
  note ok1 = fwdD(1) [OF s1(1)] and t1 = fs_stepD(1) [OF fwdD(2) [OF s1(1)]]
  have rm1: "room s1 H sb p 2" using room_fwd [OF s1(1) txn ok, of 2] rm by (simp add: numeral_2_eq_2)
  have dev: "i_dev (icache s1 p) = 1" by (rule file_okD(2) [OF ok1])
  have ia: "i_addrs (icache s1 p) 12 = a" using s1(3) by (simp add: faddr_def)
  have e: "slot s1 p n = get32 (view s1 a) (4 * ?k)" using False n s1(4) by (simp add: faddr_def ia)
  have g: "good s1 H sb a" using file_okD(5) [OF ok1, of MAXFILE] s1 by simp
  have sp: "space s1 H 1" by (rule room_space [OF room_mono [OF rm1] t1]) simp
  obtain i s2 where r2: "\<And>Q. wp (bread 1 a) Q s1 = Q i s2" and d2: "b_data (bufs s2 i) = view s1 a"
    by (rule txn_bread [OF t1 goodD(2) [OF g] home_rng [OF goodD(1) [OF g]] sp], rule that)
  have f2: "fwd s H sb p X u" "same s p u" if "fwd s1 H sb p X u" "same s1 p u" for X u
    using fwd_trans [OF s1(1) that(1)] same_trans [OF s1(2) that(2)] by simp_all
  show thesis
  proof (cases "slot s1 p n = 0")
    case True
    obtain b t where r3: "\<And>R. wp (bread 1 a) (\<lambda>i s2. wp (balloc 1) (\<lambda>b s3.
        wp (set_buf i ((bufs s3 i)\<lparr>b_data := put32 (b_data (bufs s3 i)) (4 * ?k) b\<rparr>)) (\<lambda>_. wp (log_write i) (\<lambda>_. wp (brelse i) (R b))) s3) s2) s1 = R b () t"
      and t: "fwd s1 H sb p {b} t" "same s1 p t" "slot t p n = b" "b \<noteq> 0"
      by (rule bmap_entry_ok [OF t1 ok1 rm1 _ n, unfolded s1(3), OF _ s1(4) True]) (use False in simp, rule that)
    have "wp (bmap p (of_nat n)) Q s = Q b t" for Q
      using r3 [of "\<lambda>b _. Q b"] w w' True e dev by (simp add: bmap_def wp_rules Let_def r1 r2 d2)
    then show thesis using that f2 [OF t(1,2)] t(3,4) by blast
  next
    case nz: False
    obtain c t where r3: "\<And>R. wp (bread 1 a) (\<lambda>i t. wp (brelse i) (R (bufs t i)) t) s1 = R c () t"
      and c: "b_data c = view s1 a" and t: "tx_step s1 H t {}" "view t = view s1"
      by (rule txn_read_release [OF t1 goodD(2) [OF g] home_rng [OF goodD(1) [OF g]] sp], rule that)
    have fw: "fwd s1 H sb p {} t" "same s1 p t" by (rule fwd_read [OF ok1 t])+
    have "wp (bmap p (of_nat n)) Q s = Q (slot s1 p n) t" for Q
      using r3 [of "\<lambda>c _. Q (get32 (b_data c) (4 * ?k))"] w w' nz e dev c by (simp add: bmap_def wp_rules Let_def r1 r2 d2)
    moreover have "slot t p n = slot s1 p n" using t(2) tx_step_icache [OF t(1)] by simp
    ultimately show thesis using that f2 [OF fwd_mono [OF fw(1), of "{slot s1 p n}"] fw(2)] nz by simp
  qed
qed

section \<open>The writing loop\<close>

text \<open>The number of blocks that a range of bytes touches.\<close>

definition nblocks :: "nat \<Rightarrow> nat \<Rightarrow> nat" where
  "nblocks off n = (if n = 0 then 0 else Suc ((off + n - 1) div BSIZE - off div BSIZE))"

lemma nblocks_step:
  assumes "0 < n"
  shows "nblocks (unat off) n = Suc (nblocks (unat off + chunk off n) (n - chunk off n))"
proof (cases "chunk off n = n")
  case True
  have "(unat off + (n - 1)) div 512 = unat off div 512" using chunk_block [of "n - 1" off n] assms True by simp
  then show ?thesis using assms True by (simp add: nblocks_def)
next
  case False
  then have c: "chunk off n = 512 - unat off mod 512" "chunk off n < n" by (auto simp: chunk_def min_def split: if_splits)
  have "unat off + chunk off n = 512 * Suc (unat off div 512)" 
    using c(1) mod_mult_div_eq [of "unat off" 512] mod_less_divisor [of 512 "unat off", OF zero_less_numeral] unfolding mult_Suc_right by linarith
  then have q: "(unat off + chunk off n) div 512 = Suc (unat off div 512)" by simp
  have "(unat off + chunk off n) div 512 \<le> (unat off + n - 1) div 512" by (rule div_le_mono) (use c(2) in linarith)
  moreover have "unat off + chunk off n + (n - chunk off n) - 1 = unat off + n - 1" using c(2) by simp
  ultimately show ?thesis using c(2) assms unfolding nblocks_def q by (simp add: Suc_diff_Suc Suc_le_eq)
qed

lemma in_chunk:
  assumes "0 < n"
  shows "unat off \<le> k \<and> k < unat off + chunk off n \<longleftrightarrow>
     k div 512 = unat off div 512 \<and> unat off mod 512 \<le> k mod 512 \<and> k mod 512 < unat off mod 512 + chunk off n" (is "?l \<longleftrightarrow> ?r")
proof
  assume ?l
  then have l: "unat off \<le> k" "k - unat off < chunk off n" by auto
  then show ?r using chunk_block [OF l(2)] by auto
next
  assume r: ?r
  have "k = 512 * (unat off div 512) + k mod 512" using r mod_mult_div_eq [of k 512] by linarith
  moreover have "unat off = 512 * (unat off div 512) + unat off mod 512" by simp
  ultimately show ?l using r by linarith
qed

lemma blit_chunk:
  assumes "0 < n"
  shows "(if k div 512 = unat off div 512 then blit (\<lambda>j. d j) (unat off mod 512) src tot (chunk off n) (k mod 512) else x) =
     (if unat off \<le> k \<and> k < unat off + chunk off n then src (tot + (k - unat off)) else if k div 512 = unat off div 512 then d (k mod 512) else x)"
proof (cases "k div 512 = unat off div 512")
  case True
  have "k = 512 * (unat off div 512) + k mod 512" using True mod_mult_div_eq [of k 512] by linarith
  moreover have "unat off = 512 * (unat off div 512) + unat off mod 512" by simp
  ultimately have "k - unat off = k mod 512 - unat off mod 512" by linarith
  then show ?thesis unfolding in_chunk [OF assms] using True by (simp add: blit_def)
qed (simp add: in_chunk [OF assms])

lemma writei_from_ok:
  assumes "txn s H" "file_ok s H sb p" "unat off + n \<le> MAXFILE * BSIZE" "room s H sb p (nblocks (unat off) n + 1)"
  shows "\<exists>A t. finite A \<and> card A \<le> nblocks (unat off) n \<and> fwd s H sb p A t \<and>
     (\<forall>k < MAXFILE * BSIZE. fbyte (view t) (icache t p) k =
        (if unat off \<le> k \<and> k < unat off + n then src (tot + (k - unat off)) else fbyte (view s) (icache s p) k)) \<and>
     (\<forall>k. unat off \<le> k \<and> k < unat off + n \<longrightarrow> slot t p (k div 512) \<noteq> 0) \<and>
     (\<forall>Q. wp (writei_from p src tot off n) Q s = Q (off + of_nat n) t)"
  using assms
proof (induction n arbitrary: s tot off rule: less_induct)
  case (less n)
  show ?case
  proof (cases "n = 0")
    case True
    show ?thesis
      by (rule exI [of _ "{}"], rule exI [of _ s])
        (use True fwd_refl [OF less.prems(1,2)] in \<open>auto simp: writei_from.simps wp_rules\<close>)
  next
    case False
    let ?c = "chunk off n" and ?b = "unat off div 512" and ?off = "off + of_nat (chunk off n)"
    have o: "(off div 512 :: uint) = of_nat ?b" "unat ?off = unat off + ?c" "?b < MAXFILE"
      using off_arith [OF less.prems(3)] False by auto
    have c: "0 < ?c" "?c \<le> n" "unat off mod 512 + ?c \<le> 512" using False chunk_le by auto
    have nb: "nblocks (unat off) n = Suc (nblocks (unat off + ?c) (n - ?c))" by (rule nblocks_step) (use False in simp)
    have rm: "room s H sb p 2" by (rule room_mono [OF less.prems(4)]) (use nb in simp)
    obtain a s1 where r1: "\<And>Q. wp (bmap p (of_nat ?b)) Q s = Q a s1" and s1: "fwd s H sb p {a} s1" "same s p s1" "slot s1 p ?b = a" "a \<noteq> 0"
      by (rule bmap_ok [OF less.prems(1,2) rm o(3)], rule that)
    note ok1 = fwdD(1) [OF s1(1)] and t1 = fs_stepD(1) [OF fwdD(2) [OF s1(1)]]
    have rm1: "room s1 H sb p (nblocks (unat off + ?c) (n - ?c) + 1)"
      by (rule room_fwd [OF s1(1) less.prems(1,2)]) (use less.prems(4) nb in simp_all)
    have sp: "space s1 H 1" by (rule room_space [OF room_mono [OF rm1] t1]) simp
    have g: "good s1 H sb a" using file_okD(5) [OF ok1, of ?b] s1 o(3) by simp
    let ?f = "\<lambda>d. blit d (unat off mod 512) src tot ?c"
    obtain s2 where r2: "\<And>R. wp (bread 1 a) (\<lambda>i t. wp (set_buf i ((bufs t i)\<lparr>b_data := ?f (b_data (bufs t i))\<rparr>))
        (\<lambda>_. wp (log_write i) (\<lambda>_. wp (brelse i) R)) t) s1 = R () s2"
      and s2: "tx_step s1 H s2 {a}" "view s2 = (view s1)(a := ?f (view s1 a))"
      by (rule txn_update [OF t1 goodD(2,1) [OF g] sp, of ?f], rule that)
    have w: "fwd s1 H sb p {a} s2" "k < MAXFILE * BSIZE \<Longrightarrow> fbyte (view s2) (icache s2 p) k =
        (if k div BSIZE = ?b then ?f (view s1 a) (k mod BSIZE) else fbyte (view s1) (icache s1 p) k)" for k
      using fwd_write [of s1 H sb p ?b, unfolded s1(3), OF ok1 o(3) s1(4) s2] by auto
    have f2: "fwd s H sb p {a} s2" using fwd_trans [OF s1(1) w(1)] by simp
    note ok2 = fwdD(1) [OF f2] and t2 = fs_stepD(1) [OF fwdD(2) [OF f2]]
    have rm2: "room s2 H sb p (nblocks (unat ?off) (n - ?c) + 1)"
      by (rule room_fwd [OF f2 less.prems(1,2)]) (use less.prems(4) nb o(2) in simp_all)
    have lim: "unat ?off + (n - ?c) \<le> MAXFILE * BSIZE" using o(2) c less.prems(3) by simp
    have byte: "fbyte (view s2) (icache s2 p) k =
        (if unat off \<le> k \<and> k < unat off + ?c then src (tot + (k - unat off)) else fbyte (view s) (icache s p) k)" if k: "k < MAXFILE * BSIZE" for k
    proof -
      have "fbyte (view s) (icache s p) k = fbyte (view s1) (icache s1 p) k" using s1(2) k by (simp add: same_def)
      also have "\<dots> = (if k div 512 = ?b then view s1 a (k mod 512) else fbyte (view s1) (icache s1 p) k)"
        using s1(3,4) by (simp add: fbyte_def)
      finally have e: "fbyte (view s) (icache s p) k = (if k div 512 = ?b then view s1 a (k mod 512) else fbyte (view s1) (icache s1 p) k)" .
      show ?thesis unfolding w(2) [OF k] e by (rule blit_chunk) (use False in simp)
    qed
    obtain A t where A: "finite A" "card A \<le> nblocks (unat ?off) (n - ?c)" and t: "fwd s2 H sb p A t"
      and bt: "\<And>k. k < MAXFILE * BSIZE \<Longrightarrow> fbyte (view t) (icache t p) k =
        (if unat ?off \<le> k \<and> k < unat ?off + (n - ?c) then src (tot + ?c + (k - unat ?off)) else fbyte (view s2) (icache s2 p) k)"
      and nz: "\<And>k. unat ?off \<le> k \<Longrightarrow> k < unat ?off + (n - ?c) \<Longrightarrow> slot t p (k div 512) \<noteq> 0"
      and r3: "\<And>Q. wp (writei_from p src (tot + ?c) ?off (n - ?c)) Q s2 = Q (?off + of_nat (n - ?c)) t"
      using less.IH [OF _ t2 ok2 lim rm2, of "tot + ?c"] c by auto
    have "wp (writei_from p src tot off n) Q s = Q (off + of_nat n) t" for Q
      using r2 [of "\<lambda>_. wp (writei_from p src (tot + ?c) ?off (n - ?c)) Q"] False c(2) r3
      by (subst writei_from.simps) (simp add: wp_rules o r1 file_okD(2) [OF ok1])
    moreover have "fwd s H sb p (insert a A) t" using fwd_trans [OF f2 t] by simp
    moreover have "card (insert a A) \<le> nblocks (unat off) n" using A nb o(2) card_insert_le_m1 [of "nblocks (unat off) n" A a] by simp
    moreover have "fbyte (view t) (icache t p) k =
        (if unat off \<le> k \<and> k < unat off + n then src (tot + (k - unat off)) else fbyte (view s) (icache s p) k)" if "k < MAXFILE * BSIZE" for k
      using bt [OF that] byte [OF that] o(2) c by auto
    moreover have "slot t p (k div 512) \<noteq> 0" if "unat off \<le> k" "k < unat off + n" for k
    proof (cases "k < unat off + ?c")
      case True
      then have "k div 512 = ?b" using chunk_block [of "k - unat off" off n] that(1) by auto
      then show ?thesis using fwdD(4) [OF fwd_trans [OF w(1) t], of ?b] s1(3,4) o(3) by simp
    next
      case False
      then show ?thesis using nz [of k] that(2) o(2) c(2) by simp
    qed
    ultimately show ?thesis using A(1) by (intro exI [of _ "insert a A"] exI [of _ t]) simp
  qed
qed

text \<open>Writing the inode back touches neither the blocks nor the bytes of the file.\<close>

lemma iupdate_fwd:
  fixes s :: "'a fs_state_scheme"
  assumes txn: "txn s H" and ok: "file_ok s H sb p" and sp: "space s H 1"
  obtains t where "\<And>Q. wp (iupdate p) Q s = Q () t" "txn t H" "file_ok t H sb p" "same s p t" "icache t = icache s" "disk t = disk s"
    "\<And>x. x \<noteq> iblk s p \<Longrightarrow> view t x = view s x" "\<And>m. m \<le> MAXFILE \<Longrightarrow> slot t p m = slot s p m"
proof -
  note d = file_okD [OF ok]
  obtain t where r: "\<And>Q. wp (iupdate p) Q s = Q () t" and t: "tx_step s H t {iblk s p}"
    "view t = (view s)(iblk s p := put_dinode (view s (iblk s p)) (ioff (i_inum (icache s p))) (inode_dinode (icache s p)))"
    by (rule iupdate_ok [OF txn d(2) goodD(2,1) [OF d(4)] sp], rule that)
  have ic: "icache t = icache s" by (rule tx_step_icache [OF t(1)])
  have fa: "slot t p m = slot s p m" if "m \<le> MAXFILE" for m
    using d(6) [of MAXFILE] t(2) ic by (auto simp: faddr_def)
  have fr: "frees (view t) sb = frees (view s) sb" using t(2) frees_upd goodD(4) [OF d(4)] by simp
  have okt: "file_ok t H sb p"
    by (rule file_ok_same [OF ok fa fr _ tx_step_home [OF t(1)] tx_step_disksize [OF t(1)]]) (use t(2) goodD(3) [OF d(4)] ic in auto)
  have "same s p t"
    unfolding same_def
  proof (intro allI impI)
    fix k :: nat assume "k < MAXFILE * BSIZE"
    then have m: "k div BSIZE \<le> MAXFILE" using block_lt [of k] by simp
    then show "fbyte (view t) (icache t p) k = fbyte (view s) (icache s p) k"
      using fa [OF m] d(6) [OF m] t(2) by (auto simp: fbyte_def Let_def)
  qed
  moreover have "disk t = disk s" using t(1) by (simp add: tx_step_def)
  ultimately show thesis using that [OF r tx_step_txn [OF t(1)] okt] ic t(2) fa by simp
qed

lemma file_ok_size:
  assumes ok: "file_ok s H sb p"
  shows "file_ok (s\<lparr>icache := (icache s)(p := (icache s p)\<lparr>i_size := z\<rparr>)\<rparr>) H sb p" (is "file_ok ?t _ _ _")
    "same s p (s\<lparr>icache := (icache s)(p := (icache s p)\<lparr>i_size := z\<rparr>)\<rparr>)"
proof -
  have fa: "slot ?t p m = slot s p m" for m by (simp add: faddr_def)
  then show "same s p ?t" by (simp add: same_def fbyte_def)
  show "file_ok ?t H sb p" by (rule file_ok_same [OF ok fa]) simp_all
qed

text \<open>A file without holes: every byte below its size lies in a block.\<close>

definition dense :: "'a fs_state_scheme \<Rightarrow> nat \<Rightarrow> bool" where
  "dense s p \<longleftrightarrow> unat (i_size (icache s p)) \<le> MAXFILE * BSIZE \<and> (\<forall>k < unat (i_size (icache s p)). slot s p (k div BSIZE) \<noteq> 0)"

lemma file_ok_mapped:
  assumes ok: "file_ok s H sb p" and n: "n < MAXFILE" "slot s p n \<noteq> 0"
  shows "mapped s H p n"
proof -
  have "a \<noteq> 0 \<and> a \<notin> ran H \<and> a < disksize s" if "a = slot s p m" "m \<le> MAXFILE" "slot s p m \<noteq> 0" for a m
    using goodD(1,2) [OF file_okD(5) [OF ok that(2,3)]] home_rng that by auto
  moreover have "n < NDIRECT \<or> slot s p MAXFILE \<noteq> 0" using n by (auto simp: faddr_def split: if_splits)
  ultimately show ?thesis using n unfolding mapped_def by (auto simp: Let_def)
qed

definition wrote_file :: "'a fs_state_scheme \<Rightarrow> (nat \<rightharpoonup> uint) \<Rightarrow> superblock \<Rightarrow> nat \<Rightarrow> bytes \<Rightarrow> uint \<Rightarrow> uint \<Rightarrow> 'a fs_state_scheme \<Rightarrow> bool" where
  "wrote_file s H sb p src off n t \<longleftrightarrow> txn t H \<and> file_ok t H sb p \<and> dense t p \<and> disk t = disk s \<and>
     (\<forall>k < MAXFILE * BSIZE. fbyte (view t) (icache t p) k =
        (if unat off \<le> k \<and> k < unat off + unat n then src (k - unat off) else fbyte (view s) (icache s p) k)) \<and>
     icache t p = (icache s p)\<lparr>i_addrs := i_addrs (icache t p), i_size := max (i_size (icache s p)) (off + n)\<rparr> \<and>
     (\<forall>q. q \<noteq> p \<longrightarrow> icache t q = icache s q) \<and>
     (\<forall>x. x \<notin> bitmaps sb \<union> frees (view s) sb \<union> fblks s p \<union> {iblk s p} \<longrightarrow> view t x = view s x)"

lemma i_size_upd: "ip = ip'\<lparr>i_addrs := a, i_size := z\<rparr> \<Longrightarrow> i_size ip = z"
  by (metis inode.select_convs(9) inode.surjective inode.update_convs(9))

lemma dense_grown:
  assumes "dense s p" "off \<le> i_size (icache s p)" "unat off + unat n \<le> MAXFILE * BSIZE"
    and old: "\<And>m. m \<le> MAXFILE \<Longrightarrow> slot s p m \<noteq> 0 \<Longrightarrow> slot t p m \<noteq> 0"
    and new: "\<And>k. unat off \<le> k \<Longrightarrow> k < unat off + unat n \<Longrightarrow> slot t p (k div BSIZE) \<noteq> 0"
    and sz: "i_size (icache t p) = max (i_size (icache s p)) (off + n)"
  shows "dense t p"
proof -
  have a: "unat (off + n) = unat off + unat n" using assms(3) by (simp add: unat_word_ariths)
  have m: "unat (max (i_size (icache s p)) (off + n)) = max (unat (i_size (icache s p))) (unat off + unat n)"
    using a by (auto simp: max_def word_le_nat_alt)
  have "slot t p (k div BSIZE) \<noteq> 0" if "k < max (unat (i_size (icache s p))) (unat off + unat n)" for k
  proof (cases "k < unat (i_size (icache s p))")
    case True
    then have "k < MAXFILE * BSIZE" "slot s p (k div BSIZE) \<noteq> 0" using assms(1) by (auto simp: dense_def)
    then show ?thesis using old block_lt [of k] by simp
  next
    case False
    then show ?thesis using new [of k] that assms(2) by (auto simp: word_le_nat_alt)
  qed
  then show ?thesis using assms(1,3) m sz by (simp add: dense_def)
qed

lemma writei_ok:
  fixes s :: "'a fs_state_scheme"
  assumes "txn s H" and "file_ok s H sb p" and "dense s p" and "i_type (icache s p) \<noteq> T_DEV" and "off \<le> i_size (icache s p)"
    and "unat off + unat n \<le> MAXFILE * BSIZE" and "room s H sb p (nblocks (unat off) (unat n) + 1)"
  obtains t where "\<And>Q. wp (writei dv p src off n) Q s = Q (int (unat n)) t" "wrote_file s H sb p src off n t"
proof -
  have a: "unat (off + n) = unat off + unat n" using assms(6) by (simp add: unat_word_ariths)
  have g: "\<not> off > i_size (icache s p)" "\<not> off + n < off" "\<not> off + n > 71680" "sint n = int (unat n)"
    using assms(5,6) a sint_unat [of n] by (simp_all add: word_less_nat_alt word_le_nat_alt)
  obtain A t where A: "finite A" "card A \<le> nblocks (unat off) (unat n)" and f: "fwd s H sb p A t"
    and bt: "\<And>k. k < MAXFILE * BSIZE \<Longrightarrow> fbyte (view t) (icache t p) k =
        (if unat off \<le> k \<and> k < unat off + unat n then src (0 + (k - unat off)) else fbyte (view s) (icache s p) k)"
    and nz: "\<And>k. unat off \<le> k \<Longrightarrow> k < unat off + unat n \<Longrightarrow> slot t p (k div 512) \<noteq> 0"
    and r: "\<And>Q. wp (writei_from p src 0 off (unat n)) Q s = Q (off + of_nat (unat n)) t"
    using writei_from_ok [OF assms(1,2,6,7), where src = src and tot = 0] by blast
  note ok = fwdD(1) [OF f] and st = fs_stepD [OF fwdD(2) [OF f]] and fl = fwd_fields [OF f]
  have rm: "room t H sb p 1" by (rule room_fwd [OF f assms(1,2) A(1)], rule room_mono [OF assms(7)]) (use A(2) in simp)
  have sp: "space t H 1" by (rule room_space [OF rm st(1)])
  have un: "of_nat (unat n) = n" by simp
  have old: "slot t p m \<noteq> 0" if "m \<le> MAXFILE" "slot s p m \<noteq> 0" for m using fwdD(4) [OF f that] that(2) by simp
  show thesis
  proof (cases "n > 0 \<and> off + n > i_size (icache t p)")
    case False
    have mx: "max (i_size (icache s p)) (off + n) = i_size (icache s p)"
    proof (cases "n = 0")
      case nz: False
      then have "off + n \<le> i_size (icache s p)" using False fl(3) by (simp add: word_neq_0_conv)
      then show ?thesis by simp
    qed (use assms(5) in simp)
    have ip: "icache t p = (icache s p)\<lparr>i_addrs := i_addrs (icache t p), i_size := max (i_size (icache s p)) (off + n)\<rparr>"
      unfolding mx by (subst fwdD(3) [OF f]) simp
    have "dense t p" by (rule dense_grown [OF assms(3,5,6) old nz]) (use mx fl in simp_all)
    then have "wrote_file s H sb p src off n t" using ok st bt fwdD(8) [OF f] ip unfolding wrote_file_def by auto
    moreover have "wp (writei dv p src off n) Q s = Q (int (unat n)) t" for Q
      using assms(4) g False r un by (auto simp: writei_def wp_rules)
    ultimately show thesis using that by blast
  next
    case True
    let ?t = "t\<lparr>icache := (icache t)(p := (icache t p)\<lparr>i_size := off + n\<rparr>)\<rparr>"
    have t': "txn ?t H" "space ?t H 1" using st(1) sp by simp_all
    obtain u where ru: "\<And>Q. wp (iupdate p) Q ?t = Q () u" and u: "txn u H" "file_ok u H sb p" "same ?t p u" "icache u = icache ?t" "disk u = disk ?t"
      "\<And>x. x \<noteq> iblk ?t p \<Longrightarrow> view u x = view ?t x" "\<And>m. m \<le> MAXFILE \<Longrightarrow> slot u p m = slot ?t p m"
      by (rule iupdate_fwd [OF t'(1) file_ok_size(1) [OF ok] t'(2)], rule that)
    have sm: "same t p u" by (rule same_trans [OF file_ok_size(2) [OF ok] u(3)])
    have su: "slot u p m = slot t p m" if "m \<le> MAXFILE" for m using u(7) [OF that] by (simp add: faddr_def)
    have mx: "max (i_size (icache s p)) (off + n) = off + n" using True fl(3) by simp
    have ip: "icache u p = (icache s p)\<lparr>i_addrs := i_addrs (icache u p), i_size := max (i_size (icache s p)) (off + n)\<rparr>"
      using u(4) unfolding mx by simp (subst fwdD(3) [OF f], simp)
    have lt: "k div BSIZE \<le> MAXFILE" if "k < unat off + unat n" for k using block_lt [of k] that assms(6) by simp
    have "dense u p" by (rule dense_grown [OF assms(3,5,6)]) (use old nz su lt i_size_upd [OF ip] in simp_all)
    then have "wrote_file s H sb p src off n u" using u(1,2,4-6) sm st(4,8) bt fl fwdD(8) [OF f] ip unfolding wrote_file_def by (auto simp: same_def)
    moreover have "wp (writei dv p src off n) Q s = Q (int (unat n)) u" for Q
      using assms(4) g True r un ru by (simp add: writei_def wp_rules)
    ultimately show thesis using that by blast
  qed
qed

lemma readi_file:
  fixes s :: "'a fs_state_scheme"
  assumes "bc s H D" "card (ran H \<union> D) < NBUF" "file_ok s H sb p" "dense s p" "i_type (icache s p) \<noteq> T_DEV" "off \<le> i_size (icache s p)"
    "unat off + unat n < 2 ^ 32"
  defines "m \<equiv> min (unat n) (unat (i_size (icache s p)) - unat off)"
  obtains t where "\<And>Q. wp (readi dv p dst off n) Q s =
      Q (int m, \<lambda>k. if k < m then fbyte (view s) (icache s p) (unat off + k) else dst k) t" "rd_step s H D t"
proof (rule readi_ok [OF assms(1,2) file_okD(2) [OF assms(3)] assms(5) _ assms(6,7), folded m_def])
  show "unat (i_size (icache s p)) \<le> MAXFILE * BSIZE" using assms(4) by (simp add: dense_def)
  fix k assume "unat off \<le> k" "k < unat off + m"
  then have "k < unat (i_size (icache s p))" unfolding m_def by linarith
  then show "mapped s H p (k div 512)" using assms(4) block_lt [of k] by (intro file_ok_mapped [OF assms(3)]) (auto simp: dense_def)
qed (rule that)

section \<open>Properties\<close>

text \<open>
  C11: \<^verbatim>\<open>writei\<close> writes: inside a transaction with room for the blocks of the range, a write that starts inside the file and ends below the
  maximal file size succeeds in full. Afterwards every byte of the file in the range is the corresponding byte of the
  source, every other byte is as before, the size has grown to the end of the range if that lies beyond it, the
  blocks of the file are still distinct blocks in use without a hole, and no block of another file has changed.
\<close>

theorem writei_writes:
  fixes s :: "'a fs_state_scheme"
  assumes "txn s H" and "file_ok s H sb p" and "dense s p" and "i_type (icache s p) \<noteq> T_DEV" and "off \<le> i_size (icache s p)"
    and "unat off + unat n \<le> MAXFILE * BSIZE" and "room s H sb p (nblocks (unat off) (unat n) + 1)"
  shows "wp (writei dv p src off n) (\<lambda>r t. r = int (unat n) \<and> txn t H \<and> file_ok t H sb p \<and> dense t p \<and>
     (\<forall>k < MAXFILE * BSIZE. fbyte (view t) (icache t p) k =
        (if unat off \<le> k \<and> k < unat off + unat n then src (k - unat off) else fbyte (view s) (icache s p) k)) \<and>
     i_size (icache t p) = max (i_size (icache s p)) (off + n) \<and> (\<forall>q. q \<noteq> p \<longrightarrow> icache t q = icache s q) \<and>
     (\<forall>x. x \<notin> bitmaps sb \<union> frees (view s) sb \<union> fblks s p \<union> {IBLOCK (i_inum (icache s p))} \<longrightarrow> view t x = view s x)) s"
proof -
  obtain t where r: "\<And>Q. wp (writei dv p src off n) Q s = Q (int (unat n)) t" and t: "wrote_file s H sb p src off n t"
    by (rule writei_ok [OF assms], rule that)
  have "i_size (icache t p) = max (i_size (icache s p)) (off + n)" using t unfolding wrote_file_def by (blast intro: i_size_upd)
  then show ?thesis unfolding r using t by (simp add: wrote_file_def)
qed

text \<open>
  C12: \<^verbatim>\<open>readi\<close> reads: for a file without holes whose blocks are distinct blocks in use it returns the number of bytes between the
  offset and the end of the file, or the number asked for if that is less, the destination holds exactly these bytes of the file,
  and neither the file system nor the inode cache is changed. A transaction need not be open.
\<close>

theorem readi_reads:
  fixes s :: "'a fs_state_scheme"
  assumes "bc s H D" and "card (ran H \<union> D) < NBUF" and "file_ok s H sb p" and "dense s p" and "i_type (icache s p) \<noteq> T_DEV"
    and "off \<le> i_size (icache s p)" and "unat off + unat n < 2 ^ 32"
  defines "m \<equiv> min (unat n) (unat (i_size (icache s p)) - unat off)"
  shows "wp (readi dv p dst off n) (\<lambda>(r, d) t. r = int m \<and> (\<forall>k. d k = (if k < m then fbyte (view s) (icache s p) (unat off + k) else dst k)) \<and>
     bc t H D \<and> view t = view s \<and> disk t = disk s \<and> icache t = icache s) s"
proof -
  obtain t where r: "\<And>Q. wp (readi dv p dst off n) Q s =
      Q (int m, \<lambda>k. if k < m then fbyte (view s) (icache s p) (unat off + k) else dst k) t" and t: "rd_step s H D t"
    by (rule readi_file [OF assms(1-7), where dv = dv and dst = dst, folded m_def], rule that)
  show ?thesis unfolding r using t rd_step_icache [OF t] by (simp add: rd_step_def)
qed

text \<open>Six hundred bytes are written to an empty file and read back.\<close>

definition demo_src :: bytes where
  "demo_src = (\<lambda>k. of_nat k)"

definition demo_dv :: "fs_state devsw" where
  "demo_dv = \<lparr>dv_read = (\<lambda>_. None), dv_write = (\<lambda>_. None)\<rparr>"

abbreviation (input) demo_sb :: superblock where
  "demo_sb \<equiv> \<lparr>sb_size = 60, sb_nblocks = 0, sb_ninodes = 8, sb_nlog = 0\<rparr>"

lemma demo_inodes_log:
  "view demo_inodes = view demo_fs" "bc demo_inodes H D = bc demo_fs H D" "logged demo_inodes = logged demo_fs" "home demo_inodes = home demo_fs"
  "l_size demo_inodes = l_size demo_fs" "disksize demo_inodes = disksize demo_fs" "txn demo_inodes H = txn demo_fs H"
  "alloc_ok demo_inodes H sb = alloc_ok demo_fs H sb"
proof -
  show v: "view demo_inodes = view demo_fs" by (rule view_cong) (simp_all add: demo_inodes_def log_state.defs)
  show b: "bc demo_inodes H D = bc demo_fs H D" for H D by (rule bc_cong) (simp_all add: demo_inodes_def log_state.defs)
  show l: "logged demo_inodes = logged demo_fs" and h: "home demo_inodes = home demo_fs" and ls: "l_size demo_inodes = l_size demo_fs"
    and ds: "disksize demo_inodes = disksize demo_fs"
    by (simp_all add: logged_def home_def demo_inodes_def log_state.defs)
  have "log_wf demo_inodes = log_wf demo_fs" unfolding log_wf_def log_geom_def l h by (simp add: demo_inodes_def log_state.defs)
  moreover have "l_outstanding demo_inodes = l_outstanding demo_fs" by (simp add: demo_inodes_def log_state.defs)
  ultimately show "txn demo_inodes H = txn demo_fs H" by (simp add: txn_def b l)
  show "alloc_ok demo_inodes H sb = alloc_ok demo_fs H sb" by (simp add: alloc_ok_def v h ds)
qed

lemma demo_bitmaps: "bitmaps demo_sb = {4}"
proof -
  have "BBLOCK c 8 = 4" if "c < 60" for c
  proof -
    have "c div 4096 = 0" using that by (simp add: word_unat_eq_iff unat_div word_less_nat_alt)
    then show ?thesis by (simp add: BBLOCK_def)
  qed
  moreover have "(0 :: uint) < 60" by simp
  ultimately show ?thesis unfolding bitmaps_def by (auto intro!: rev_image_eqI [of 0])
qed

lemma demo_frees: "c \<in> frees (view demo_inodes) demo_sb \<longleftrightarrow> 5 \<le> unat c \<and> unat c < 60"
proof (cases "c < 60")
  case True
  then have lt: "unat c < 60" by (simp add: word_less_nat_alt)
  have "c div 4096 = 0" "c mod 4096 = c" using lt by (simp_all add: word_unat_eq_iff unat_div unat_mod)
  then have "blk_free demo_fs_disk demo_sb c \<longleftrightarrow> \<not> bit (if unat c div 8 = 0 then mask 5 else 0 :: uchar) (unat c mod 8)"
    by (simp add: blk_free_def bm_free_bit demo_fs_disk_def BBLOCK_def)
  also have "\<dots> \<longleftrightarrow> 5 \<le> unat c"
  proof (cases "unat c < 8")
    case False
    then have "unat c div 8 \<noteq> 0" by (simp add: div_eq_0_iff)
    then show ?thesis using False by simp
  qed (auto simp: bit_mask_iff)
  finally show ?thesis using True lt by (simp add: frees_def demo_inodes_log demo_fs_view)
qed (simp add: frees_def word_less_nat_alt)

lemma demo_file_ok: "file_ok demo_inodes Map.empty demo_sb 0" "dense demo_inodes 0" "room demo_inodes Map.empty demo_sb 0 3" "txn demo_inodes Map.empty"
proof -
  have ip: "i_addrs (icache demo_inodes 0) = (\<lambda>_. 0)" "i_size (icache demo_inodes 0) = 0" "i_inum (icache demo_inodes 0) = 3" "i_dev (icache demo_inodes 0) = 1"
    by (simp_all add: demo_inodes_def log_state.defs)
  have sl: "slot demo_inodes 0 n = 0" for n by (simp add: faddr_def ip)
  have ib: "IBLOCK 3 = 2" by (simp add: IBLOCK_def)
  have hm: "2 \<in> home demo_fs" by (auto simp: home_def demo_fs_def demo_log_def)
  have "good demo_inodes Map.empty demo_sb 2" by (simp add: good_def demo_inodes_log(4) hm demo_bitmaps demo_frees)
  then show "file_ok demo_inodes Map.empty demo_sb 0"
    using demo_fs_alloc(1) by (simp add: file_ok_def demo_inodes_log(8) ip ib sl demo_frees)
  show "dense demo_inodes 0" by (simp add: dense_def ip)
  show "txn demo_inodes Map.empty" using demo_fs_txn(1) by (simp add: demo_inodes_log)
  have "{5, 6, 7, 8} \<subseteq> frees (view demo_inodes) demo_sb" by (simp add: demo_frees)
  then have "card {5, 6, 7, 8 :: uint} \<le> card (frees (view demo_inodes) demo_sb)" by (rule card_mono [rotated]) simp
  then show "room demo_inodes Map.empty demo_sb 0 3"
    by (simp add: room_def ind_def sl demo_bitmaps demo_inodes_log(3,5)) (simp add: logged_def demo_fs_def demo_log_def)
qed

lemma nblocks_600: "nblocks 0 600 = 2"
  by (simp add: nblocks_def)

theorem writei_writes_witness:
  "wp (writei demo_dv 0 demo_src 0 600) (\<lambda>r t. r = 600 \<and> i_size (icache t 0) = 600 \<and> (\<forall>k < 600. fbyte (view t) (icache t 0) k = of_nat k)) demo_inodes"
proof -
  have "i_type (icache demo_inodes 0) \<noteq> T_DEV" "i_size (icache demo_inodes 0) = 0" by (simp_all add: demo_inodes_def log_state.defs)
  then show ?thesis
    by (intro wp_mono [OF writei_writes [OF demo_file_ok(4,1,2)]]) (use demo_file_ok(3) nblocks_600 in \<open>auto simp: demo_src_def\<close>)
qed

theorem readi_reads_witness:
  "wp (writei demo_dv 0 demo_src 0 600) (\<lambda>r t. wp (readi demo_dv 0 (\<lambda>_. 0) 10 1000) (\<lambda>(n, d) u. n = 590 \<and> (\<forall>k < 590. d k = of_nat (k + 10))) t) demo_inodes"
proof -
  have ip: "i_type (icache demo_inodes 0) = 2" "i_size (icache demo_inodes 0) = 0" by (simp_all add: demo_inodes_def log_state.defs)
  obtain t where r: "\<And>Q. wp (writei demo_dv 0 demo_src 0 600) Q demo_inodes = Q (int (unat (600 :: uint))) t"
    and t: "wrote_file demo_inodes Map.empty demo_sb 0 demo_src 0 600 t"
    by (rule writei_ok [OF demo_file_ok(4,1,2), where src = demo_src and off = 0 and n = 600 and dv = demo_dv])
      (use ip demo_file_ok(3) nblocks_600 in \<open>auto intro: that\<close>)
  have w: "txn t Map.empty" "file_ok t Map.empty demo_sb 0" "dense t 0" using t by (simp_all add: wrote_file_def)
  have "icache t 0 = (icache demo_inodes 0)\<lparr>i_addrs := i_addrs (icache t 0), i_size := max (i_size (icache demo_inodes 0)) (0 + 600)\<rparr>"
    using t unfolding wrote_file_def by blast
  then have it: "i_size (icache t 0) = 600" "i_type (icache t 0) = 2"
    using ip i_size_upd by (fastforce, metis inode.select_convs(5) inode.surjective inode.update_convs(9,10))
  have bk: "fbyte (view t) (icache t 0) k = of_nat k" if "k < 600" for k using t that by (simp add: wrote_file_def demo_src_def)
  have bc: "bc t Map.empty (set (logged t))" using w(1) by (simp add: txn_def)
  have "card (set (logged t)) \<le> length (logged t)" by (rule card_length)
  moreover have "length (logged t) < 30" using w(1) by (auto simp: txn_def log_wf_def log_geom_def logged_def)
  ultimately have rm: "card (ran Map.empty \<union> set (logged t)) < NBUF" by simp
  have u: "unat (10 :: uint) = 10" "unat (1000 :: uint) = 1000" "unat (600 :: uint) = 600" "(10 :: uint) \<le> 600" by simp_all
  have "wp (readi demo_dv 0 (\<lambda>_. 0) 10 1000) (\<lambda>(n, d) u. n = 590 \<and> (\<forall>k < 590. d k = of_nat (k + 10))) t"
    by (rule wp_mono [OF readi_reads [OF bc rm w(2,3), where off = 10 and n = 1000, unfolded it u]])
      (use u(4) bk in \<open>auto simp: add.commute\<close>)
  then show ?thesis unfolding r .
qed

end
