(* ===== verification/Asm.thy ===== *)
theory Asm
  imports Proc
begin

text \<open>
  The assembly routines of the kernel that switch contexts (\<^verbatim>\<open>swtch.S\<close>) and enter and leave traps (\<^verbatim>\<open>trapasm.S\<close>), as lists of
  instructions over a machine with the general and the segment registers and the memory of the kernel. \<open>read_tf\<close> and \<open>read_context\<close> are the structs \<^verbatim>\<open>trapframe\<close> and \<^verbatim>\<open>context\<close> at an address.
\<close>

section \<open>The machine\<close>

datatype reg = EAX | ECX | EDX | EBX | ESP | EBP | ESI | EDI
datatype seg = DS | ES | FS | GS

record machine =
  m_reg :: "reg \<Rightarrow> uint"
  m_seg :: "seg \<Rightarrow> ushort"
  m_eip :: uint
  m_cs :: ushort
  m_ss :: ushort
  m_flags :: uint
  m_mem :: memory

datatype instr =
    Load uint reg reg      \<comment> \<open>\<^verbatim>\<open>movl d(%r), %r'\<close>\<close>
  | Store reg reg          \<comment> \<open>\<^verbatim>\<open>movl %r, (%r')\<close>\<close>
  | Mov reg reg
  | Movi uint reg
  | Push reg
  | Pushi uint
  | Pop reg
  | Push_seg seg
  | Pop_seg seg
  | Pushal
  | Popal
  | Movw_ax ushort
  | Mov_seg seg            \<comment> \<open>\<^verbatim>\<open>movw %ax, %seg\<close>\<close>
  | Addi uint reg
  | Ret
  | Iret

definition set_reg :: "reg \<Rightarrow> uint \<Rightarrow> machine \<Rightarrow> machine" where
  "set_reg r v m = m\<lparr>m_reg := (m_reg m)(r := v)\<rparr>"

definition push :: "uint \<Rightarrow> machine \<Rightarrow> machine" where
  "push v m = (let a = m_reg m ESP - 4 in set_reg ESP a (m\<lparr>m_mem := store32 (m_mem m) a v\<rparr>))"

definition top :: "machine \<Rightarrow> uint" where
  "top m = load32 (m_mem m) (m_reg m ESP)"

definition drop_top :: "machine \<Rightarrow> machine" where
  "drop_top m = set_reg ESP (m_reg m ESP + 4) m"

definition pop :: "reg \<Rightarrow> machine \<Rightarrow> machine" where
  "pop r m = set_reg r (top m) (drop_top m)"

fun exec1 :: "instr \<Rightarrow> machine \<Rightarrow> machine" where
  "exec1 (Load d r r') m = set_reg r' (load32 (m_mem m) (m_reg m r + d)) m"
| "exec1 (Store r r') m = m\<lparr>m_mem := store32 (m_mem m) (m_reg m r') (m_reg m r)\<rparr>"
| "exec1 (Mov r r') m = set_reg r' (m_reg m r) m"
| "exec1 (Movi v r) m = set_reg r v m"
| "exec1 (Push r) m = push (m_reg m r) m"
| "exec1 (Pushi v) m = push v m"
| "exec1 (Pop r) m = pop r m"
| "exec1 (Push_seg g) m = push (ucast (m_seg m g)) m"
| "exec1 (Pop_seg g) m = (drop_top m)\<lparr>m_seg := (m_seg m)(g := ucast (top m))\<rparr>"
| "exec1 Pushal m =
     (let e = m_reg m ESP; r = m_reg m in
      push (r EDI) (push (r ESI) (push (r EBP) (push e (push (r EBX) (push (r EDX) (push (r ECX) (push (r EAX) m))))))))"
| "exec1 Popal m = pop EAX (pop ECX (pop EDX (pop EBX (drop_top (pop EBP (pop ESI (pop EDI m)))))))"
| "exec1 (Movw_ax v) m = set_reg EAX ((m_reg m EAX AND 0xFFFF0000) OR ucast v) m"
| "exec1 (Mov_seg g) m = m\<lparr>m_seg := (m_seg m)(g := ucast (m_reg m EAX))\<rparr>"
| "exec1 (Addi v r) m = set_reg r (m_reg m r + v) m"
| "exec1 Ret m = (drop_top m)\<lparr>m_eip := top m\<rparr>"
| "exec1 Iret m =
     (let a = m_reg m ESP; w = (\<lambda>k. load32 (m_mem m) (a + k)); n = m\<lparr>m_eip := w 0, m_cs := ucast (w 4), m_flags := w 8\<rparr> in
      if ucast (w 4) AND 3 = (3 :: ushort) then set_reg ESP (w 12) (n\<lparr>m_ss := ucast (w 16)\<rparr>) else set_reg ESP (a + 12) n)"

fun exec_all :: "instr list \<Rightarrow> machine \<Rightarrow> machine" where
  "exec_all [] m = m"
| "exec_all (i # is) m = exec_all is (exec1 i m)"

section \<open>The routines\<close>

definition swtch :: "instr list" where
  "swtch =
     [Load 4 ESP EAX, Load 8 ESP EDX,
      Push EBP, Push EBX, Push ESI, Push EDI,
      Store ESP EAX, Mov EDX ESP,
      Pop EDI, Pop ESI, Pop EBX, Pop EBP, Ret]"

text \<open>\<^verbatim>\<open>alltraps\<close> up to \<^verbatim>\<open>call trap\<close>, and what follows the call.\<close>

definition alltraps :: "instr list" where
  "alltraps =
     [Push_seg DS, Push_seg ES, Push_seg FS, Push_seg GS, Pushal,
      Movw_ax (push_bit 3 (of_nat SEG_KDATA)), Mov_seg DS, Mov_seg ES,
      Movw_ax (push_bit 3 (of_nat SEG_KCPU)), Mov_seg FS, Mov_seg GS,
      Push ESP]"

definition trapret :: "instr list" where
  "trapret = [Popal, Pop_seg GS, Pop_seg FS, Pop_seg ES, Pop_seg DS, Addi 0x8 ESP, Iret]"

definition after_trap :: "instr list" where
  "after_trap = Addi 4 ESP # trapret"

text \<open>\<^verbatim>\<open>struct context\<close> and \<^verbatim>\<open>struct trapframe\<close> in memory.\<close>

record kcontext =
  cx_edi :: uint
  cx_esi :: uint
  cx_ebx :: uint
  cx_ebp :: uint
  cx_eip :: uint

definition read_context :: "memory \<Rightarrow> uint \<Rightarrow> kcontext" where
  "read_context m a = \<lparr>cx_edi = load32 m a, cx_esi = load32 m (a + 4), cx_ebx = load32 m (a + 8), cx_ebp = load32 m (a + 12),
     cx_eip = load32 m (a + 16)\<rparr>"

definition read_tf :: "memory \<Rightarrow> uint \<Rightarrow> trapframe" where
  "read_tf m a = \<lparr>edi = load32 m a, esi = load32 m (a + 4), ebp = load32 m (a + 8), oesp = load32 m (a + 12), ebx = load32 m (a + 16),
     edx = load32 m (a + 20), ecx = load32 m (a + 24), eax = load32 m (a + 28), tf_gs = ucast (load32 m (a + 32)), tf_fs = ucast (load32 m (a + 36)),
     tf_es = ucast (load32 m (a + 40)), tf_ds = ucast (load32 m (a + 44)), trapno = load32 m (a + 48), tf_err = load32 m (a + 52),
     eip = load32 m (a + 56), tf_cs = ucast (load32 m (a + 60)), eflags = load32 m (a + 64), esp = load32 m (a + 68),
     tf_ss = ucast (load32 m (a + 72))\<rparr>"

section \<open>Loads and stores\<close>

text \<open>Two stretches of memory that do not overlap.\<close>

definition apart :: "uint \<Rightarrow> nat \<Rightarrow> uint \<Rightarrow> nat \<Rightarrow> bool" where
  "apart a n b k \<longleftrightarrow> n \<le> unat (b - a) \<and> k \<le> unat (a - b)"

lemma apart_load:
  assumes "apart a n b k" "y + 4 \<le> n" "x + 4 \<le> k"
  shows "load32 (store32 m (b + of_nat x) v) (a + of_nat y) = load32 m (a + of_nat y)"
proof -
  let ?d = "unat (b - a)"
  have ne: "b - a \<noteq> 0" using assms by (auto simp: apart_def)
  have d: "n \<le> ?d" "k \<le> 2 ^ 32 - ?d" "?d < 2 ^ 32"
    using assms(1) unat_neg [OF ne] unsigned_less [of "b - a", where 'a = nat] by (simp_all add: apart_def)
  have le: "y \<le> ?d + x" "?d + x - y < 2 ^ 32" using d assms by auto
  have "(b + of_nat x) - (a + of_nat y) = of_nat (?d + x) - (of_nat y :: uint)" by simp
  also have "\<dots> = of_nat (?d + x - y)" using le(1) by (simp add: of_nat_diff)
  finally have pq: "(b + of_nat x) - (a + of_nat y) = (of_nat (?d + x - y) :: uint)" .
  then have u: "unat ((b + of_nat x) - (a + of_nat y)) = ?d + x - y" using le(2) by (simp add: unat_of_nat)
  then have nz: "(b + of_nat x) - (a + of_nat y) \<noteq> 0" using d assms by (auto simp: unat_eq_0 [symmetric])
  have "unat ((a + of_nat y) - (b + of_nat x)) = 2 ^ 32 - (?d + x - y)" using unat_neg [OF nz] u by simp
  then show ?thesis using u d assms by (intro load32_store32_far) (simp_all add: word_le_nat_alt)
qed

lemmas apart_loads = apart_load [where x = 0, simplified] apart_load [where y = 0, simplified] apart_load [where x = 0 and y = 0, simplified]

lemma apart_byte:
  assumes "apart a n b k" "unat i < n" "4 \<le> k"
  shows "store32 m b v (a + i) = m (a + i)"
proof -
  have ne: "a - b \<noteq> 0" using assms by (auto simp: apart_def)
  have d: "k \<le> unat (a - b)" "n \<le> 2 ^ 32 - unat (a - b)" using assms(1) unat_neg [OF ne] by (simp_all add: apart_def)
  have e: "a + i - b = (a - b) + i" by simp
  have "unat (a + i - b) = unat (a - b) + unat i" unfolding e using d assms(2) by (simp add: unat_word_ariths)
  then have "\<not> a + i - b < 4" using d(1) assms(3) by (simp add: word_less_nat_alt)
  then show ?thesis by (rule store32_outside)
qed

section \<open>Runs\<close>

lemmas asm_simps = set_reg_def push_def top_def drop_top_def pop_def Let_def

text \<open>The memory after \<^verbatim>\<open>swtch\<close> has saved the registers.\<close>

definition swtch_mem :: "machine \<Rightarrow> memory" where
  "swtch_mem m = (let e = m_reg m ESP; r = m_reg m in
     store32 (store32 (store32 (store32 (store32 (m_mem m) (e - 4) (r EBP)) (e - 8) (r EBX)) (e - 12) (r ESI)) (e - 16) (r EDI))
       (load32 (m_mem m) (e + 4)) (e - 16))"

lemma swtch_run:
  defines "new \<equiv> \<lambda>m. load32 (m_mem m) (m_reg m ESP + 8)"
  shows "m_mem (exec_all swtch m) = swtch_mem m" "m_eip (exec_all swtch m) = cx_eip (read_context (swtch_mem m) (new m))"
    "m_reg (exec_all swtch m) EDI = cx_edi (read_context (swtch_mem m) (new m))" "m_reg (exec_all swtch m) ESI = cx_esi (read_context (swtch_mem m) (new m))"
    "m_reg (exec_all swtch m) EBX = cx_ebx (read_context (swtch_mem m) (new m))" "m_reg (exec_all swtch m) EBP = cx_ebp (read_context (swtch_mem m) (new m))"
    "m_reg (exec_all swtch m) ESP = new m + 20"
  by (simp_all add: swtch_def swtch_mem_def new_def read_context_def asm_simps diff_diff_eq ac_simps)

lemma swtch_saves:
  assumes "apart (m_reg m ESP - 16) 20 (load32 (m_mem m) (m_reg m ESP + 4)) 4"
  shows "read_context (swtch_mem m) (m_reg m ESP - 16) = \<lparr>cx_edi = m_reg m EDI, cx_esi = m_reg m ESI, cx_ebx = m_reg m EBX, cx_ebp = m_reg m EBP,
     cx_eip = load32 (m_mem m) (m_reg m ESP)\<rparr>"
    "load32 (swtch_mem m) (load32 (m_mem m) (m_reg m ESP + 4)) = m_reg m ESP - 16"
proof -
  have far: "load32 (store32 n (load32 (m_mem m) (m_reg m ESP + 4)) v) (m_reg m ESP - 16 + of_nat y) = load32 n (m_reg m ESP - 16 + of_nat y)" if "y + 4 \<le> 20" for n v y
    using apart_load [OF assms that, of 0] by simp
  from far [of 0] far [of 4] far [of 8] far [of 12] far [of 16]
  show "read_context (swtch_mem m) (m_reg m ESP - 16) = \<lparr>cx_edi = m_reg m EDI, cx_esi = m_reg m ESI, cx_ebx = m_reg m EBX, cx_ebp = m_reg m EBP,
     cx_eip = load32 (m_mem m) (m_reg m ESP)\<rparr>"
    by (simp add: read_context_def swtch_mem_def Let_def load32_store32_far)
  show "load32 (swtch_mem m) (load32 (m_mem m) (m_reg m ESP + 4)) = m_reg m ESP - 16" by (simp add: swtch_mem_def Let_def)
qed

lemma swtch_far:
  assumes "apart c n (m_reg m ESP - 16) 16" "apart c n (load32 (m_mem m) (m_reg m ESP + 4)) 4" "y + 4 \<le> n"
  shows "load32 (swtch_mem m) (c + of_nat y) = load32 (m_mem m) (c + of_nat y)"
  using apart_load [OF assms(2,3), of 0] apart_load [OF assms(1,3), of 0] apart_load [OF assms(1,3), of 4]
    apart_load [OF assms(1,3), of 8] apart_load [OF assms(1,3), of 12] by (simp add: swtch_mem_def Let_def)

lemma swtch_keeps:
  assumes "apart c n (m_reg m ESP - 16) 16" "apart c n (load32 (m_mem m) (m_reg m ESP + 4)) 4" "20 \<le> n"
  shows "read_context (swtch_mem m) c = read_context (m_mem m) c"
  using swtch_far [OF assms(1,2), of 0] swtch_far [OF assms(1,2), of 4] swtch_far [OF assms(1,2), of 8] swtch_far [OF assms(1,2), of 12]
    swtch_far [OF assms(1,2), of 16] assms(3) by (simp add: read_context_def)

lemma read_context_cong: "(\<And>i. i < 20 \<Longrightarrow> m (a + i) = n (a + i)) \<Longrightarrow> read_context m a = read_context n a"
proof -
  assume e: "\<And>i. i < 20 \<Longrightarrow> m (a + i) = n (a + i)"
  have "load32 m (a + y) = load32 n (a + y)" if "y \<le> 16" for y
  proof (rule load32_cong)
    fix i :: uint assume "i < 4"
    then have "y + i < 20" using that by (simp add: word_less_nat_alt word_le_nat_alt unat_word_ariths)
    then show "m (a + y + i) = n (a + y + i)" using e [of "y + i"] by (simp add: add.assoc)
  qed
  from this [of 0] this [of 4] this [of 8] this [of 12] this [of 16] show ?thesis by (simp add: read_context_def)
qed

lemma ax_low: "ucast ((x AND 0xFFFF0000) OR ucast v :: uint) = v" for v :: ushort
proof -
  have e: "(0xFFFF0000 :: uint) = push_bit 16 (mask 16)" by (simp add: mask_eq_exp_minus_1 push_bit_eq_mult)
  show ?thesis unfolding e by (intro bit_word_eqI) (auto simp: bit_simps)
qed

lemmas ax_selectors = ax_low [where v = 16, simplified] ax_low [where v = 24, simplified]

lemma seg_round [simp]: "ucast (ucast v :: uint) = v" for v :: ushort
  by (intro bit_word_eqI) (auto simp: bit_simps)

lemma alltraps_run:
  defines "a \<equiv> \<lambda>m. m_reg m ESP - 48"
  shows "m_reg (exec_all alltraps m) ESP = a m - 4" "load32 (m_mem (exec_all alltraps m)) (a m - 4) = a m"
    "m_seg (exec_all alltraps m) = (\<lambda>g. case g of DS \<Rightarrow> 16 | ES \<Rightarrow> 16 | FS \<Rightarrow> 24 | GS \<Rightarrow> 24)"
    "read_tf (m_mem (exec_all alltraps m)) (a m) = \<lparr>edi = m_reg m EDI, esi = m_reg m ESI, ebp = m_reg m EBP, oesp = m_reg m ESP - 16, ebx = m_reg m EBX, edx = m_reg m EDX,
       ecx = m_reg m ECX, eax = m_reg m EAX, tf_gs = m_seg m GS, tf_fs = m_seg m FS, tf_es = m_seg m ES, tf_ds = m_seg m DS, trapno = load32 (m_mem m) (m_reg m ESP),
       tf_err = load32 (m_mem m) (m_reg m ESP + 4), eip = load32 (m_mem m) (m_reg m ESP + 8), tf_cs = ucast (load32 (m_mem m) (m_reg m ESP + 12)),
       eflags = load32 (m_mem m) (m_reg m ESP + 16), esp = load32 (m_mem m) (m_reg m ESP + 20), tf_ss = ucast (load32 (m_mem m) (m_reg m ESP + 24))\<rparr>"
proof -
  have "m_seg (exec_all alltraps m) g = (case g of DS \<Rightarrow> 16 | ES \<Rightarrow> 16 | FS \<Rightarrow> 24 | GS \<Rightarrow> 24)" for g
    by (cases g) (simp_all add: alltraps_def asm_simps ax_selectors push_bit_eq_mult)
  then show "m_seg (exec_all alltraps m) = (\<lambda>g. case g of DS \<Rightarrow> 16 | ES \<Rightarrow> 16 | FS \<Rightarrow> 24 | GS \<Rightarrow> 24)" by blast
qed (simp_all add: alltraps_def a_def asm_simps diff_diff_eq read_tf_def load32_store32_far add.commute [of "m_reg m ESP"])

lemma after_trap_run:
  assumes e: "m_reg m ESP = a - 4" and cs: "tf_cs (read_tf (m_mem m) a) AND 3 = 3"
  defines "tf \<equiv> read_tf (m_mem m) a"
  shows "exec_all after_trap m =
       m\<lparr>m_reg := (\<lambda>r. case r of EAX \<Rightarrow> eax tf | ECX \<Rightarrow> ecx tf | EDX \<Rightarrow> edx tf | EBX \<Rightarrow> ebx tf | ESP \<Rightarrow> esp tf | EBP \<Rightarrow> ebp tf | ESI \<Rightarrow> esi tf | EDI \<Rightarrow> edi tf),
         m_seg := (\<lambda>g. case g of DS \<Rightarrow> tf_ds tf | ES \<Rightarrow> tf_es tf | FS \<Rightarrow> tf_fs tf | GS \<Rightarrow> tf_gs tf),
         m_eip := eip tf, m_cs := tf_cs tf, m_flags := eflags tf, m_ss := tf_ss tf\<rparr>"
proof -
  have c: "ucast (load32 (m_mem m) (a + 60)) AND 3 = (3 :: ushort)" using cs by (simp add: read_tf_def)
  show ?thesis
    using c by (simp add: after_trap_def trapret_def asm_simps e tf_def read_tf_def)
      (auto intro!: machine.equality split: reg.splits seg.splits simp: tf_def read_tf_def ac_simps)
qed

section \<open>Properties\<close>

text \<open>
  C13: \<^verbatim>\<open>swtch\<close> switches and comes back. It stores the pointer to the saved context through its first argument. A later \<^verbatim>\<open>swtch\<close>
  from any other stack to that pointer, with the saved context untouched in between, continues after the first call
  as if it had just returned: at its return address, with its stack pointer and its callee-saved registers.
\<close>

theorem swtch_round_trip:
  fixes m m2 :: machine
  defines "old \<equiv> \<lambda>m. load32 (m_mem m) (m_reg m ESP + 4)" and "new \<equiv> \<lambda>m. load32 (m_mem m) (m_reg m ESP + 8)"
    and "ctx \<equiv> m_reg m ESP - 16" and "m1 \<equiv> exec_all swtch m"
  assumes "apart ctx 20 (old m) 4"
    and "\<forall>i < 20. m_mem m2 (ctx + i) = m_mem m1 (ctx + i)" and "new m2 = ctx"
    and "apart ctx 20 (m_reg m2 ESP - 16) 16" and "apart ctx 20 (old m2) 4"
  shows "load32 (m_mem m1) (old m) = ctx \<and>
     (let m3 = exec_all swtch m2 in m_eip m3 = load32 (m_mem m) (m_reg m ESP) \<and> m_reg m3 ESP = m_reg m ESP + 4 \<and>
      (\<forall>r \<in> {EBP, EBX, ESI, EDI}. m_reg m3 r = m_reg m r))"
proof -
  have "read_context (m_mem m2) ctx = read_context (m_mem m1) ctx" by (rule read_context_cong) (use assms(6) in simp)
  then have r: "read_context (swtch_mem m2) ctx = read_context (swtch_mem m) ctx"
    using swtch_keeps [OF assms(8,9) [unfolded old_def]] unfolding m1_def swtch_run by simp
  note s = swtch_saves [OF assms(5) [unfolded old_def ctx_def]]
  show ?thesis
    using s r assms(7) unfolding m1_def swtch_run old_def new_def ctx_def by (simp add: swtch_run Let_def)
qed

text \<open>A stack at 0x1000 with the arguments 0x5000 and 0x6000, and a second one at 0x2000 with the arguments 0x5004 and the saved context.\<close>

definition demo_stack :: "uint \<Rightarrow> uint \<Rightarrow> uint \<Rightarrow> memory \<Rightarrow> machine" where
  "demo_stack e x y m = \<lparr>m_reg = (\<lambda>r. if r = ESP then e else if r = EBX then 7 else 1), m_seg = (\<lambda>_. 0), m_eip = 0, m_cs = 0, m_ss = 0, m_flags = 0,
     m_mem = store32 (store32 (store32 m e 0x80100000) (e + 4) x) (e + 8) y\<rparr>"

theorem swtch_round_trip_witness:
  "let m = demo_stack 0x1000 0x5000 0x6000 (\<lambda>_. 0); m3 = exec_all swtch (demo_stack 0x2000 0x5004 0xFF0 (m_mem (exec_all swtch m))) in
     m_eip m3 = 0x80100000 \<and> m_reg m3 ESP = 0x1004 \<and> m_reg m3 EBX = 7"
proof -
  let ?m = "demo_stack 0x1000 0x5000 0x6000 (\<lambda>_. 0)"
  let ?m2 = "demo_stack 0x2000 0x5004 0xFF0 (m_mem (exec_all swtch ?m))"
  have r: "m_reg ?m ESP = 0x1000" "m_reg ?m2 ESP = 0x2000" "m_reg ?m EBX = 7" by (simp_all add: demo_stack_def)
  have l: "load32 (m_mem ?m) 0x1004 = 0x5000" "load32 (m_mem ?m2) 0x2004 = 0x5004" "load32 (m_mem ?m2) 0x2008 = 0xFF0" "load32 (m_mem ?m) 0x1000 = 0x80100000"
    by (simp_all add: demo_stack_def load32_store32_far)
  have a: "apart 0xFF0 20 0x5000 4" "apart 0xFF0 20 0x1FF0 16" "apart 0xFF0 20 0x5004 4" "apart 0xFF0 20 0x2000 4" "apart 0xFF0 20 0x2004 4" "apart 0xFF0 20 0x2008 4"
    by (simp_all add: apart_def)
  have "\<forall>i < 20. m_mem ?m2 (0xFF0 + i) = m_mem (exec_all swtch ?m) (0xFF0 + i)"
    using apart_byte [OF a(4)] apart_byte [OF a(5)] apart_byte [OF a(6)] by (auto simp: demo_stack_def word_less_nat_alt)
  then show ?thesis
    using swtch_round_trip [of ?m ?m2] r l a by (simp add: Let_def)
qed

text \<open>
  C14: trap entry and exit. \<^verbatim>\<open>alltraps\<close>, entered with the words the processor and the vector have pushed, leaves a \<^verbatim>\<open>struct trapframe\<close> with the interrupted
  program's registers on the stack and its address as the argument of \<^verbatim>\<open>trap\<close>, with the kernel's data segments loaded. When \<^verbatim>\<open>trap\<close> returns, the
  code after the call loads every register of the program from the frame that \<^verbatim>\<open>trap\<close> left there.
\<close>

theorem trap_frame_round_trip:
  fixes m m2 :: machine
  defines "a \<equiv> m_reg m ESP - 48" and "m1 \<equiv> exec_all alltraps m" and "w \<equiv> \<lambda>k. load32 (m_mem m) (m_reg m ESP + k)"
  assumes "m_reg m2 ESP = m_reg m1 ESP" and "tf_cs (read_tf (m_mem m2) a) AND 3 = 3"
  shows "load32 (m_mem m1) (m_reg m1 ESP) = a \<and> m_seg m1 = (\<lambda>g. case g of DS \<Rightarrow> 16 | ES \<Rightarrow> 16 | FS \<Rightarrow> 24 | GS \<Rightarrow> 24) \<and>
     read_tf (m_mem m1) a = \<lparr>edi = m_reg m EDI, esi = m_reg m ESI, ebp = m_reg m EBP, oesp = m_reg m ESP - 16, ebx = m_reg m EBX, edx = m_reg m EDX,
       ecx = m_reg m ECX, eax = m_reg m EAX, tf_gs = m_seg m GS, tf_fs = m_seg m FS, tf_es = m_seg m ES, tf_ds = m_seg m DS, trapno = w 0, tf_err = w 4,
       eip = w 8, tf_cs = ucast (w 12), eflags = w 16, esp = w 20, tf_ss = ucast (w 24)\<rparr> \<and>
     (let tf = read_tf (m_mem m2) a in exec_all after_trap m2 =
       m2\<lparr>m_reg := (\<lambda>r. case r of EAX \<Rightarrow> eax tf | ECX \<Rightarrow> ecx tf | EDX \<Rightarrow> edx tf | EBX \<Rightarrow> ebx tf | ESP \<Rightarrow> esp tf | EBP \<Rightarrow> ebp tf | ESI \<Rightarrow> esi tf | EDI \<Rightarrow> edi tf),
         m_seg := (\<lambda>g. case g of DS \<Rightarrow> tf_ds tf | ES \<Rightarrow> tf_es tf | FS \<Rightarrow> tf_fs tf | GS \<Rightarrow> tf_gs tf),
         m_eip := eip tf, m_cs := tf_cs tf, m_flags := eflags tf, m_ss := tf_ss tf\<rparr>)"
proof -
  note e = alltraps_run [of m, folded m1_def a_def]
  have e2: "m_reg m2 ESP = a - 4" using assms(4) e(1) by simp
  show ?thesis using e after_trap_run [OF e2 assms(5)] unfolding w_def Let_def by simp
qed

text \<open>A program with code segment selector 0x1B traps with vector 13 at address 0x40.\<close>

definition demo_trapped :: machine where
  "demo_trapped = \<lparr>m_reg = (\<lambda>r. if r = ESP then 0x1000 else if r = EBX then 7 else 1), m_seg = (\<lambda>_. 0x23), m_eip = 0, m_cs = 8, m_ss = 16, m_flags = 0,
     m_mem = store32 (store32 (store32 (store32 (\<lambda>_. 0) 0x1000 13) 0x1008 0x40) 0x100C 0x1B) 0x1014 0xFF0\<rparr>"

theorem trap_frame_round_trip_witness:
  "let m = demo_trapped; m3 = exec_all after_trap (exec_all alltraps m) in
     m_reg m3 EBX = 7 \<and> m_reg m3 ESP = 0xFF0 \<and> m_eip m3 = 0x40 \<and> m_cs m3 = 0x1B \<and> m_seg m3 GS = 0x23 \<and> trapno (read_tf (m_mem (exec_all alltraps m)) 0xFD0) = 13"
proof -
  let ?m = demo_trapped
  have r: "m_reg ?m ESP = 0x1000" "m_reg ?m EBX = 7" "m_seg ?m GS = 0x23"
    and l: "load32 (m_mem ?m) 0x1000 = 13" "load32 (m_mem ?m) 0x1008 = 0x40" "load32 (m_mem ?m) 0x100C = 0x1B" "load32 (m_mem ?m) 0x1014 = 0xFF0"
    by (simp_all add: demo_trapped_def load32_store32_far)
  have cs: "tf_cs (read_tf (m_mem (exec_all alltraps ?m)) 0xFD0) AND 3 = 3"
    using alltraps_run(4) [of ?m] r(1) l by simp
  show ?thesis using trap_frame_round_trip [of "exec_all alltraps ?m" ?m] r l cs by (simp add: Let_def)
qed

section \<open>The first switch to a new process\<close>

lemma new_stack:
  fixes k tr fr :: uint and m :: memory
  defines "M \<equiv> store32 (memset k 0 20 (store32 m (k + 20) tr)) (k + 16) fr"
  shows "load32 M (k + 20) = tr" "read_context M k = \<lparr>cx_edi = 0, cx_esi = 0, cx_ebx = 0, cx_ebp = 0, cx_eip = fr\<rparr>"
proof -
  have lt: "unat (y + i) = unat y + unat i" if "y \<le> 16" "i < 4" for y i :: uint
    using that by (simp add: word_less_nat_alt word_le_nat_alt unat_word_ariths)
  have in20: "load32 (memset k 0 20 n) (k + y) = 0" if "y \<le> 16" for n y
  proof -
    have "load32 (memset k 0 20 n) (k + y) = load32 (\<lambda>_. 0) (k + y)"
    proof (rule load32_cong)
      fix i :: uint assume "i < 4"
      then have "y + i < 20" using lt [OF that, of i] that by (simp add: word_less_nat_alt word_le_nat_alt)
      then show "memset k 0 20 n (k + y + i) = 0" by (simp add: memset_eq add.assoc)
    qed
    then show ?thesis by (simp add: load32_def)
  qed
  have out: "load32 (memset k 0 20 n) (k + 20) = load32 n (k + 20)" for n
  proof (rule load32_cong)
    fix i :: uint assume "i < 4"
    then have "\<not> 20 + i < 20" by (simp add: word_less_nat_alt unat_word_ariths)
    then show "memset k 0 20 n (k + 20 + i) = n (k + 20 + i)" by (simp add: memset_eq add.assoc)
  qed
  show "load32 M (k + 20) = tr" by (simp add: M_def load32_store32_far out)
  show "read_context M k = \<lparr>cx_edi = 0, cx_esi = 0, cx_ebx = 0, cx_ebp = 0, cx_eip = fr\<rparr>"
    using in20 [of 0] in20 [of 4] in20 [of 8] in20 [of 12] by (simp add: M_def read_context_def load32_store32_far)
qed

lemma allocproc_stack:
  fixes s :: "'a proc_state_scheme"
  assumes "allocproc s = Ok (Some p) t"
  defines "c \<equiv> p_kstack (ptab t p) + 4096 - 100"
  shows "p_context (ptab t p) = c" "load32 (mem t) (c + 20) = sym_trapret s"
    "read_context (mem t) c = \<lparr>cx_edi = 0, cx_esi = 0, cx_ebx = 0, cx_ebp = 0, cx_eip = sym_forkret s\<rparr>"
  using assms(1) new_stack [of "3996 + freelist s" "mem s" "sym_trapret s" "sym_forkret s"]
  by (auto simp: allocproc_def kbind_eq_Ok kseq_eq_Ok kget_def kret_def kmod_def set_proc_def upd_proc_def wr32_def kmemset_def kalloc_def
      Let_def c_def split: option.splits if_splits)

text \<open>
  C15: a new process starts where it should: the first \<^verbatim>\<open>swtch\<close> to the context that \<^verbatim>\<open>allocproc\<close> has built enters \<^verbatim>\<open>forkret\<close> on the new kernel stack, and
  the return from \<^verbatim>\<open>forkret\<close> enters \<^verbatim>\<open>trapret\<close> with the stack pointer at the process's trap frame.
\<close>

theorem first_switch:
  fixes s :: "'a proc_state_scheme" and m :: machine
  assumes "allocproc s = Ok (Some p) t" and "m_mem m = mem t" and "load32 (m_mem m) (m_reg m ESP + 8) = p_context (ptab t p)"
    and "apart (p_context (ptab t p)) 24 (m_reg m ESP - 16) 16"
    and "apart (p_context (ptab t p)) 24 (load32 (m_mem m) (m_reg m ESP + 4)) 4"
  shows "let m1 = exec_all swtch m; m2 = exec_all [Ret] m1 in m_eip m1 = sym_forkret s \<and> m_reg m1 EBP = 0 \<and>
     m_eip m2 = sym_trapret s \<and> m_reg m2 ESP = p_kstack (ptab t p) + KSTACKSIZE - 76"
proof -
  note a = allocproc_stack [OF assms(1)] and far = assms(4,5)
  let ?c = "p_context (ptab t p)"
  have k: "read_context (swtch_mem m) ?c = read_context (mem t) ?c" using swtch_keeps [OF far] assms(2) by simp
  have tr: "load32 (swtch_mem m) (?c + 20) = sym_trapret s" using swtch_far [OF far, of 20] assms(2) a(1,2) by simp
  have "m_eip (exec_all swtch m) = sym_forkret s" "m_reg (exec_all swtch m) EBP = 0" "m_reg (exec_all swtch m) ESP = ?c + 20" "m_mem (exec_all swtch m) = swtch_mem m"
    using k a assms(3) by (simp_all add: swtch_run)
  then show ?thesis using tr a(1) by (simp add: Let_def asm_simps)
qed

text \<open>A process is created with the kernel stack at 0x80200000; the scheduler's stack is at 0x80300000.\<close>

definition demo_new :: proc_state where
  "demo_new = demo_proc\<lparr>ptab := (\<lambda>_. undefined\<lparr>p_state := UNUSED\<rparr>), freelist := 0x80200000,
     mem := store32 (store32 (\<lambda>_. 0) 0x80300004 0x80400000) 0x80300008 0x80200F9C\<rparr>"

lemma demo_new_alloc:
  obtains t where "allocproc demo_new = Ok (Some 0) t" "p_kstack (ptab t 0) = 0x80200000" "load32 (mem t) 0x80300008 = 0x80200F9C" "load32 (mem t) 0x80300004 = 0x80400000"
proof -
  have f: "find (\<lambda>p. p_state (ptab demo_new p) = UNUSED) [0..<NPROC] = Some 0" by (simp add: demo_new_def upt_conv_Cons)
  have fl: "freelist demo_new = 0x80200000" by (simp add: demo_new_def)
  have m: "mem demo_new = store32 (store32 (\<lambda>_. 0) 0x80300004 0x80400000) 0x80300008 0x80200F9C" by (simp add: demo_new_def)
  obtain t where t: "allocproc demo_new = Ok (Some 0) t" "p_kstack (ptab t 0) = 0x80200000"
    "mem t = store32 (memset 0x80200F9C 0 20 (store32 (mem demo_new) 0x80200FB0 (sym_trapret demo_new))) 0x80200FAC (sym_forkret demo_new)"
    by (simp add: allocproc_def kbind_def kseq_def kget_def kret_def kmod_def set_proc_def upd_proc_def wr32_def kmemset_def kalloc_def Let_def f fl)
  then show thesis using that [OF t(1,2)] by (simp add: m load32_def store32_def memset_eq)
qed

theorem first_switch_witness:
  "\<exists>t. allocproc demo_new = Ok (Some 0) t \<and> (let m1 = exec_all swtch (demo_trapped\<lparr>m_reg := (\<lambda>_. 0x80300000), m_mem := mem t\<rparr>) in
     m_eip m1 = 0x80103000 \<and> m_eip (exec_all [Ret] m1) = 0x80106000 \<and> m_reg (exec_all [Ret] m1) ESP = 0x80200FB4)"
proof -
  obtain t where t: "allocproc demo_new = Ok (Some 0) t" "p_kstack (ptab t 0) = 0x80200000" "load32 (mem t) 0x80300008 = 0x80200F9C" "load32 (mem t) 0x80300004 = 0x80400000"
    by (rule demo_new_alloc)
  have c: "p_context (ptab t 0) = 0x80200F9C" using allocproc_stack(1) [OF t(1)] t(2) by simp
  have a: "apart 0x80200F9C 24 0x802FFFF0 16" "apart 0x80200F9C 24 0x80400000 4" by (simp_all add: apart_def)
  have s: "sym_forkret demo_new = 0x80103000" "sym_trapret demo_new = 0x80106000" by (simp_all add: demo_new_def demo_proc_def vm_state.defs)
  show ?thesis
    using first_switch [OF t(1), of "demo_trapped\<lparr>m_reg := (\<lambda>_. 0x80300000), m_mem := mem t\<rparr>"] t a c s by (simp add: Let_def)
qed

end
