(* ===== verification/Sh.thy ===== *)
theory Sh
  imports Fs_Dir
begin

text \<open>
  The shell's command parser, \<^verbatim>\<open>sh.c\<close>. The text still to be parsed (\<^verbatim>\<open>*ps\<close> up to \<^verbatim>\<open>es\<close>) is a list of bytes; a token is the text between
  its start and end pointers, which is what the command structures refer to once \<^verbatim>\<open>nulterminate\<close> has written a NUL behind
  each of them. A call of \<^verbatim>\<open>panic\<close> is the value \<open>PErr\<close>. The mutually recursive routines carry a depth counter as first
  argument and give \<open>PFuel\<close> when it is used up; \<^verbatim>\<open>parsecmd\<close> starts with a value that is never used up.
\<close>

datatype cmd = Exec "cstr list" | Redir cmd cstr uint nat | Pipe cmd cmd | Lst cmd cmd | Back cmd

datatype 'a pres = POk 'a | PErr string | PFuel

definition pbind :: "'a pres \<Rightarrow> ('a \<Rightarrow> 'b pres) \<Rightarrow> 'b pres" where
  "pbind m f = (case m of POk x \<Rightarrow> f x | PErr e \<Rightarrow> PErr e | PFuel \<Rightarrow> PFuel)"

lemma pbind_simps [simp]: "pbind (POk x) f = f x" "pbind (PErr e) f = PErr e" "pbind PFuel f = PFuel"
  by (simp_all add: pbind_def)

abbreviation (input) MAXARGS :: nat where "MAXARGS \<equiv> 10"
abbreviation (input) LT :: uchar where "LT \<equiv> 60"
abbreviation (input) GT :: uchar where "GT \<equiv> 62"
abbreviation (input) BAR :: uchar where "BAR \<equiv> 124"
abbreviation (input) AMP :: uchar where "AMP \<equiv> 38"
abbreviation (input) SEMI :: uchar where "SEMI \<equiv> 59"
abbreviation (input) LPAR :: uchar where "LPAR \<equiv> 40"
abbreviation (input) RPAR :: uchar where "RPAR \<equiv> 41"
abbreviation (input) PLUS :: uchar where "PLUS \<equiv> 43"
abbreviation (input) TOK_A :: uchar where "TOK_A \<equiv> 97"

definition whitespace :: "uchar list" where "whitespace = [32, 9, 13, 10, 11]"
definition symbols :: "uchar list" where "symbols = [LT, BAR, GT, AMP, SEMI, LPAR, RPAR]"

definition is_ws :: "uchar \<Rightarrow> bool" where "is_ws c \<longleftrightarrow> c \<in> set whitespace"
definition is_sym :: "uchar \<Rightarrow> bool" where "is_sym c \<longleftrightarrow> c \<in> set symbols"

fun skip_ws :: "cstr \<Rightarrow> cstr" where
  "skip_ws [] = []"
| "skip_ws (c # s) = (if is_ws c then skip_ws s else c # s)"

text \<open>The loop over the characters of a word: the word and what follows it.\<close>

fun take_word :: "cstr \<Rightarrow> cstr \<times> cstr" where
  "take_word [] = ([], [])"
| "take_word (c # s) = (if \<not> is_ws c \<and> \<not> is_sym c then (let (w, r) = take_word s in (c # w, r)) else ([], c # s))"

text \<open>\<^verbatim>\<open>gettoken\<close> returns its code, the token between \<^verbatim>\<open>*q\<close> and \<^verbatim>\<open>*eq\<close>, and the new \<^verbatim>\<open>*ps\<close>.\<close>

definition gettoken :: "cstr \<Rightarrow> uchar \<times> cstr \<times> cstr" where
  "gettoken s =
     (case skip_ws s of
        [] \<Rightarrow> (0, [], [])
      | c # s \<Rightarrow>
          if c \<in> {BAR, LPAR, RPAR, SEMI, AMP, LT} then (c, [c], skip_ws s)
          else if c = GT then
            (case s of
               d # s' \<Rightarrow> if d = GT then (PLUS, [c, d], skip_ws s') else (c, [c], skip_ws s)
             | [] \<Rightarrow> (c, [c], []))
          else (let (w, r) = take_word (c # s) in (TOK_A, w, skip_ws r)))"

definition peek :: "cstr \<Rightarrow> uchar list \<Rightarrow> bool \<times> cstr" where
  "peek s toks = (let s = skip_ws s in (s \<noteq> [] \<and> hd s \<in> set toks, s))"

lemma skip_ws_le: "length (skip_ws s) \<le> length s"
  by (induction s rule: skip_ws.induct) auto

lemma take_word_le: "take_word s = (w, r) \<Longrightarrow> length w + length r = length s"
  by (induction s arbitrary: w r rule: take_word.induct) (auto split: if_splits prod.splits)

lemma skip_ws_hd: "skip_ws s = c # r \<Longrightarrow> \<not> is_ws c"
  by (induction s rule: skip_ws.induct) (auto split: if_splits)

lemma gettoken_shorter:
  assumes "skip_ws s \<noteq> []" "gettoken s = (t, q, r)"
  shows "length r < length s"
proof -
  obtain c u where cu: "skip_ws s = c # u" using assms(1) by (cases "skip_ws s") auto
  have le: "Suc (length u) \<le> length s" using skip_ws_le [of s] cu by simp
  have sk: "length (skip_ws v) \<le> length v" for v by (rule skip_ws_le)
  have nw: "\<not> is_ws c" using skip_ws_hd [OF cu] .
  obtain w x where wx: "take_word (c # u) = (w, x)" by force
  show ?thesis
  proof (cases "c \<in> {BAR, LPAR, RPAR, SEMI, AMP, LT}")
    case True
    then show ?thesis using assms(2) cu le sk [of u] by (auto simp: gettoken_def)
  next
    case ns: False
    show ?thesis
    proof (cases "c = GT")
      case True
      show ?thesis
      proof (cases u)
        case Nil
        then show ?thesis using True assms(2) cu le by (auto simp: gettoken_def)
      next
        case (Cons d v)
        then show ?thesis using True assms(2) cu le sk [of u] sk [of v] by (auto simp: gettoken_def split: if_splits)
      qed
    next
      case False
      have "\<not> is_sym c" using ns False by (simp add: is_sym_def symbols_def)
      then have "w \<noteq> []" using wx nw by (auto split: prod.splits)
      then have "length x < Suc (length u)" using take_word_le [OF wx] by (cases w) auto
      then show ?thesis using ns False assms(2) cu le wx sk [of x] by (auto simp: gettoken_def)
    qed
  qed
qed

lemma gettoken_le: "gettoken s = (t, q, r) \<Longrightarrow> length r \<le> length s"
  using gettoken_shorter [of s t q r] by (cases "skip_ws s = []") (auto simp: gettoken_def)

lemma peek_simps: "fst (peek s toks) \<Longrightarrow> skip_ws s \<noteq> []" "length (snd (peek s toks)) \<le> length s" "snd (peek s toks) = skip_ws s"
  by (simp_all add: peek_def Let_def skip_ws_le)

lemma skip_ws_idem [simp]: "skip_ws (skip_ws s) = skip_ws s"
  by (induction s rule: skip_ws.induct) auto

section \<open>The parser\<close>

definition redir_mode :: "uchar \<Rightarrow> (uint \<times> nat) option" where
  "redir_mode tok = (if tok = LT then Some (0, 0) else if tok = GT then Some (0x201, 1) else if tok = PLUS then Some (0x201, 1) else None)"

function parseredirs :: "cmd \<Rightarrow> cstr \<Rightarrow> (cmd \<times> cstr) pres" where
  "parseredirs c s =
     (let (b, s) = peek s [LT, GT] in
      if b then
        (let (tok, _, s) = gettoken s; (t, q, s) = gettoken s in
         if t \<noteq> TOK_A then PErr ''missing file for redirection''
         else parseredirs (case redir_mode tok of Some (m, fd) \<Rightarrow> Redir c q m fd | None \<Rightarrow> c) s)
      else POk (c, s))"
  by pat_completeness auto
termination
proof (relation "measure (\<lambda>(c, s). length s)", goal_cases)
  case (2 c s x b s1 y tok z u1 s2 w t v q s3)
  have p: "b" "s1 = skip_ws s" "skip_ws s1 \<noteq> []" using 2(1-3) by (auto simp: peek_def Let_def)
  have "length s2 < length s1" using gettoken_shorter [OF p(3)] 2(4-6) by metis
  moreover have "length s3 \<le> length s2" using gettoken_le 2(7-9) by metis
  ultimately show ?case using skip_ws_le [of s] p(2) by simp
qed simp

declare parseredirs.simps [simp del]

lemma parseredirs_le: "parseredirs c s = POk (d, r) \<Longrightarrow> length r \<le> length s"
proof (induction c s rule: parseredirs.induct)
  case (1 c s)
  obtain b s1 where p: "peek s [LT, GT] = (b, s1)" by force
  have s1: "length s1 \<le> length s" using peek_simps(2) [of s "[LT, GT]"] p by simp
  show ?case
  proof (cases b)
    case False
    then show ?thesis using 1(2) p s1 by (simp add: parseredirs.simps)
  next
    case True
    obtain tok q1 s2 where g1: "gettoken s1 = (tok, q1, s2)" by (cases "gettoken s1") auto
    obtain t q s3 where g2: "gettoken s2 = (t, q, s3)" by (cases "gettoken s2") auto
    have ta: "t = TOK_A" using 1(2) p True g1 g2 by (subst (asm) parseredirs.simps) (auto split: if_splits)
    have "parseredirs (case redir_mode tok of Some (m, fd) \<Rightarrow> Redir c q m fd | None \<Rightarrow> c) s3 = POk (d, r)"
      using 1(2) p True g1 g2 ta by (subst (asm) parseredirs.simps) auto
    from 1(1) [OF p [symmetric] refl True g1 [symmetric] refl refl g2 [symmetric] refl refl _ this] ta
    have "length r \<le> length s3" by simp
    then show ?thesis using gettoken_le [OF g1] gettoken_le [OF g2] s1 by simp
  qed
qed

lemma pbind_cong [fundef_cong]: "m = m' \<Longrightarrow> (\<And>x. m' = POk x \<Longrightarrow> f x = f' x) \<Longrightarrow> pbind m f = pbind m' f'"
  by (cases m') auto

text \<open>
  The argument loop of \<^verbatim>\<open>parseexec\<close>. The \<^verbatim>\<open>execcmd\<close> inside \<open>ret\<close> is filled in through the pointer \<^verbatim>\<open>cmd\<close> while redirections are wrapped
  around it: \<open>set_argv\<close>.
\<close>

fun set_argv :: "cstr list \<Rightarrow> cmd \<Rightarrow> cmd" where
  "set_argv args (Exec _) = Exec args"
| "set_argv args (Redir c f m fd) = Redir (set_argv args c) f m fd"
| "set_argv args c = c"

function parseargs :: "cmd \<Rightarrow> cstr list \<Rightarrow> cstr \<Rightarrow> (cmd \<times> cstr) pres" where
  "parseargs ret args s =
     (let (b, s) = peek s [BAR, RPAR, AMP, SEMI] in
      if b then POk (set_argv args ret, s)
      else
        (let (tok, q, s) = gettoken s in
         if tok = 0 then POk (set_argv args ret, s)
         else if tok \<noteq> TOK_A then PErr ''syntax''
         else if Suc (length args) \<ge> MAXARGS then PErr ''too many args''
         else pbind (parseredirs ret s) (\<lambda>(ret, s). parseargs ret (args @ [q]) s)))"
  by pat_completeness auto
termination
proof (relation "measure (\<lambda>(ret, args, s). length s)", goal_cases)
  case (2 ret args s x b s1 y tok z q s2 w ret' s3)
  have s1: "length s1 \<le> length s" "s1 = skip_ws s" using 2(1,2) peek_simps(2,3) [of s "[BAR, RPAR, AMP, SEMI]"] by (metis snd_conv)+
  have g: "gettoken s1 = (tok, q, s2)" using 2(4-6) by simp
  have "skip_ws s1 \<noteq> []" using g 2(7) by (auto simp: gettoken_def)
  then have "length s2 < length s1" using gettoken_shorter g by blast
  moreover have "length s3 \<le> length s2" using parseredirs_le 2(10,11) by metis
  ultimately show ?case using s1 by simp
qed simp

declare parseargs.simps [simp del]

function parseamps :: "cmd \<Rightarrow> cstr \<Rightarrow> cmd \<times> cstr" where
  "parseamps c s =
     (let (b, s) = peek s [AMP] in
      if b then (let (_, _, s) = gettoken s in parseamps (Back c) s) else (c, s))"
  by pat_completeness auto
termination
proof (relation "measure (\<lambda>(c, s). length s)", goal_cases)
  case (2 c s x b s1 y t z q s2)
  have s1: "length s1 \<le> length s" "s1 = skip_ws s" using 2(1,2) peek_simps(2,3) [of s "[AMP]"] by (metis snd_conv)+
  have "skip_ws s1 \<noteq> []" using 2(1-3) peek_simps(1) [of s "[AMP]"] s1(2) by (metis fst_conv skip_ws_idem)
  then have "length s2 < length s1" using gettoken_shorter [of s1 t q s2] 2(4-6) by simp
  then show ?case using s1 by simp
qed simp

declare parseamps.simps [simp del]

fun parseline :: "nat \<Rightarrow> cstr \<Rightarrow> (cmd \<times> cstr) pres"
and parsepipe :: "nat \<Rightarrow> cstr \<Rightarrow> (cmd \<times> cstr) pres"
and parseexec :: "nat \<Rightarrow> cstr \<Rightarrow> (cmd \<times> cstr) pres"
and parseblock :: "nat \<Rightarrow> cstr \<Rightarrow> (cmd \<times> cstr) pres" where
  "parseline 0 s = PFuel"
| "parseline (Suc n) s =
     pbind (parsepipe n s) (\<lambda>(c, s).
     let (c, s) = parseamps c s; (b, s) = peek s [SEMI] in
     if b then
       (let (_, _, s) = gettoken s in
        pbind (parseline n s) (\<lambda>(d, s). POk (Lst c d, s)))
     else POk (c, s))"
| "parsepipe 0 s = PFuel"
| "parsepipe (Suc n) s =
     pbind (parseexec n s) (\<lambda>(c, s).
     let (b, s) = peek s [BAR] in
     if b then
       (let (_, _, s) = gettoken s in
        pbind (parsepipe n s) (\<lambda>(d, s). POk (Pipe c d, s)))
     else POk (c, s))"
| "parseexec 0 s = PFuel"
| "parseexec (Suc n) s =
     (let (b, s) = peek s [LPAR] in
      if b then parseblock n s
      else pbind (parseredirs (Exec []) s) (\<lambda>(ret, s). parseargs ret [] s))"
| "parseblock 0 s = PFuel"
| "parseblock (Suc n) s =
     (let (b, s) = peek s [LPAR] in
      if \<not> b then PErr ''parseblock''
      else
        (let (_, _, s) = gettoken s in
         pbind (parseline n s) (\<lambda>(c, s).
         let (b, s) = peek s [RPAR] in
         if \<not> b then PErr ''syntax - missing )''
         else (let (_, _, s) = gettoken s in parseredirs c s))))"

definition parsecmd :: "cstr \<Rightarrow> cmd pres" where
  "parsecmd s =
     pbind (parseline (4 * length s + 4) s) (\<lambda>(c, s).
     let (_, s) = peek s [] in
     if s \<noteq> [] then PErr ''syntax'' else POk c)"

section \<open>The depth counter is never used up\<close>

lemma parseamps_le: "parseamps c s = (d, r) \<Longrightarrow> length r \<le> length s"
proof (induction c s rule: parseamps.induct)
  case (1 c s)
  obtain b s1 where p: "peek s [AMP] = (b, s1)" by force
  obtain t q s2 where g: "gettoken s1 = (t, q, s2)" by (cases "gettoken s1") auto
  have s1: "length s1 \<le> length s" using peek_simps(2) [of s "[AMP]"] p by simp
  show ?case
  proof (cases b)
    case True
    then have "parseamps (Back c) s2 = (d, r)" using 1(2) p g by (subst (asm) parseamps.simps) simp
    from 1(1) [OF p [symmetric] refl True g [symmetric] refl refl this] show ?thesis using gettoken_le [OF g] s1 by simp
  next
    case False
    then show ?thesis using 1(2) p s1 by (subst (asm) parseamps.simps) simp
  qed
qed

lemma parseredirs_ok: "parseredirs c s \<noteq> PFuel"
proof (induction c s rule: parseredirs.induct)
  case (1 c s)
  then show ?case by (subst parseredirs.simps) (auto simp: Let_def split: prod.split)
qed

lemma parseargs_ok: "parseargs ret args s \<noteq> PFuel" "parseargs ret args s = POk (d, r) \<Longrightarrow> length r \<le> length s"
proof -
  have pr: "parseredirs c s \<noteq> PFuel" for c s by (rule parseredirs_ok)
  have "parseargs ret args s \<noteq> PFuel \<and> (\<forall>d r. parseargs ret args s = POk (d, r) \<longrightarrow> length r \<le> length s)"
  proof (induction ret args s rule: parseargs.induct)
    case (1 ret args s)
    obtain b s1 where p: "peek s [BAR, RPAR, AMP, SEMI] = (b, s1)" by force
    obtain tok q s2 where g: "gettoken s1 = (tok, q, s2)" by (cases "gettoken s1") auto
    have s1: "length s1 \<le> length s" using peek_simps(2) [of s "[BAR, RPAR, AMP, SEMI]"] p by simp
    have s2: "length s2 \<le> length s1" using gettoken_le [OF g] .
    show ?case
    proof (cases "\<not> b \<and> tok \<noteq> 0 \<and> tok = TOK_A \<and> \<not> Suc (length args) \<ge> MAXARGS")
      case False
      then show ?thesis using p g s1 s2 by (subst (1 2) parseargs.simps) auto
    next
      case True
      have run: "parseargs ret args s = pbind (parseredirs ret s2) (\<lambda>(ret, s). parseargs ret (args @ [q]) s)"
        using True p g by (subst parseargs.simps) simp
      show ?thesis
      proof (cases "parseredirs ret s2")
        case (POk x)
        obtain ret' s3 where x: "x = (ret', s3)" by force
        have ih: "parseargs ret' (args @ [q]) s3 \<noteq> PFuel \<and> (\<forall>d r. parseargs ret' (args @ [q]) s3 = POk (d, r) \<longrightarrow> length r \<le> length s3)"
          using 1 [OF p [symmetric] refl _ g [symmetric] refl refl _ _ _ POk x [symmetric]] True by simp
        have "length s3 \<le> length s2" using parseredirs_le POk x by blast
        then show ?thesis unfolding run POk x using ih s1 s2 by fastforce
      next
        case (PErr e)
        then show ?thesis unfolding run by simp
      next
        case PFuel
        then show ?thesis using pr by blast
      qed
    qed
  qed
  then show "parseargs ret args s \<noteq> PFuel" "parseargs ret args s = POk (d, r) \<Longrightarrow> length r \<le> length s" by blast+
qed

lemma peek_token:
  assumes "peek s toks = (True, s1)" "gettoken s1 = (t, q, r)"
  shows "length r < length s"
proof -
  have "s1 = skip_ws s" "skip_ws s1 \<noteq> []" using assms(1) by (auto simp: peek_def Let_def)
  then show ?thesis using gettoken_shorter [OF _ assms(2)] skip_ws_le [of s] by force
qed

definition consumed :: "cstr \<Rightarrow> (cmd \<times> cstr) pres \<Rightarrow> bool" where
  "consumed s p \<longleftrightarrow> p \<noteq> PFuel \<and> (\<forall>c r. p = POk (c, r) \<longrightarrow> length r \<le> length s)"

lemma consumed_bind:
  assumes "consumed s m" "\<And>c r. m = POk (c, r) \<Longrightarrow> length r \<le> length s \<Longrightarrow> consumed s (f (c, r))"
  shows "consumed s (pbind m f)"
  using assms by (cases m) (auto simp: consumed_def)

lemma consumed_POk: "consumed s (POk (c, r)) \<longleftrightarrow> length r \<le> length s" "consumed s (PErr e)"
  by (auto simp: consumed_def)

lemma consumed_le: "consumed r p \<Longrightarrow> length r \<le> length s \<Longrightarrow> consumed s p"
  by (fastforce simp: consumed_def)

lemma parse_fuel:
  "(4 * length s + 4 \<le> n \<longrightarrow> consumed s (parseline n s)) \<and> (4 * length s + 3 \<le> n \<longrightarrow> consumed s (parsepipe n s)) \<and>
   (4 * length s + 2 \<le> n \<longrightarrow> consumed s (parseexec n s)) \<and> (4 * length s + 1 \<le> n \<longrightarrow> consumed s (parseblock n s))"
proof (induction n arbitrary: s)
  case 0
  then show ?case by simp
next
  case (Suc n)
  note ih = Suc.IH
  have line: "consumed s (parseline (Suc n) s)" if n: "4 * length s + 4 \<le> Suc n"
    unfolding parseline.simps
  proof (rule consumed_bind)
    show "consumed s (parsepipe n s)" using ih [of s] n by simp
    fix c and r :: cstr assume le: "length r \<le> length s"
    obtain c1 r1 where a: "parseamps c r = (c1, r1)" by force
    obtain b r2 where p: "peek r1 [SEMI] = (b, r2)" by force
    obtain t q r3 where g: "gettoken r2 = (t, q, r3)" by (cases "gettoken r2") auto
    have r1: "length r1 \<le> length s" using parseamps_le [OF a] le by simp
    have r2: "length r2 \<le> length r1" using peek_simps(2) [of r1 "[SEMI]"] p by simp
    show "consumed s ((\<lambda>(c, s). let (c, s) = parseamps c s; (b, s) = peek s [SEMI] in
      if b then let (_, _, s) = gettoken s in pbind (parseline n s) (\<lambda>(d, s). POk (Lst c d, s)) else POk (c, s)) (c, r))"
    proof (cases b)
      case True
      then have lt: "length r3 < length s" using peek_token [of r1 "[SEMI]" r2 t q r3] p g r1 by simp
      then have "consumed s (parseline n r3)" using ih [of r3] n consumed_le [of r3 "parseline n r3" s] by simp
      then show ?thesis using a p g True by (auto intro!: consumed_bind simp: consumed_POk)
    next
      case False
      then show ?thesis using a p r1 r2 by (simp add: consumed_POk)
    qed
  qed
  have pipe: "consumed s (parsepipe (Suc n) s)" if n: "4 * length s + 3 \<le> Suc n"
    unfolding parsepipe.simps
  proof (rule consumed_bind)
    show "consumed s (parseexec n s)" using ih [of s] n by simp
    fix c and r :: cstr assume le: "length r \<le> length s"
    obtain b r2 where p: "peek r [BAR] = (b, r2)" by force
    obtain t q r3 where g: "gettoken r2 = (t, q, r3)" by (cases "gettoken r2") auto
    have r2: "length r2 \<le> length s" using peek_simps(2) [of r "[BAR]"] p le by simp
    show "consumed s ((\<lambda>(c, s). let (b, s) = peek s [BAR] in
      if b then let (_, _, s) = gettoken s in pbind (parsepipe n s) (\<lambda>(d, s). POk (Pipe c d, s)) else POk (c, s)) (c, r))"
    proof (cases b)
      case True
      then have lt: "length r3 < length s" using peek_token [of r "[BAR]" r2 t q r3] p g le by simp
      then have "consumed s (parsepipe n r3)" using ih [of r3] n consumed_le [of r3 "parsepipe n r3" s] by simp
      then show ?thesis using p g True by (auto intro!: consumed_bind simp: consumed_POk)
    next
      case False
      then show ?thesis using p r2 by (simp add: consumed_POk)
    qed
  qed
  have exec: "consumed s (parseexec (Suc n) s)" if n: "4 * length s + 2 \<le> Suc n"
  proof -
    obtain b s1 where p: "peek s [LPAR] = (b, s1)" by force
    have s1: "length s1 \<le> length s" using peek_simps(2) [of s "[LPAR]"] p by simp
    have "consumed s1 (parseblock n s1)" using ih [of s1] n s1 by simp
    moreover have "consumed s1 (pbind (parseredirs (Exec []) s1) (\<lambda>(ret, s). parseargs ret [] s))"
    proof (rule consumed_bind)
      show "consumed s1 (parseredirs (Exec []) s1)" using parseredirs_ok parseredirs_le by (auto simp: consumed_def)
      show "consumed s1 ((\<lambda>(ret, s). parseargs ret [] s) (c, r))" if "length r \<le> length s1" for c and r :: cstr
        using parseargs_ok [of c "[]" r] that by (fastforce simp: consumed_def)
    qed
    ultimately show ?thesis using p consumed_le [OF _ s1] by simp
  qed
  have block: "consumed s (parseblock (Suc n) s)" if n: "4 * length s + 1 \<le> Suc n"
  proof -
    obtain b s1 where p: "peek s [LPAR] = (b, s1)" by force
    obtain t q s2 where g: "gettoken s1 = (t, q, s2)" by (cases "gettoken s1") auto
    show ?thesis
    proof (cases b)
      case True
      have lt: "length s2 < length s" using peek_token [of s "[LPAR]" s1 t q s2] p g True by simp
      let ?f = "\<lambda>(c, s). let (b, s) = peek s [RPAR] in if \<not> b then PErr ''syntax - missing )''
         else let (_, _, s) = gettoken s in parseredirs c s"
      have "consumed s (pbind (parseline n s2) ?f)"
      proof (rule consumed_bind)
        show "consumed s (parseline n s2)" using ih [of s2] n lt consumed_le [of s2 "parseline n s2" s] by simp
        fix c and r :: cstr assume le: "length r \<le> length s"
        obtain b3 s3 where p3: "peek r [RPAR] = (b3, s3)" by force
        obtain t3 q3 s4 where g3: "gettoken s3 = (t3, q3, s4)" by (cases "gettoken s3") auto
        have "length s4 \<le> length s" using gettoken_le [OF g3] peek_simps(2) [of r "[RPAR]"] p3 le by simp
        then show "consumed s (?f (c, r))"
          using p3 g3 parseredirs_ok [of c s4] parseredirs_le [of c s4] by (fastforce simp: consumed_def)
      qed
      then show ?thesis using p g True by simp
    next
      case False
      then show ?thesis using p by (simp add: consumed_POk)
    qed
  qed
  show ?case using line pipe exec block by blast
qed

text \<open>A larger depth counter gives the same result.\<close>

definition ple :: "'a pres \<Rightarrow> 'a pres \<Rightarrow> bool" where
  "ple p q \<longleftrightarrow> p \<noteq> PFuel \<longrightarrow> q = p"

lemma ple_refl [simp]: "ple p p"
  by (simp add: ple_def)

lemma ple_bind: "ple m m' \<Longrightarrow> (\<And>x. ple (f x) (f' x)) \<Longrightarrow> ple (pbind m f) (pbind m' f')"
  by (cases m) (auto simp: ple_def)

lemma parse_mono_Suc:
  "ple (parseline n s) (parseline (Suc n) s) \<and> ple (parsepipe n s) (parsepipe (Suc n) s) \<and>
   ple (parseexec n s) (parseexec (Suc n) s) \<and> ple (parseblock n s) (parseblock (Suc n) s)"
proof (induction n arbitrary: s)
  case 0
  then show ?case by (simp add: ple_def)
next
  case (Suc n)
  have l: "ple (parseline (Suc n) s) (parseline (Suc (Suc n)) s)"
    unfolding parseline.simps(2)
    by (rule ple_bind) (use Suc in \<open>auto intro!: ple_bind simp: Let_def split: prod.split\<close>)
  have p: "ple (parsepipe (Suc n) s) (parsepipe (Suc (Suc n)) s)"
    unfolding parsepipe.simps(2)
    by (rule ple_bind) (use Suc in \<open>auto intro!: ple_bind simp: Let_def split: prod.split\<close>)
  have e: "ple (parseexec (Suc n) s) (parseexec (Suc (Suc n)) s)"
    unfolding parseexec.simps(2) using Suc by (auto simp: Let_def split: prod.split)
  have b: "ple (parseblock (Suc n) s) (parseblock (Suc (Suc n)) s)"
    unfolding parseblock.simps(2) using Suc by (auto intro!: ple_bind simp: Let_def split: prod.split)
  show ?case using l p e b by blast
qed

declare parseline.simps [simp del] parsepipe.simps [simp del] parseexec.simps [simp del] parseblock.simps [simp del]

lemma ple_POk: "ple p q \<Longrightarrow> p = POk x \<Longrightarrow> q = POk x"
  by (simp add: ple_def)

lemma mono_chain:
  assumes "\<And>n. ple (f n) (f (Suc n))" "n \<le> m" "f n = POk x"
  shows "f m = POk x"
  using assms(2)
proof (induction m rule: dec_induct)
  case base
  show ?case by (rule assms(3))
next
  case (step m)
  then show ?case using ple_POk [OF assms(1)] by blast
qed

lemma parse_mono:
  "parseline n s = POk x \<Longrightarrow> n \<le> m \<Longrightarrow> parseline m s = POk x" "parsepipe n s = POk x \<Longrightarrow> n \<le> m \<Longrightarrow> parsepipe m s = POk x"
  "parseexec n s = POk x \<Longrightarrow> n \<le> m \<Longrightarrow> parseexec m s = POk x" "parseblock n s = POk x \<Longrightarrow> n \<le> m \<Longrightarrow> parseblock m s = POk x"
  using mono_chain [of "\<lambda>n. parseline n s"] mono_chain [of "\<lambda>n. parsepipe n s"]
    mono_chain [of "\<lambda>n. parseexec n s"] mono_chain [of "\<lambda>n. parseblock n s"] parse_mono_Suc [of _ s] by blast+

section \<open>Printing commands\<close>

text \<open>
  A printer for commands: level 0 is a line, 1 a command with its ampersands, 2 a pipeline, 3 a single command; a command that does
  not belong on a level is put in parentheses.
\<close>

definition pr_redir :: "cstr \<Rightarrow> nat \<Rightarrow> cstr" where
  "pr_redir f fd = (if fd = 0 then LT else GT) # f @ [32]"

definition pr_words :: "cstr list \<Rightarrow> cstr" where
  "pr_words args = concat (map (\<lambda>w. w @ [32]) args)"

definition paren :: "bool \<Rightarrow> cstr \<Rightarrow> cstr" where
  "paren b s = (if b then LPAR # s @ [RPAR] else s)"

fun pr :: "nat \<Rightarrow> cmd \<Rightarrow> cstr" where
  "pr l (Exec args) = pr_words args"
| "pr l (Redir c f m fd) = pr 3 c @ pr_redir f fd"
| "pr l (Pipe a b) = paren (l > 2) (pr 3 a @ BAR # pr 2 b)"
| "pr l (Back c) = paren (l > 1) (pr 1 c @ [AMP])"
| "pr l (Lst a b) = paren (l > 0) (pr 1 a @ SEMI # pr 0 b)"

text \<open>Commands the parser can produce: words are nonempty and contain no NUL, no white space and no symbols.\<close>

definition word_ok :: "cstr \<Rightarrow> bool" where
  "word_ok w \<longleftrightarrow> w \<noteq> [] \<and> (\<forall>c \<in> set w. c \<noteq> 0 \<and> \<not> is_ws c \<and> \<not> is_sym c)"

fun cmd_ok :: "cmd \<Rightarrow> bool" where
  "cmd_ok (Exec args) \<longleftrightarrow> length args < MAXARGS \<and> (\<forall>w \<in> set args. word_ok w)"
| "cmd_ok (Redir c f m fd) \<longleftrightarrow> cmd_ok c \<and> word_ok f \<and> (m, fd) \<in> {(0, 0), (0x201, 1)}"
| "cmd_ok (Pipe a b) \<longleftrightarrow> cmd_ok a \<and> cmd_ok b"
| "cmd_ok (Lst a b) \<longleftrightarrow> cmd_ok a \<and> cmd_ok b"
| "cmd_ok (Back c) \<longleftrightarrow> cmd_ok c"

section \<open>Parsing printed text\<close>

definition starts :: "uchar set \<Rightarrow> cstr \<Rightarrow> bool" where
  "starts S s \<longleftrightarrow> s = [] \<or> hd s \<in> S"

lemma syms_not_ws: "is_sym c \<Longrightarrow> \<not> is_ws c"
  by (auto simp: is_sym_def is_ws_def symbols_def whitespace_def)

lemma sym_facts [simp]: "is_sym LT" "is_sym GT" "is_sym BAR" "is_sym AMP" "is_sym SEMI" "is_sym LPAR" "is_sym RPAR" "is_ws 32"
  "\<not> is_ws LT" "\<not> is_ws GT" "\<not> is_ws BAR" "\<not> is_ws AMP" "\<not> is_ws SEMI" "\<not> is_ws LPAR" "\<not> is_ws RPAR"
  by (simp_all add: is_sym_def is_ws_def symbols_def whitespace_def)

text \<open>Text that does not begin with white space.\<close>

definition tight :: "cstr \<Rightarrow> bool" where
  "tight s \<longleftrightarrow> s = [] \<or> \<not> is_ws (hd s)"

lemma tight_skip: "tight s \<Longrightarrow> skip_ws s = s"
  by (cases s) (simp_all add: tight_def)

lemma tight_Cons [simp]: "tight (c # s) \<longleftrightarrow> \<not> is_ws c" "tight []"
  by (simp_all add: tight_def)

lemma starts_tight: "starts S s \<Longrightarrow> (\<And>c. c \<in> S \<Longrightarrow> is_sym c) \<Longrightarrow> tight s"
  by (cases s) (auto simp: starts_def syms_not_ws)

lemma take_word_word:
  assumes "\<forall>c \<in> set w. \<not> is_ws c \<and> \<not> is_sym c"
  shows "take_word (w @ 32 # r) = (w, 32 # r)"
  using assms by (induction w) simp_all

lemma gettoken_word:
  assumes "word_ok w" "tight r"
  shows "gettoken (w @ 32 # r) = (TOK_A, w, r)"
proof -
  obtain c v where w: "w = c # v" using assms(1) by (cases w) (auto simp: word_ok_def)
  have c: "\<not> is_ws c" "\<not> is_sym c" using assms(1) w by (simp_all add: word_ok_def)
  then have "c \<notin> {BAR, LPAR, RPAR, SEMI, AMP, LT}" "c \<noteq> GT" by (auto simp: is_sym_def symbols_def)
  moreover have "take_word (w @ 32 # r) = (w, 32 # r)" using assms(1) by (intro take_word_word) (simp add: word_ok_def)
  ultimately show ?thesis using c w tight_skip [OF assms(2)] by (simp add: gettoken_def)
qed

lemma gettoken_sym:
  assumes "c \<in> {BAR, LPAR, RPAR, SEMI, AMP, LT}" "tight r"
  shows "gettoken (c # r) = (c, [c], r)"
proof -
  have "\<not> is_ws c" using assms(1) by (auto simp: is_ws_def whitespace_def)
  then show ?thesis using assms tight_skip [OF assms(2)] by (auto simp: gettoken_def)
qed

lemma gettoken_gt:
  assumes "word_ok w"
  shows "gettoken (GT # w @ r) = (GT, [GT], w @ r)"
proof -
  obtain c v where w: "w = c # v" using assms by (cases w) (auto simp: word_ok_def)
  have "\<not> is_ws c" "c \<noteq> GT" using assms w by (auto simp: word_ok_def)
  then show ?thesis using w by (simp add: gettoken_def)
qed

lemma peek_tight: "tight s \<Longrightarrow> peek s toks = (s \<noteq> [] \<and> hd s \<in> set toks, s)"
  by (simp add: peek_def tight_skip)

text \<open>Redirections.\<close>

definition pr_redirs :: "(cstr \<times> uint \<times> nat) list \<Rightarrow> cstr" where
  "pr_redirs rs = concat (map (\<lambda>(f, m, fd). pr_redir f fd) rs)"

definition redirs_ok :: "(cstr \<times> uint \<times> nat) list \<Rightarrow> bool" where
  "redirs_ok rs \<longleftrightarrow> (\<forall>(f, m, fd) \<in> set rs. word_ok f \<and> (m, fd) \<in> {(0, 0), (0x201, 1)})"

definition wrap :: "cmd \<Rightarrow> (cstr \<times> uint \<times> nat) list \<Rightarrow> cmd" where
  "wrap c rs = foldl (\<lambda>c (f, m, fd). Redir c f m fd) c rs"

lemma word_tight: "word_ok w \<Longrightarrow> tight (w @ r)"
  by (cases w) (auto simp: word_ok_def)

lemma parseredirs_none: "tight s \<Longrightarrow> s = [] \<or> hd s \<notin> {LT, GT} \<Longrightarrow> parseredirs c s = POk (c, s)"
  by (subst parseredirs.simps) (auto simp: peek_tight)

lemma parseredirs_pr:
  assumes "redirs_ok rs" "tight r" "r = [] \<or> hd r \<notin> {LT, GT}"
  shows "parseredirs c (pr_redirs rs @ r) = POk (wrap c rs, r)"
  using assms(1)
proof (induction rs arbitrary: c)
  case Nil
  then show ?case using parseredirs_none assms by (simp add: pr_redirs_def wrap_def)
next
  case (Cons x rs)
  obtain f m fd where x: "x = (f, m, fd)" by (cases x) auto
  have f: "word_ok f" "(m, fd) \<in> {(0, 0), (0x201, 1)}" and rs: "redirs_ok rs" using Cons.prems x by (auto simp: redirs_ok_def)
  let ?op = "if fd = 0 then LT else GT" and ?r = "pr_redirs rs @ r"
  have tr: "tight ?r" using assms(2) by (cases rs) (auto simp: pr_redirs_def pr_redir_def split: prod.splits)
  have s: "pr_redirs (x # rs) @ r = ?op # f @ 32 # ?r" by (simp add: pr_redirs_def pr_redir_def x)
  have t: "tight (?op # f @ 32 # ?r)" by simp
  have g1: "gettoken (?op # f @ 32 # ?r) = (?op, [?op], f @ 32 # ?r)"
    using gettoken_sym [of LT "f @ 32 # ?r"] gettoken_gt [OF f(1), of "32 # ?r"] word_tight [OF f(1)] by simp
  have g2: "gettoken (f @ 32 # ?r) = (TOK_A, f, ?r)" by (rule gettoken_word [OF f(1) tr])
  have m: "redir_mode ?op = Some (m, fd)" using f(2) by (auto simp: redir_mode_def)
  have "parseredirs c (?op # f @ 32 # ?r) = parseredirs (Redir c f m fd) ?r"
    by (subst parseredirs.simps) (simp add: peek_tight [OF t] g1 [simplified] g2 m [simplified])
  then show ?case using Cons.IH [OF rs, of "Redir c f m fd"] s by (simp add: wrap_def x)
qed

text \<open>Simple commands.\<close>

abbreviation (input) enders :: "uchar set" where "enders \<equiv> {BAR, RPAR, AMP, SEMI}"

lemma enders_tight: "starts enders r \<Longrightarrow> tight r"
  by (rule starts_tight) auto

lemma starts_not: "starts (set cs) r \<Longrightarrow> \<forall>x \<in> set cs. is_sym x \<Longrightarrow> c \<notin> set cs \<Longrightarrow> peek r [c] = (False, r)"
  using starts_tight [of "set cs" r] by (auto simp: peek_tight starts_def)

lemma set_argv_wrap: "set_argv args (wrap (Exec x) rs) = wrap (Exec args) rs"
proof -
  have "set_argv args (wrap c rs) = wrap (set_argv args c) rs" for c
    by (induction rs arbitrary: c) (auto simp: wrap_def)
  then show ?thesis by simp
qed

lemma parseargs_end: "starts enders r \<Longrightarrow> parseargs ret args r = POk (set_argv args ret, r)"
  using enders_tight [of r] by (subst parseargs.simps) (cases r, auto simp: peek_tight starts_def gettoken_def)

lemma pr_words_simps [simp]: "pr_words [] = []" "pr_words (w # ws) = w @ 32 # pr_words ws"
  by (simp_all add: pr_words_def)

lemma word_hd: "word_ok w \<Longrightarrow> w \<noteq> [] \<and> \<not> is_sym (hd (w @ r)) \<and> \<not> is_ws (hd (w @ r))"
  by (cases w) (auto simp: word_ok_def)

lemma tight_rest:
  assumes "\<forall>w \<in> set ws. word_ok w" "starts enders r"
  shows "tight (pr_words ws @ pr_redirs rs @ r)"
proof (cases ws)
  case Nil
  then show ?thesis using enders_tight [OF assms(2)] by (cases rs) (auto simp: pr_redirs_def pr_redir_def split: prod.splits)
next
  case (Cons w ws)
  then show ?thesis using assms(1) word_tight by simp
qed

lemma parseargs_pr:
  assumes rs: "redirs_ok rs" and r: "starts enders r"
  shows "ws \<noteq> [] \<Longrightarrow> \<forall>w \<in> set ws. word_ok w \<Longrightarrow> length args + length ws < MAXARGS \<Longrightarrow>
     parseargs (Exec []) args (pr_words ws @ pr_redirs rs @ r) = POk (wrap (Exec (args @ ws)) rs, r)"
proof (induction ws arbitrary: args)
  case (Cons w ws)
  let ?r = "pr_words ws @ pr_redirs rs @ r"
  have w: "word_ok w" and ws: "\<forall>w \<in> set ws. word_ok w" using Cons.prems(2) by simp_all
  have tr: "tight ?r" by (rule tight_rest [OF ws r])
  have hd: "hd (w @ 32 # ?r) \<notin> enders" using word_hd [OF w, of "32 # ?r"] by (auto simp: is_sym_def symbols_def)
  have run: "parseargs (Exec []) args (w @ 32 # ?r) = pbind (parseredirs (Exec []) ?r) (\<lambda>(ret, s). parseargs ret (args @ [w]) s)"
    using Cons.prems(3) hd gettoken_word [OF w tr] by (subst parseargs.simps) (simp add: peek_tight [OF word_tight [OF w]])
  show ?case
  proof (cases ws)
    case Nil
    have "parseredirs (Exec []) ?r = POk (wrap (Exec []) rs, r)"
      using parseredirs_pr [OF rs enders_tight [OF r]] r Nil by (auto simp: starts_def)
    then show ?thesis using run parseargs_end [OF r, of "wrap (Exec []) rs" "args @ [w]"] Nil by (simp add: set_argv_wrap)
  next
    case c: (Cons v vs)
    have "\<not> is_sym (hd ?r)" using word_hd [of v "[]"] ws c by simp
    then have "hd ?r \<notin> {LT, GT}" by auto
    then have "parseredirs (Exec []) ?r = POk (Exec [], ?r)" using parseredirs_none [OF tr] by blast
    then show ?thesis using run Cons.IH [of "args @ [w]"] Cons.prems(3) ws c by simp
  qed
qed simp

lemma parseexec_words:
  assumes "cmd_ok (Exec ws)" "redirs_ok rs" "starts enders r"
  shows "parseexec (Suc n) (pr_words ws @ pr_redirs rs @ r) = POk (wrap (Exec ws) rs, r)"
proof -
  let ?s = "pr_words ws @ pr_redirs rs @ r"
  have ws: "\<forall>w \<in> set ws. word_ok w" "length ws < MAXARGS" using assms(1) by simp_all
  have t: "tight ?s" by (rule tight_rest [OF ws(1) assms(3)])
  show ?thesis
  proof (cases ws)
    case Nil
    have "?s = [] \<or> hd ?s \<noteq> LPAR"
      using Nil assms(3) by (cases rs) (auto simp: starts_def pr_redirs_def pr_redir_def split: prod.splits)
    moreover have "parseredirs (Exec []) ?s = POk (wrap (Exec []) rs, r)"
      using parseredirs_pr [OF assms(2) enders_tight [OF assms(3)]] assms(3) Nil by (auto simp: starts_def)
    ultimately show ?thesis using Nil t parseargs_end [OF assms(3), of "wrap (Exec []) rs" "[]"]
      by (auto simp: parseexec.simps peek_tight set_argv_wrap)
  next
    case (Cons v vs)
    have "\<not> is_sym (hd ?s)" using word_hd [of v "[]"] ws(1) Cons by simp
    then have h: "hd ?s \<noteq> LPAR" "hd ?s \<notin> {LT, GT}" by auto
    then have "parseredirs (Exec []) ?s = POk (Exec [], ?s)" using parseredirs_none [OF t] by blast
    moreover have "parseargs (Exec []) [] ?s = POk (wrap (Exec ws) rs, r)"
      using parseargs_pr [OF assms(2,3), of ws "[]"] ws Cons by simp
    ultimately show ?thesis using h(1) by (simp add: parseexec.simps peek_tight [OF t])
  qed
qed

text \<open>
  What the parser does with a printed command on each level: \<open>lvl3\<close> to \<open>lvl0\<close>, for a text that goes on with what may follow there.
\<close>

definition lvl3 :: "cmd \<Rightarrow> bool" where
  "lvl3 c \<longleftrightarrow> (\<forall>rs r. redirs_ok rs \<longrightarrow> starts enders r \<longrightarrow> (\<exists>n. parseexec n (pr 3 c @ pr_redirs rs @ r) = POk (wrap c rs, r)))"

definition lvl2 :: "cmd \<Rightarrow> bool" where
  "lvl2 c \<longleftrightarrow> (\<forall>r. starts {RPAR, AMP, SEMI} r \<longrightarrow> (\<exists>n. parsepipe n (pr 2 c @ r) = POk (c, r)))"

definition lvl1 :: "cmd \<Rightarrow> bool" where
  "lvl1 c \<longleftrightarrow> (\<forall>r k. starts {RPAR, SEMI} r \<longrightarrow>
     (\<exists>n c0 r0. parsepipe n (pr 1 c @ replicate k AMP @ r) = POk (c0, r0) \<and> parseamps c0 r0 = ((Back ^^ k) c, r)))"

definition lvl0 :: "cmd \<Rightarrow> bool" where
  "lvl0 c \<longleftrightarrow> (\<forall>r. starts {RPAR} r \<longrightarrow> (\<exists>n. parseline n (pr 0 c @ r) = POk (c, r)))"

lemma lvl3D: "lvl3 c \<Longrightarrow> starts enders r \<Longrightarrow> \<exists>n. parseexec n (pr 3 c @ r) = POk (c, r)"
  unfolding lvl3_def by (drule spec [of _ "[]"]) (simp add: redirs_ok_def pr_redirs_def wrap_def)

lemma lvl1D: "lvl1 c \<Longrightarrow> starts {RPAR, SEMI} r \<Longrightarrow> \<exists>n c0 r0. parsepipe n (pr 1 c @ r) = POk (c0, r0) \<and> parseamps c0 r0 = (c, r)"
  unfolding lvl1_def by (drule spec [of _ r], drule spec [of _ 0]) simp

lemma lvl0D: "lvl0 c \<Longrightarrow> starts {RPAR} r \<Longrightarrow> \<exists>n. parseline n (pr 0 c @ r) = POk (c, r)"
  by (simp add: lvl0_def)

lemma pr_tight: "cmd_ok c \<Longrightarrow> tight r \<Longrightarrow> tight (pr l c @ r)"
proof (induction c arbitrary: l r)
  case (Exec args)
  then show ?case by (cases args) (simp_all add: word_tight)
qed (auto simp: paren_def pr_redir_def)

lemma lvl32:
  assumes "lvl3 c" "pr 2 c = pr 3 c"
  shows "lvl2 c"
  unfolding lvl2_def
proof (intro allI impI)
  fix r :: cstr assume r: "starts {RPAR, AMP, SEMI} r"
  then have "starts enders r" by (auto simp: starts_def)
  then obtain n where "parseexec n (pr 3 c @ r) = POk (c, r)"
    using lvl3D [OF assms(1)] by blast
  moreover have "peek r [BAR] = (False, r)" using starts_not [of "[RPAR, AMP, SEMI]" r BAR] r by simp
  ultimately have "parsepipe (Suc n) (pr 2 c @ r) = POk (c, r)" using assms(2) by (simp add: parsepipe.simps)
  then show "\<exists>n. parsepipe n (pr 2 c @ r) = POk (c, r)" by blast
qed

lemma parseamps_pr:
  assumes "starts {RPAR, SEMI} r"
  shows "parseamps c (replicate k AMP @ r) = ((Back ^^ k) c, r)"
proof (induction k arbitrary: c)
  case 0
  have "peek r [AMP] = (False, r)" using starts_not [of "[RPAR, SEMI]" r AMP] assms by simp
  then show ?case by (simp add: parseamps.simps)
next
  case (Suc k)
  have "tight r" by (rule starts_tight [OF assms]) auto
  then have t: "tight (replicate k AMP @ r)" by (cases k) auto
  have "parseamps c (AMP # replicate k AMP @ r) = parseamps (Back c) (replicate k AMP @ r)"
    using gettoken_sym [of AMP, OF _ t] by (subst parseamps.simps) (simp add: peek_tight)
  then show ?case using Suc [of "Back c"] by (simp add: funpow_swap1)
qed

lemma lvl21:
  assumes "lvl2 c" "pr 1 c = pr 2 c"
  shows "lvl1 c"
  unfolding lvl1_def
proof (intro allI impI)
  fix r :: cstr and k assume r: "starts {RPAR, SEMI} r"
  then have "starts {RPAR, AMP, SEMI} (replicate k AMP @ r)" by (cases k) (auto simp: starts_def)
  then obtain n where "parsepipe n (pr 2 c @ replicate k AMP @ r) = POk (c, replicate k AMP @ r)" using assms(1) by (auto simp: lvl2_def)
  then show "\<exists>n c0 r0. parsepipe n (pr 1 c @ replicate k AMP @ r) = POk (c0, r0) \<and> parseamps c0 r0 = ((Back ^^ k) c, r)"
    using parseamps_pr [OF r, of c k] assms(2) by auto
qed

lemma lvl10:
  assumes "lvl1 c" "pr 0 c = pr 1 c"
  shows "lvl0 c"
  unfolding lvl0_def
proof (intro allI impI)
  fix r :: cstr assume r: "starts {RPAR} r"
  then have "starts {RPAR, SEMI} r" by (auto simp: starts_def)
  then obtain n c0 r0 where "parsepipe n (pr 1 c @ r) = POk (c0, r0)" "parseamps c0 r0 = (c, r)"
    using lvl1D [OF assms(1)] by blast
  moreover have "peek r [SEMI] = (False, r)" using starts_not [of "[RPAR]" r SEMI] r by simp
  ultimately have "parseline (Suc n) (pr 0 c @ r) = POk (c, r)" using assms(2) by (simp add: parseline.simps)
  then show "\<exists>n. parseline n (pr 0 c @ r) = POk (c, r)" by blast
qed

lemma lvl03:
  assumes ok: "cmd_ok c" and l: "lvl0 c" "pr 3 c = LPAR # pr 0 c @ [RPAR]"
  shows "lvl3 c"
  unfolding lvl3_def
proof (intro allI impI)
  fix rs and r :: cstr assume rs: "redirs_ok rs" and r: "starts enders r"
  let ?r = "pr_redirs rs @ r"
  have t: "tight ?r" using tight_rest [of "[]" r rs] r by simp
  obtain n where n: "parseline n (pr 0 c @ RPAR # ?r) = POk (c, RPAR # ?r)" 
    using lvl0D [OF l(1), of "RPAR # ?r"] by (auto simp: starts_def)
  have g1: "gettoken (LPAR # pr 0 c @ RPAR # ?r) = (LPAR, [LPAR], pr 0 c @ RPAR # ?r)"
    by (rule gettoken_sym) (use pr_tight [OF ok] in simp_all)
  have g2: "gettoken (RPAR # ?r) = (RPAR, [RPAR], ?r)" by (rule gettoken_sym) (use t in simp_all)
  have "parseredirs c ?r = POk (wrap c rs, r)"
    using parseredirs_pr [OF rs enders_tight [OF r]] r by (auto simp: starts_def)
  then have "parseblock (Suc n) (LPAR # pr 0 c @ RPAR # ?r) = POk (wrap c rs, r)"
    using n g1 g2 by (simp add: parseblock.simps peek_tight)
  then have "parseexec (Suc (Suc n)) (pr 3 c @ ?r) = POk (wrap c rs, r)"
    using l(2) by (simp add: parseexec.simps peek_tight)
  then show "\<exists>n. parseexec n (pr 3 c @ ?r) = POk (wrap c rs, r)" by blast
qed

lemma levels: "cmd_ok c \<Longrightarrow> lvl3 c \<and> lvl2 c \<and> lvl1 c \<and> lvl0 c"
proof (induction c)
  case (Exec ws)
  have "lvl3 (Exec ws)" unfolding lvl3_def using parseexec_words [OF Exec] by auto
  then show ?case using lvl32 [of "Exec ws"] lvl21 [of "Exec ws"] lvl10 [of "Exec ws"] by simp
next
  case (Redir c f m fd)
  have "lvl3 (Redir c f m fd)"
    unfolding lvl3_def
  proof (intro allI impI)
    fix rs and r :: cstr assume rs: "redirs_ok rs" and r: "starts enders r"
    have "redirs_ok ((f, m, fd) # rs)" using Redir.prems rs by (auto simp: redirs_ok_def)
    then obtain n where "parseexec n (pr 3 c @ pr_redirs ((f, m, fd) # rs) @ r) = POk (wrap c ((f, m, fd) # rs), r)"
      using Redir r by (auto simp: lvl3_def)
    then show "\<exists>n. parseexec n (pr 3 (Redir c f m fd) @ pr_redirs rs @ r) = POk (wrap (Redir c f m fd) rs, r)"
      by (auto simp: pr_redirs_def wrap_def)
  qed
  then show ?case using lvl32 [of "Redir c f m fd"] lvl21 [of "Redir c f m fd"] lvl10 [of "Redir c f m fd"] by simp
next
  case (Pipe a b)
  have "lvl2 (Pipe a b)"
    unfolding lvl2_def
  proof (intro allI impI)
    fix r :: cstr assume r: "starts {RPAR, AMP, SEMI} r"
    have "tight r" by (rule starts_tight [OF r]) auto
    then have tb: "tight (pr 2 b @ r)" using pr_tight Pipe.prems by simp
    have "starts enders (BAR # pr 2 b @ r)" by (simp add: starts_def)
    then obtain n where n: "parseexec n (pr 3 a @ BAR # pr 2 b @ r) = POk (a, BAR # pr 2 b @ r)"
      using lvl3D [of a "BAR # pr 2 b @ r"] Pipe.IH(1) Pipe.prems by auto
    obtain m where m: "parsepipe m (pr 2 b @ r) = POk (b, r)" using Pipe.IH(2) Pipe.prems r by (auto simp: lvl2_def)
    have g: "gettoken (BAR # pr 2 b @ r) = (BAR, [BAR], pr 2 b @ r)" by (rule gettoken_sym) (use tb in simp_all)
    have "parsepipe (Suc (max n m)) (pr 2 (Pipe a b) @ r) = POk (Pipe a b, r)"
      using parse_mono(3) [OF n, of "max n m"] parse_mono(2) [OF m, of "max n m"] g
      by (simp add: parsepipe.simps paren_def peek_tight)
    then show "\<exists>n. parsepipe n (pr 2 (Pipe a b) @ r) = POk (Pipe a b, r)" by blast
  qed
  then have "lvl2 (Pipe a b)" "lvl1 (Pipe a b)" "lvl0 (Pipe a b)"
    using lvl21 [of "Pipe a b"] lvl10 [of "Pipe a b"] by (simp_all add: paren_def)
  then show ?case using lvl03 [OF Pipe.prems] by (simp add: paren_def)
next
  case (Lst a b)
  have "lvl0 (Lst a b)"
    unfolding lvl0_def
  proof (intro allI impI)
    fix r :: cstr assume r: "starts {RPAR} r"
    have "tight r" by (rule starts_tight [OF r]) auto
    then have tb: "tight (pr 0 b @ r)" using pr_tight Lst.prems by simp
    have "starts {RPAR, SEMI} (SEMI # pr 0 b @ r)" by (simp add: starts_def)
    then obtain n c0 r0 where n: "parsepipe n (pr 1 a @ SEMI # pr 0 b @ r) = POk (c0, r0)" "parseamps c0 r0 = (a, SEMI # pr 0 b @ r)"
      using lvl1D [of a "SEMI # pr 0 b @ r"] Lst.IH(1) Lst.prems by auto
    obtain m where m: "parseline m (pr 0 b @ r) = POk (b, r)" using Lst.IH(2) Lst.prems r by (auto simp: lvl0_def)
    have g: "gettoken (SEMI # pr 0 b @ r) = (SEMI, [SEMI], pr 0 b @ r)" by (rule gettoken_sym) (use tb in simp_all)
    have "parseline (Suc (max n m)) (pr 0 (Lst a b) @ r) = POk (Lst a b, r)"
      using parse_mono(2) [OF n(1), of "max n m"] parse_mono(1) [OF m, of "max n m"] n(2) g
      by (simp add: parseline.simps paren_def peek_tight)
    then show "\<exists>n. parseline n (pr 0 (Lst a b) @ r) = POk (Lst a b, r)" by blast
  qed
  then have "lvl0 (Lst a b)" "lvl3 (Lst a b)" using lvl03 [OF Lst.prems] by (simp_all add: paren_def)
  then show ?case using lvl32 [of "Lst a b"] lvl21 [of "Lst a b"] by (simp add: paren_def)
next
  case (Back c)
  have "lvl1 (Back c)"
    unfolding lvl1_def
  proof (intro allI impI)
    fix r :: cstr and k assume r: "starts {RPAR, SEMI} r"
    obtain n c0 r0 where "parsepipe n (pr 1 c @ replicate (Suc k) AMP @ r) = POk (c0, r0)" "parseamps c0 r0 = ((Back ^^ Suc k) c, r)"
      using Back r unfolding lvl1_def by (metis cmd_ok.simps(5))
    then show "\<exists>n c0 r0. parsepipe n (pr 1 (Back c) @ replicate k AMP @ r) = POk (c0, r0) \<and> parseamps c0 r0 = ((Back ^^ k) (Back c), r)"
      by (auto simp: paren_def funpow_swap1)
  qed
  then have "lvl1 (Back c)" "lvl0 (Back c)" using lvl10 [of "Back c"] by (simp_all add: paren_def)
  moreover have "lvl3 (Back c)" using lvl03 [OF Back.prems] calculation by (simp add: paren_def)
  ultimately show ?case using lvl32 [of "Back c"] by (simp add: paren_def)
qed

section \<open>Properties\<close>

text \<open>
  C33: the shell parses every command back from its printed form: words, redirections, pipelines, lists, background commands and
  nested blocks, to any depth, give exactly the command tree they were printed from.
\<close>

theorem parsecmd_print:
  assumes ok: "cmd_ok c"
  shows "parsecmd (pr 0 c) = POk c"
proof -
  let ?s = "pr 0 c" and ?N = "4 * length (pr 0 c) + 4"
  have "lvl0 c" using levels [OF ok] by blast
  then obtain n where n: "parseline n ?s = POk (c, [])" 
    using lvl0D [of c "[]"] by (auto simp: starts_def)
  have "parseline ?N ?s \<noteq> PFuel" using parse_fuel [of ?s ?N] by (simp add: consumed_def)
  moreover have "parseline (max n ?N) ?s = POk (c, [])" by (rule parse_mono(1) [OF n]) simp
  moreover have "ple (parseline ?N ?s) (parseline (max n ?N) ?s)"
  proof (cases "parseline ?N ?s")
    case (POk x)
    then show ?thesis using parse_mono(1) [OF POk, of "max n ?N"] by (simp add: ple_def)
  next
    case (PErr e)
    have "parseline m ?s = PErr e" if "?N \<le> m" for m
      using that by (induction m rule: dec_induct) (use PErr parse_mono_Suc [of _ ?s] in \<open>auto simp: ple_def\<close>)
    then show ?thesis using PErr by (simp add: ple_def)
  qed (simp add: ple_def)
  ultimately have "parseline ?N ?s = POk (c, [])" by (simp add: ple_def)
  then show ?thesis by (simp add: parsecmd_def peek_tight)
qed

text \<open>The line \<open>ls |wc >f &;(a ;b )<g \<close>.\<close>

definition demo_line :: cmd where
  "demo_line = Lst (Back (Pipe (Exec [[108, 115]]) (Redir (Exec [[119, 99]]) [102] 0x201 1)))
     (Redir (Lst (Exec [[97]]) (Exec [[98]])) [103] 0 0)"

theorem parsecmd_print_witness:
  "cmd_ok demo_line \<and>
   parsecmd [108, 115, 32, 124, 119, 99, 32, 62, 102, 32, 38, 59, 40, 97, 32, 59, 98, 32, 41, 60, 103, 32] = POk demo_line"
proof -
  have "cmd_ok demo_line" by code_simp
  moreover have "pr 0 demo_line = [108, 115, 32, 124, 119, 99, 32, 62, 102, 32, 38, 59, 40, 97, 32, 59, 98, 32, 41, 60, 103, 32]" by code_simp
  ultimately show ?thesis using parsecmd_print [of demo_line] by simp
qed

text \<open>
  C34: the recursive descent of the shell's parser ends on every input, well-formed or not: it delivers a command or stops with one
  of its error messages, without using up the depth counter it starts with.
\<close>

theorem parsecmd_terminates: "parsecmd s \<noteq> PFuel"
proof -
  have "parseline (4 * length s + 4) s \<noteq> PFuel" using parse_fuel [of s] by (auto simp: consumed_def)
  then show ?thesis by (cases "parseline (4 * length s + 4) s") (auto simp: parsecmd_def Let_def split: prod.split)
qed

end
