(* ===== verification/Regex_Match.thy ===== *)
theory Regex_Match
  imports Fs_Dir
begin

text \<open>
  The pattern matcher of \<^verbatim>\<open>grep.c\<close>: \<^verbatim>\<open>match\<close>, \<^verbatim>\<open>matchhere\<close> and \<^verbatim>\<open>matchstar\<close>, on C strings as lists of their bytes. They are compared with a
  declarative reading of patterns: a pattern is an optional anchor, a sequence of items, each a character set that
  occurs once or any number of times, and an optional anchor at the end.
\<close>

abbreviation (input) CARET :: uchar where "CARET \<equiv> 94"
abbreviation (input) DOLLAR :: uchar where "DOLLAR \<equiv> 36"
abbreviation (input) STAR :: uchar where "STAR \<equiv> 42"
abbreviation (input) PERIOD :: uchar where "PERIOD \<equiv> 46"

function matchhere :: "cstr \<Rightarrow> cstr \<Rightarrow> bool"
and matchstar :: "uchar \<Rightarrow> cstr \<Rightarrow> cstr \<Rightarrow> bool" where
  "matchhere re text =
     (case re of
        [] \<Rightarrow> True
      | c # re' \<Rightarrow>
          if re' \<noteq> [] \<and> hd re' = STAR then matchstar c (tl re') text
          else if c = DOLLAR \<and> re' = [] then text = []
          else if text \<noteq> [] \<and> (c = PERIOD \<or> c = hd text) then matchhere re' (tl text)
          else False)"
| "matchstar c re text =
     (if matchhere re text then True
      else if text \<noteq> [] \<and> (hd text = c \<or> c = PERIOD) then matchstar c re (tl text)
      else False)"
  by pat_completeness auto
termination
  by (relation "measures [\<lambda>x. case x of Inl (re, text) \<Rightarrow> length re | Inr (c, re, text) \<Rightarrow> Suc (length re),
    \<lambda>x. case x of Inl (re, text) \<Rightarrow> 0 | Inr (c, re, text) \<Rightarrow> length text]") auto

declare matchhere.simps [simp del] matchstar.simps [simp del]

fun match_from :: "cstr \<Rightarrow> cstr \<Rightarrow> bool" where
  "match_from re [] = matchhere re []"
| "match_from re (c # text) = (if matchhere re (c # text) then True else match_from re text)"

definition match :: "cstr \<Rightarrow> cstr \<Rightarrow> bool" where
  "match re text = (if re \<noteq> [] \<and> hd re = CARET then matchhere (tl re) text else match_from re text)"

section \<open>What a pattern means\<close>

datatype item = One "uchar set" | Many "uchar set"

definition chars :: "uchar \<Rightarrow> uchar set" where
  "chars c = (if c = PERIOD then UNIV else {c})"

fun items :: "cstr \<Rightarrow> item list \<times> bool" where
  "items [] = ([], False)"
| "items [c] = (if c = DOLLAR then ([], True) else ([One (chars c)], False))"
| "items (c # d # re) =
     (if d = STAR then (let (is, e) = items re in (Many (chars c) # is, e))
      else (let (is, e) = items (d # re) in (One (chars c) # is, e)))"

fun lang :: "item list \<Rightarrow> cstr set" where
  "lang [] = {[]}"
| "lang (One S # is) = {c # w | c w. c \<in> S \<and> w \<in> lang is}"
| "lang (Many S # is) = {u @ w | u w. set u \<subseteq> S \<and> w \<in> lang is}"

text \<open>\<open>occurs b x e\<close>: some part of the text, at its start with \<open>b\<close> and at its end with \<open>e\<close>, is in the set.\<close>

definition occurs :: "bool \<Rightarrow> cstr set \<Rightarrow> bool \<Rightarrow> cstr \<Rightarrow> bool" where
  "occurs b L e text \<longleftrightarrow> (\<exists>x u y. text = x @ u @ y \<and> u \<in> L \<and> (b \<longrightarrow> x = []) \<and> (e \<longrightarrow> y = []))"

definition means :: "cstr \<Rightarrow> cstr \<Rightarrow> bool" where
  "means re text =
     (if re \<noteq> [] \<and> hd re = CARET then (let (is, e) = items (tl re) in occurs True (lang is) e text)
      else (let (is, e) = items re in occurs False (lang is) e text))"

section \<open>The matcher follows it\<close>

lemma occursI: "u \<in> L \<Longrightarrow> (e \<Longrightarrow> y = []) \<Longrightarrow> occurs True L e (u @ y)"
  unfolding occurs_def by blast

lemma occursE:
  assumes "occurs True L e text"
  obtains u y where "text = u @ y" "u \<in> L" "e \<Longrightarrow> y = []"
  using assms unfolding occurs_def by force

lemma occurs_empty: "occurs True {[]} e text \<longleftrightarrow> (e \<longrightarrow> text = [])"
  by (auto simp: occurs_def)

lemma occurs_One: "occurs True (lang (One S # is)) e text \<longleftrightarrow> text \<noteq> [] \<and> hd text \<in> S \<and> occurs True (lang is) e (tl text)"
proof
  assume "occurs True (lang (One S # is)) e text"
  then show "text \<noteq> [] \<and> hd text \<in> S \<and> occurs True (lang is) e (tl text)" by (rule occursE) (auto intro!: occursI)
next
  assume a: "text \<noteq> [] \<and> hd text \<in> S \<and> occurs True (lang is) e (tl text)"
  then have "occurs True (lang is) e (tl text)" by blast
  then obtain u y where u: "tl text = u @ y" "u \<in> lang is" "e \<Longrightarrow> y = []" by (rule occursE) (rule that)
  have "text = (hd text # u) @ y" using a u(1) by (metis append_Cons list.collapse)
  moreover have "hd text # u \<in> lang (One S # is)" using a u(2) by auto
  ultimately show "occurs True (lang (One S # is)) e text" using occursI u(3) by metis
qed

lemma occurs_Many:
  "occurs True (lang (Many S # is)) e text \<longleftrightarrow>
   occurs True (lang is) e text \<or> (text \<noteq> [] \<and> hd text \<in> S \<and> occurs True (lang (Many S # is)) e (tl text))"
proof
  assume "occurs True (lang (Many S # is)) e text"
  then obtain v y where v: "text = v @ y" "v \<in> lang (Many S # is)" "e \<Longrightarrow> y = []" by (rule occursE) (rule that)
  then obtain u w where t: "v = u @ w" "set u \<subseteq> S" "w \<in> lang is" by auto
  show "occurs True (lang is) e text \<or> (text \<noteq> [] \<and> hd text \<in> S \<and> occurs True (lang (Many S # is)) e (tl text))"
  proof (cases u)
    case Nil
    then show ?thesis using t v occursI by auto
  next
    case (Cons c u')
    then have "u' @ w \<in> lang (Many S # is)" "tl text = (u' @ w) @ y" using t v(1) by auto
    then have "occurs True (lang (Many S # is)) e (tl text)" using occursI v(3) by metis
    then show ?thesis using Cons t v by simp
  qed
next
  assume "occurs True (lang is) e text \<or> (text \<noteq> [] \<and> hd text \<in> S \<and> occurs True (lang (Many S # is)) e (tl text))"
  then show "occurs True (lang (Many S # is)) e text"
  proof
    assume "occurs True (lang is) e text"
    then show ?thesis
    proof (rule occursE)
      fix w y assume w: "text = w @ y" "w \<in> lang is" "e \<Longrightarrow> y = []"
      have "w \<in> lang (Many S # is)" using w(2) by (auto intro: exI [of _ "[]"])
      then show ?thesis using w(1,3) occursI by metis
    qed
  next
    assume a: "text \<noteq> [] \<and> hd text \<in> S \<and> occurs True (lang (Many S # is)) e (tl text)"
    then have "occurs True (lang (Many S # is)) e (tl text)" by blast
    then obtain v y where v: "tl text = v @ y" "v \<in> lang (Many S # is)" "e \<Longrightarrow> y = []" by (rule occursE) (rule that)
    then obtain u w where t: "v = u @ w" "set u \<subseteq> S" "w \<in> lang is" by auto
    have "(hd text # u) @ w \<in> lang (Many S # is)" using a t(2,3) unfolding lang.simps mem_Collect_eq
      by (intro exI [of _ "hd text # u"] exI [of _ w]) simp
    moreover have "text = ((hd text # u) @ w) @ y" using a t(1) v(1) by (metis append_Cons append_assoc list.collapse)
    ultimately show ?thesis using occursI v(3) by metis
  qed
qed

lemma hd_chars: "(c = PERIOD \<or> c = d) \<longleftrightarrow> d \<in> chars c" "(d = c \<or> c = PERIOD) \<longleftrightarrow> d \<in> chars c"
  by (auto simp: chars_def)

lemma matcher_means:
  "matchhere re text = (let (is, e) = items re in occurs True (lang is) e text)"
  "matchstar c re text = (let (is, e) = items re in occurs True (lang (Many (chars c) # is)) e text)"
proof (induction re "text" and c re "text" rule: matchhere_matchstar.induct)
  case (1 re tx)
  show ?case
  proof (cases re rule: items.cases)
    case 1
    then show ?thesis by (simp add: matchhere.simps occurs_def)
  next
    case (2 c)
    then show ?thesis using 1(2) by (subst matchhere.simps) (auto simp: occurs_empty occurs_One hd_chars simp del: lang.simps(2))
  next
    case (3 c d re')
    show ?thesis
    proof (cases "d = STAR")
      case True
      then show ?thesis using 1(1) [OF 3] 3 by (subst matchhere.simps) (simp add: Let_def case_prod_beta)
    next
      case False
      have "matchhere re tx = (tx \<noteq> [] \<and> hd tx \<in> chars c \<and> matchhere (d # re') (tl tx))"
        using 3 False by (subst matchhere.simps) (simp add: hd_chars)
      also have "\<dots> = (tx \<noteq> [] \<and> hd tx \<in> chars c \<and> (let (is, e) = items (d # re') in occurs True (lang is) e (tl tx)))"
        using 1(2) [OF 3] False by (auto simp: hd_chars)
      finally show ?thesis using 3 False by (simp add: occurs_One case_prod_beta del: lang.simps(2))
    qed
  qed
next
  case (2 c re tx)
  obtain "is" e where i: "items re = (is, e)" by force
  have "matchstar c re tx = (occurs True (lang is) e tx \<or> (tx \<noteq> [] \<and> hd tx \<in> chars c \<and> occurs True (lang (Many (chars c) # is)) e (tl tx)))"
    using 2 i by (subst matchstar.simps) (auto simp: hd_chars simp del: lang.simps)
  then show ?case using occurs_Many [of "chars c" "is" e tx] i by (simp del: lang.simps)
qed

lemma match_from_iff: "match_from re text \<longleftrightarrow> (\<exists>x y. text = x @ y \<and> matchhere re y)"
  by (induction "text") (auto simp: Cons_eq_append_conv)

lemma occurs_suffix: "occurs False L e text \<longleftrightarrow> (\<exists>x y. text = x @ y \<and> occurs True L e y)"
  by (auto simp: occurs_def)

section \<open>Properties\<close>

text \<open>
  C39: the recursive matcher of \<^verbatim>\<open>grep\<close> decides the declarative meaning of its patterns: a pattern of literal characters, periods, stars and
  the two anchors matches a line exactly when a part of the line, at its start or its end where the anchors ask for it, belongs to the language of the pattern.
\<close>

theorem match_means: "match re text = means re text"
  by (auto simp: match_def means_def match_from_iff matcher_means occurs_suffix case_prod_beta Let_def)

end
