(* ===== verification/User.thy ===== *)
theory User
  imports Printf Sh Regex_Match
begin

text \<open>
  The user programs. A program calls the kernel through \<open>ureq\<close>; the kernel is the argument \<open>K\<close>, a function of a world that answers a
  request or, for \<^verbatim>\<open>exit\<close> and a successful \<^verbatim>\<open>exec\<close>, does not return (\<open>None\<close>). A program is a function of the world: its value is
  \<open>None\<close> when it runs forever, \<open>Some (None, w)\<close> when the process has gone, and \<open>Some (Some x, w)\<close> when it returns \<open>x\<close>. Each loop is a partial
  function. The answer of \<^verbatim>\<open>read\<close> carries the bytes it has stored in the caller's buffer.
\<close>

section \<open>Programs\<close>

datatype ureq =
    SFork | SExit | SWait | SPipe | SRead int nat | SWrite int cstr | SClose int | SKill int | SExec cstr "cstr list" | SOpen cstr uint
  | SMknod cstr int int | SUnlink cstr | SFstat int | SLink cstr cstr | SMkdir cstr | SChdir cstr | SDup int | SSleep int | SHalt

record ures =
  r_val :: int
  r_bytes :: cstr
  r_stat :: stat
  r_fds :: "int \<times> int"

type_synonym 'w kernel = "ureq \<Rightarrow> 'w \<Rightarrow> ures option \<times> 'w"
type_synonym ('w, 'a) uprog = "'w \<Rightarrow> ('a option \<times> 'w) option"

definition uret :: "'a \<Rightarrow> ('w, 'a) uprog" where
  "uret x w = Some (Some x, w)"

definition ubind :: "('w, 'a) uprog \<Rightarrow> ('a \<Rightarrow> ('w, 'b) uprog) \<Rightarrow> ('w, 'b) uprog" where
  "ubind m k w = Option.bind (m w) (\<lambda>(r, w'). case r of None \<Rightarrow> Some (None, w') | Some x \<Rightarrow> k x w')"

definition ucall :: "'w kernel \<Rightarrow> ureq \<Rightarrow> ('w, ures) uprog" where
  "ucall K q w = Some (K q w)"

text \<open>\<^verbatim>\<open>exit()\<close> never returns.\<close>

definition uexit :: "'w kernel \<Rightarrow> ('w, 'a) uprog" where
  "uexit K w = Some (None, snd (K SExit w))"

definition useq :: "('w, 'a) uprog \<Rightarrow> ('w, 'b) uprog \<Rightarrow> ('w, 'b) uprog" where
  "useq m k = ubind m (\<lambda>_. k)"

lemma ubind_mono [partial_function_mono]:
  assumes "mono_option (\<lambda>f. m f w)" and "\<And>x u. mono_option (\<lambda>f. k f x u)"
  shows "mono_option (\<lambda>f. ubind (m f) (k f) w)"
proof -
  have "mono_option (\<lambda>f. case r of None \<Rightarrow> Some (None, u) | Some x \<Rightarrow> k f x u)" for r u
    by (cases r) (simp_all add: assms(2) option.const_mono)
  then show ?thesis unfolding ubind_def by (intro bind_mono assms(1)) (simp add: case_prod_beta)
qed

lemma useq_mono [partial_function_mono]:
  assumes "mono_option (\<lambda>f. m f w)" and "\<And>u. mono_option (\<lambda>f. k f u)"
  shows "mono_option (\<lambda>f. useq (m f) (k f) w)"
  unfolding useq_def by (rule ubind_mono) (rule assms)+

definition ustr :: "string \<Rightarrow> cstr" where
  "ustr = map of_char"

text \<open>\<^verbatim>\<open>printf\<close> writes one byte at a time. All calls below give it the arguments their format asks for.\<close>

fun uputs :: "'w kernel \<Rightarrow> int \<Rightarrow> cstr \<Rightarrow> ('w, unit) uprog" where
  "uputs K fd [] = uret ()"
| "uputs K fd (c # cs) = useq (ucall K (SWrite fd [c])) (uputs K fd cs)"

definition uprintf :: "'w kernel \<Rightarrow> int \<Rightarrow> cstr \<Rightarrow> fmt_arg list \<Rightarrow> ('w, unit) uprog" where
  "uprintf K fd fmt args = (case printf fmt args of Some cs \<Rightarrow> uputs K fd cs | None \<Rightarrow> (\<lambda>w. None))"

text \<open>A list as the bytes of an array, zeros behind it.\<close>

definition arr :: "cstr \<Rightarrow> bytes" where
  "arr cs i = (if i < length cs then cs ! i else 0)"

section \<open>cat.c, wc.c, echo.c\<close>

partial_function (option) cat :: "'w kernel \<Rightarrow> int \<Rightarrow> 'w \<Rightarrow> (unit option \<times> 'w) option" where
  "cat K fd w =
     ubind (ucall K (SRead fd 512)) (\<lambda>r w.
       if r_val r > 0 then useq (ucall K (SWrite 1 (r_bytes r))) (\<lambda>w. cat K fd w) w
       else if r_val r < 0 then useq (uprintf K 1 (ustr ''cat: read error'' @ [10]) []) (uexit K) w
       else uret () w) w"

fun cat_files :: "'w kernel \<Rightarrow> cstr list \<Rightarrow> ('w, unit) uprog" where
  "cat_files K [] = uexit K"
| "cat_files K (a # as) =
     ubind (ucall K (SOpen a 0)) (\<lambda>r.
     if r_val r < 0 then useq (uprintf K 1 (ustr ''cat: cannot open %s'' @ [10]) [AStr (Some a)]) (uexit K)
     else useq (cat K (r_val r)) (useq (ucall K (SClose (r_val r))) (cat_files K as)))"

definition cat_main :: "'w kernel \<Rightarrow> cstr list \<Rightarrow> ('w, unit) uprog" where
  "cat_main K argv = (if length argv \<le> 1 then useq (cat K 0) (uexit K) else cat_files K (tl argv))"

record wc_state =
  wc_l :: uint
  wc_w :: uint
  wc_c :: uint
  wc_in :: bool

text \<open>The body of the loop over the characters of the buffer. \<^verbatim>\<open>strchr(" \r\t\n\v", c)\<close> is null for a NUL character.\<close>

definition wc_char :: "uchar \<Rightarrow> wc_state \<Rightarrow> wc_state" where
  "wc_char b s =
     (let s = s\<lparr>wc_c := wc_c s + 1\<rparr>; s = (if b = 10 then s\<lparr>wc_l := wc_l s + 1\<rparr> else s) in
      if b \<in> set [32, 13, 9, 10, 11] then s\<lparr>wc_in := False\<rparr>
      else if \<not> wc_in s then s\<lparr>wc_w := wc_w s + 1, wc_in := True\<rparr>
      else s)"

partial_function (option) wc_loop :: "'w kernel \<Rightarrow> int \<Rightarrow> cstr \<Rightarrow> wc_state \<Rightarrow> 'w \<Rightarrow> (unit option \<times> 'w) option" where
  "wc_loop K fd name s w =
     ubind (ucall K (SRead fd 512)) (\<lambda>r w.
       if r_val r > 0 then wc_loop K fd name (fold wc_char (r_bytes r) s) w
       else if r_val r < 0 then useq (uprintf K 1 (ustr ''wc: read error'' @ [10]) []) (uexit K) w
       else uprintf K 1 (ustr ''%d %d %d %s'' @ [10]) [AInt (wc_l s), AInt (wc_w s), AInt (wc_c s), AStr (Some name)] w) w"

definition wc :: "'w kernel \<Rightarrow> int \<Rightarrow> cstr \<Rightarrow> ('w, unit) uprog" where
  "wc K fd name = wc_loop K fd name \<lparr>wc_l = 0, wc_w = 0, wc_c = 0, wc_in = False\<rparr>"

fun wc_files :: "'w kernel \<Rightarrow> cstr list \<Rightarrow> ('w, unit) uprog" where
  "wc_files K [] = uexit K"
| "wc_files K (a # as) =
     ubind (ucall K (SOpen a 0)) (\<lambda>r.
     if r_val r < 0 then useq (uprintf K 1 (ustr ''wc: cannot open %s'' @ [10]) [AStr (Some a)]) (uexit K)
     else useq (wc K (r_val r) a) (useq (ucall K (SClose (r_val r))) (wc_files K as)))"

definition wc_main :: "'w kernel \<Rightarrow> cstr list \<Rightarrow> ('w, unit) uprog" where
  "wc_main K argv = (if length argv \<le> 1 then useq (wc K 0 []) (uexit K) else wc_files K (tl argv))"

fun echo_args :: "'w kernel \<Rightarrow> cstr list \<Rightarrow> ('w, unit) uprog" where
  "echo_args K [] = uexit K"
| "echo_args K (a # as) =
     useq (uprintf K 1 (ustr ''%s%s'') [AStr (Some a), AStr (Some (if as \<noteq> [] then [32] else [10]))]) (echo_args K as)"

definition echo_main :: "'w kernel \<Rightarrow> cstr list \<Rightarrow> ('w, unit) uprog" where
  "echo_main K argv = echo_args K (tl argv)"

section \<open>kill.c, ln.c, mkdir.c, rm.c, zombie.c, shutdown.c\<close>

fun kill_args :: "'w kernel \<Rightarrow> cstr list \<Rightarrow> ('w, unit) uprog" where
  "kill_args K [] = uexit K"
| "kill_args K (a # as) =
     (case atoi (arr a) of None \<Rightarrow> (\<lambda>w. None) | Some n \<Rightarrow> useq (ucall K (SKill (sint n))) (kill_args K as))"

definition kill_main :: "'w kernel \<Rightarrow> cstr list \<Rightarrow> ('w, unit) uprog" where
  "kill_main K argv =
     (if length argv < 1 then useq (uprintf K 2 (ustr ''usage: kill pid...'' @ [10]) []) (uexit K) else kill_args K (tl argv))"

definition ln_main :: "'w kernel \<Rightarrow> cstr list \<Rightarrow> ('w, unit) uprog" where
  "ln_main K argv =
     (if length argv \<noteq> 3 then useq (uprintf K 2 (ustr ''Usage: ln old new'' @ [10]) []) (uexit K)
      else
        ubind (ucall K (SLink (argv ! 1) (argv ! 2))) (\<lambda>r.
        useq (if r_val r < 0 then uprintf K 2 (ustr ''link %s %s: failed'' @ [10]) [AStr (Some (argv ! 1)), AStr (Some (argv ! 2))] else uret ())
        (uexit K)))"

fun mkdir_args :: "'w kernel \<Rightarrow> cstr list \<Rightarrow> ('w, unit) uprog" where
  "mkdir_args K [] = uexit K"
| "mkdir_args K (a # as) =
     ubind (ucall K (SMkdir a)) (\<lambda>r.
     if r_val r < 0 then useq (uprintf K 2 (ustr ''mkdir: %s failed to create'' @ [10]) [AStr (Some a)]) (uexit K)
     else mkdir_args K as)"

definition mkdir_main :: "'w kernel \<Rightarrow> cstr list \<Rightarrow> ('w, unit) uprog" where
  "mkdir_main K argv =
     (if length argv < 2 then useq (uprintf K 2 (ustr ''Usage: mkdir files...'' @ [10]) []) (uexit K) else mkdir_args K (tl argv))"

fun rm_args :: "'w kernel \<Rightarrow> cstr list \<Rightarrow> ('w, unit) uprog" where
  "rm_args K [] = uexit K"
| "rm_args K (a # as) =
     ubind (ucall K (SUnlink a)) (\<lambda>r.
     if r_val r < 0 then useq (uprintf K 2 (ustr ''rm: %s failed to delete'' @ [10]) [AStr (Some a)]) (uexit K)
     else rm_args K as)"

definition rm_main :: "'w kernel \<Rightarrow> cstr list \<Rightarrow> ('w, unit) uprog" where
  "rm_main K argv =
     (if length argv < 2 then useq (uprintf K 2 (ustr ''Usage: rm files...'' @ [10]) []) (uexit K) else rm_args K (tl argv))"

definition zombie_main :: "'w kernel \<Rightarrow> ('w, unit) uprog" where
  "zombie_main K =
     ubind (ucall K SFork) (\<lambda>r. useq (if r_val r > 0 then ubind (ucall K (SSleep 5)) (\<lambda>_. uret ()) else uret ()) (uexit K))"

definition shutdown_main :: "'w kernel \<Rightarrow> ('w, unit) uprog" where
  "shutdown_main K = useq (ucall K SHalt) (uexit K)"

section \<open>ls.c, with stat of ulib.c\<close>

definition ustat :: "'w kernel \<Rightarrow> cstr \<Rightarrow> ('w, int \<times> stat) uprog" where
  "ustat K n =
     ubind (ucall K (SOpen n 0)) (\<lambda>r.
     if r_val r < 0 then uret (- 1, r_stat r)
     else
       ubind (ucall K (SFstat (r_val r))) (\<lambda>q.
       useq (ucall K (SClose (r_val r))) (uret (r_val q, r_stat q))))"

definition fmtname :: "cstr \<Rightarrow> cstr" where
  "fmtname path = (let p = rev (takeWhile (\<lambda>c. c \<noteq> 47) (rev path)) in
     if length p \<ge> DIRSIZ then p else p @ replicate (DIRSIZ - length p) 32)"

definition ls_print :: "'w kernel \<Rightarrow> cstr \<Rightarrow> stat \<Rightarrow> ('w, unit) uprog" where
  "ls_print K path st = uprintf K 1 (ustr ''%s %d %d %d'' @ [10])
     [AStr (Some (fmtname path)), AInt (scast (st_type st)), AInt (st_ino st), AInt (st_size st)]"

partial_function (option) ls_dir :: "'w kernel \<Rightarrow> cstr \<Rightarrow> int \<Rightarrow> 'w \<Rightarrow> (unit option \<times> 'w) option" where
  "ls_dir K path fd w =
     ubind (ucall K (SRead fd 16)) (\<lambda>r w.
       if r_val r = 16 then
         (let de = get_dirent (arr (r_bytes r)); buf = path @ [47] @ takeWhile (\<lambda>c. c \<noteq> 0) (map (de_name de) [0..<DIRSIZ]) in
          if de_inum de = 0 then ls_dir K path fd w
          else
            ubind (ustat K buf) (\<lambda>s w.
            if fst s < 0 then useq (uprintf K 1 (ustr ''ls: cannot stat %s'' @ [10]) [AStr (Some buf)]) (\<lambda>w. ls_dir K path fd w) w
            else useq (ls_print K buf (snd s)) (\<lambda>w. ls_dir K path fd w) w) w)
       else uret () w) w"

definition ls :: "'w kernel \<Rightarrow> cstr \<Rightarrow> ('w, unit) uprog" where
  "ls K path =
     ubind (ucall K (SOpen path 0)) (\<lambda>r.
     if r_val r < 0 then uprintf K 2 (ustr ''ls: cannot open %s'' @ [10]) [AStr (Some path)]
     else
       ubind (ucall K (SFstat (r_val r))) (\<lambda>q.
       if r_val q < 0 then
         useq (uprintf K 2 (ustr ''ls: cannot stat %s'' @ [10]) [AStr (Some path)]) (useq (ucall K (SClose (r_val r))) (uret ()))
       else
         useq (if st_type (r_stat q) = T_FILE then ls_print K path (r_stat q)
           else if st_type (r_stat q) = T_DIR then
             (if length path + 1 + DIRSIZ + 1 > 512 then uprintf K 1 (ustr ''ls: path too long'' @ [10]) []
              else ls_dir K path (r_val r))
           else uret ())
         (useq (ucall K (SClose (r_val r))) (uret ()))))"

fun ls_args :: "'w kernel \<Rightarrow> cstr list \<Rightarrow> ('w, unit) uprog" where
  "ls_args K [] = uexit K"
| "ls_args K (a # as) = useq (ls K a) (ls_args K as)"

definition ls_main :: "'w kernel \<Rightarrow> cstr list \<Rightarrow> ('w, unit) uprog" where
  "ls_main K argv = (if length argv < 2 then useq (ls K [46]) (uexit K) else ls_args K (tl argv))"

section \<open>init.c\<close>

partial_function (option) init_wait :: "'w kernel \<Rightarrow> int \<Rightarrow> 'w \<Rightarrow> (unit option \<times> 'w) option" where
  "init_wait K pid w =
     ubind (ucall K SWait) (\<lambda>r w.
       if r_val r \<ge> 0 \<and> r_val r \<noteq> pid then useq (uprintf K 1 (ustr ''zombie!'' @ [10]) []) (\<lambda>w. init_wait K pid w) w
       else uret () w) w"

partial_function (option) init_loop :: "'w kernel \<Rightarrow> 'w \<Rightarrow> (unit option \<times> 'w) option" where
  "init_loop K w =
     useq (uprintf K 1 (ustr ''init: starting sh'' @ [10]) [])
     (ubind (ucall K SFork) (\<lambda>r w.
       if r_val r < 0 then useq (uprintf K 1 (ustr ''init: fork failed'' @ [10]) []) (uexit K) w
       else if r_val r = 0 then
         useq (ucall K (SExec (ustr ''sh'') [ustr ''sh''])) (useq (uprintf K 1 (ustr ''init: exec sh failed'' @ [10]) []) (uexit K)) w
       else useq (init_wait K (r_val r)) (\<lambda>w. init_loop K w) w)) w"

definition init_main :: "'w kernel \<Rightarrow> ('w, unit) uprog" where
  "init_main K =
     ubind (ucall K (SOpen (ustr ''console'') 2)) (\<lambda>r.
     useq (if r_val r < 0 then useq (ucall K (SMknod (ustr ''console'') 1 1)) (ucall K (SOpen (ustr ''console'') 2)) else uret r)
     (useq (ucall K (SDup 0))
     (useq (ucall K (SDup 0))
     (init_loop K))))"

section \<open>sh.c: running commands, with gets of ulib.c\<close>

text \<open>\<^verbatim>\<open>gets\<close>: \<open>k\<close> more characters fit.\<close>

fun gets_from :: "'w kernel \<Rightarrow> nat \<Rightarrow> ('w, cstr) uprog" where
  "gets_from K 0 = uret []"
| "gets_from K (Suc k) =
     ubind (ucall K (SRead 0 1)) (\<lambda>r.
     if r_val r < 1 then uret []
     else (let c = hd (r_bytes r) in if c = 10 \<or> c = 13 then uret [c] else ubind (gets_from K k) (\<lambda>s. uret (c # s))))"

definition ugets :: "'w kernel \<Rightarrow> nat \<Rightarrow> ('w, cstr) uprog" where
  "ugets K n = gets_from K (n - 1)"

definition sh_panic :: "'w kernel \<Rightarrow> cstr \<Rightarrow> ('w, 'a) uprog" where
  "sh_panic K s = useq (uprintf K 2 (ustr ''%s'' @ [10]) [AStr (Some s)]) (uexit K)"

definition fork1 :: "'w kernel \<Rightarrow> ('w, int) uprog" where
  "fork1 K = ubind (ucall K SFork) (\<lambda>r. if r_val r = - 1 then sh_panic K (ustr ''fork'') else uret (r_val r))"

primrec runcmd :: "'w kernel \<Rightarrow> cmd \<Rightarrow> ('w, unit) uprog" where
  "runcmd K (Exec argv) =
     (if argv = [] then uexit K
      else
        useq (ucall K (SExec (hd argv) argv))
        (useq (uprintf K 2 (ustr ''exec %s failed'' @ [10]) [AStr (Some (hd argv))]) (uexit K)))"
| "runcmd K (Redir c f mode fd) =
     useq (ucall K (SClose (int fd)))
     (ubind (ucall K (SOpen f mode)) (\<lambda>r.
     if r_val r < 0 then useq (uprintf K 2 (ustr ''open %s failed'' @ [10]) [AStr (Some f)]) (uexit K)
     else useq (runcmd K c) (uexit K)))"
| "runcmd K (Lst a b) =
     ubind (fork1 K) (\<lambda>pid.
     useq (if pid = 0 then runcmd K a else uret ())
     (useq (ucall K SWait)
     (useq (runcmd K b) (uexit K))))"
| "runcmd K (Pipe a b) =
     ubind (ucall K SPipe) (\<lambda>r.
     if r_val r < 0 then sh_panic K (ustr ''pipe'')
     else
       (let (p0, p1) = r_fds r in
        ubind (fork1 K) (\<lambda>pid.
        useq (if pid = 0 then
            useq (ucall K (SClose 1)) (useq (ucall K (SDup p1)) (useq (ucall K (SClose p0)) (useq (ucall K (SClose p1)) (runcmd K a))))
          else uret ())
        (ubind (fork1 K) (\<lambda>pid.
        useq (if pid = 0 then
            useq (ucall K (SClose 0)) (useq (ucall K (SDup p0)) (useq (ucall K (SClose p0)) (useq (ucall K (SClose p1)) (runcmd K b))))
          else uret ())
        (useq (ucall K (SClose p0))
        (useq (ucall K (SClose p1))
        (useq (ucall K SWait)
        (useq (ucall K SWait)
        (uexit K))))))))))"
| "runcmd K (Back c) = ubind (fork1 K) (\<lambda>pid. useq (if pid = 0 then runcmd K c else uret ()) (uexit K))"

text \<open>\<^verbatim>\<open>getcmd\<close>: the C string in the buffer, or \<open>None\<close> at the end of the input.\<close>

definition getcmd :: "'w kernel \<Rightarrow> nat \<Rightarrow> ('w, cstr option) uprog" where
  "getcmd K nbuf =
     useq (uprintf K 2 (ustr ''$ '') [])
     (ubind (ugets K nbuf) (\<lambda>buf. let s = takeWhile (\<lambda>c. c \<noteq> 0) buf in uret (if s = [] then None else Some s)))"

definition run_line :: "'w kernel \<Rightarrow> cstr \<Rightarrow> ('w, unit) uprog" where
  "run_line K buf =
     (case parsecmd buf of
        POk c \<Rightarrow> runcmd K c
      | PErr e \<Rightarrow>
          (case parseline (4 * length buf + 4) buf of
             POk (_, s) \<Rightarrow> useq (uprintf K 2 (ustr ''leftovers: %s'' @ [10]) [AStr (Some (snd (peek s [])))]) (sh_panic K (ustr e))
           | _ \<Rightarrow> sh_panic K (ustr e))
      | PFuel \<Rightarrow> (\<lambda>w. None))"

partial_function (option) sh_fds :: "'w kernel \<Rightarrow> 'w \<Rightarrow> (unit option \<times> 'w) option" where
  "sh_fds K w =
     ubind (ucall K (SOpen (ustr ''console'') 2)) (\<lambda>r w.
       if r_val r \<ge> 3 then useq (ucall K (SClose (r_val r))) (uret ()) w
       else if r_val r \<ge> 0 then sh_fds K w
       else uret () w) w"

definition sh_cd :: "'w kernel \<Rightarrow> cstr \<Rightarrow> ('w, unit) uprog" where
  "sh_cd K buf =
     (let dir = drop 3 (butlast buf) in
      ubind (ucall K (SChdir dir)) (\<lambda>r.
      if r_val r < 0 then uprintf K 2 (ustr ''cannot cd %s'' @ [10]) [AStr (Some dir)] else uret ()))"

partial_function (option) sh_loop :: "'w kernel \<Rightarrow> 'w \<Rightarrow> (unit option \<times> 'w) option" where
  "sh_loop K w =
     ubind (getcmd K 100) (\<lambda>r w.
       if r = None then uexit K w
       else
         (let buf = the r in
          if take 3 buf = ustr ''cd '' then useq (sh_cd K buf) (\<lambda>w. sh_loop K w) w
          else
            ubind (fork1 K) (\<lambda>pid w.
              useq (if pid = 0 then run_line K buf else uret ()) (useq (ucall K SWait) (\<lambda>w. sh_loop K w)) w) w)) w"

definition sh_main :: "'w kernel \<Rightarrow> ('w, unit) uprog" where
  "sh_main K = useq (sh_fds K) (sh_loop K)"

section \<open>grep.c\<close>

text \<open>
  Memory around the array \<^verbatim>\<open>buf\<close> is a function of the offset from its start: the code may look and write outside of
  the 1024 bytes. \<open>grep_lines\<close> is the loop over the newlines in the buffer.
\<close>

partial_function (option) grep_lines :: "'w kernel \<Rightarrow> cstr \<Rightarrow> (int \<Rightarrow> uchar) \<Rightarrow> int \<Rightarrow> 'w \<Rightarrow> (((int \<Rightarrow> uchar) \<times> int) option \<times> 'w) option" where
  "grep_lines K pattern buf p w =
     (let f = strchr (\<lambda>i. buf (p + int i)) 10 in
      if f = None then None
      else if the f = None then uret (buf, p) w
      else
        (let n = the (the f); q = p + int n; line = map (\<lambda>i. buf (p + int i)) [0..<n] in
         if match pattern line
         then useq (ucall K (SWrite 1 (line @ [10]))) (\<lambda>w. grep_lines K pattern buf (q + 1) w) w
         else grep_lines K pattern (buf(q := 0)) (q + 1) w))"

definition put_bytes :: "(int \<Rightarrow> uchar) \<Rightarrow> int \<Rightarrow> cstr \<Rightarrow> int \<Rightarrow> uchar" where
  "put_bytes buf m cs = (\<lambda>k. if m \<le> k \<and> k < m + int (length cs) then cs ! nat (k - m) else buf k)"

text \<open>\<^verbatim>\<open>memmove(buf, p, m)\<close> copies upwards to a lower address; a count that is not positive copies nothing.\<close>

definition move_down :: "(int \<Rightarrow> uchar) \<Rightarrow> int \<Rightarrow> int \<Rightarrow> int \<Rightarrow> uchar" where
  "move_down buf p m = (\<lambda>k. if 0 \<le> k \<and> k < m then buf (p + k) else buf k)"

partial_function (option) grep_loop :: "'w kernel \<Rightarrow> cstr \<Rightarrow> int \<Rightarrow> (int \<Rightarrow> uchar) \<Rightarrow> int \<Rightarrow> 'w \<Rightarrow> ((int \<Rightarrow> uchar) option \<times> 'w) option" where
  "grep_loop K pattern fd buf m w =
     ubind (ucall K (SRead fd (nat (1024 - m)))) (\<lambda>r w.
       if r_val r > 0 then
         ubind (grep_lines K pattern (put_bytes buf m (r_bytes r)) 0) (\<lambda>l w.
           (let buf = fst l; p = snd l; m = (if p = 0 then 0 else m + r_val r) in
            if m > 0 then grep_loop K pattern fd (move_down buf p (m - p)) (m - p) w
            else grep_loop K pattern fd buf m w)) w
       else uret buf w) w"

definition grep :: "'w kernel \<Rightarrow> cstr \<Rightarrow> int \<Rightarrow> (int \<Rightarrow> uchar) \<Rightarrow> ('w, int \<Rightarrow> uchar) uprog" where
  "grep K pattern fd buf = grep_loop K pattern fd buf 0"

fun grep_files :: "'w kernel \<Rightarrow> cstr \<Rightarrow> (int \<Rightarrow> uchar) \<Rightarrow> cstr list \<Rightarrow> ('w, unit) uprog" where
  "grep_files K pattern buf [] = uexit K"
| "grep_files K pattern buf (a # as) =
     ubind (ucall K (SOpen a 0)) (\<lambda>r.
     if r_val r < 0 then useq (uprintf K 1 (ustr ''grep: cannot open %s'' @ [10]) [AStr (Some a)]) (uexit K)
     else ubind (grep K pattern (r_val r) buf) (\<lambda>buf. useq (ucall K (SClose (r_val r))) (grep_files K pattern buf as)))"

definition grep_main :: "'w kernel \<Rightarrow> (int \<Rightarrow> uchar) \<Rightarrow> cstr list \<Rightarrow> ('w, unit) uprog" where
  "grep_main K buf argv =
     (if length argv \<le> 1 then useq (uprintf K 2 (ustr ''usage: grep pattern [file ...]'' @ [10]) []) (uexit K)
      else if length argv \<le> 2 then useq (grep K (argv ! 1) 0 buf) (uexit K)
      else grep_files K (argv ! 1) buf (drop 2 argv))"

end
