(* ===== verification/User_Props.thy ===== *)
theory User_Props
  imports User
begin

text \<open>
  Properties of the user programs: \<^verbatim>\<open>wc\<close> counts what its input contains however the kernel cuts it into reads, and \<^verbatim>\<open>grep\<close> prints a
  line a second time when its input arrives in several reads.
\<close>

section \<open>A kernel to run them on\<close>

text \<open>A kernel whose standard input is a list of pieces, one for each read, and whose standard output is recorded.\<close>

definition script :: "(cstr list \<times> cstr) kernel" where
  "script q w =
     (case q of
        SRead fd n \<Rightarrow>
          (case fst w of
             [] \<Rightarrow> (Some \<lparr>r_val = 0, r_bytes = [], r_stat = undefined, r_fds = (0, 0)\<rparr>, w)
           | c # cs \<Rightarrow> (Some \<lparr>r_val = int (length c), r_bytes = c, r_stat = undefined, r_fds = (0, 0)\<rparr>, (cs, snd w)))
      | SWrite fd c \<Rightarrow> (Some \<lparr>r_val = int (length c), r_bytes = [], r_stat = undefined, r_fds = (0, 0)\<rparr>, (fst w, snd w @ c))
      | _ \<Rightarrow> (Some \<lparr>r_val = - 1, r_bytes = [], r_stat = undefined, r_fds = (0, 0)\<rparr>, w))"

section \<open>wc\<close>

text \<open>Successive reads of at most \<open>n\<close> bytes deliver the pieces and then the end of the input.\<close>

fun feeds :: "'w kernel \<Rightarrow> int \<Rightarrow> nat \<Rightarrow> cstr list \<Rightarrow> 'w \<Rightarrow> 'w \<Rightarrow> bool" where
  "feeds K fd n [] w w' \<longleftrightarrow> (\<exists>r. K (SRead fd n) w = (Some r, w') \<and> r_val r = 0)"
| "feeds K fd n (c # cs) w w' \<longleftrightarrow> (\<exists>r u. K (SRead fd n) w = (Some r, u) \<and> r_bytes r = c \<and> r_val r = int (length c) \<and> c \<noteq> [] \<and>
     length c \<le> n \<and> feeds K fd n cs u w')"

definition spaces :: "uchar set" where
  "spaces = {32, 13, 9, 10, 11}"

text \<open>The positions where a word begins.\<close>

definition word_starts :: "cstr \<Rightarrow> nat set" where
  "word_starts t = {i. i < length t \<and> t ! i \<notin> spaces \<and> (i = 0 \<or> t ! (i - 1) \<in> spaces)}"

lemma word_starts_snoc:
  "word_starts (t @ [c]) = (if c \<notin> spaces \<and> (t = [] \<or> last t \<in> spaces) then insert (length t) (word_starts t) else word_starts t)"
proof -
  have "i \<in> word_starts (t @ [c]) \<longleftrightarrow> i \<in> word_starts t \<or> i = length t \<and> c \<notin> spaces \<and> (t = [] \<or> last t \<in> spaces)" for i
    by (cases "i < length t"; cases t rule: rev_cases) (auto simp: word_starts_def nth_append less_Suc_eq split: if_splits)
  then show ?thesis by auto
qed

lemma word_starts_finite: "finite (word_starts t)" "length t \<notin> word_starts t"
  by (auto simp: word_starts_def)

lemma word_starts_list: "word_starts t = set (filter (\<lambda>i. t ! i \<notin> spaces \<and> (i = 0 \<or> t ! (i - 1) \<in> spaces)) [0..<length t])"
  by (auto simp: word_starts_def)

lemma wc_char_step:
  "wc_char c \<lparr>wc_l = l, wc_w = w, wc_c = n, wc_in = i\<rparr> =
     \<lparr>wc_l = (if c = 10 then l + 1 else l), wc_w = (if c \<notin> spaces \<and> \<not> i then w + 1 else w), wc_c = n + 1, wc_in = (c \<notin> spaces)\<rparr>"
  by (auto simp: wc_char_def Let_def spaces_def)

lemma wc_chars:
  "fold wc_char t \<lparr>wc_l = 0, wc_w = 0, wc_c = 0, wc_in = False\<rparr> =
     \<lparr>wc_l = of_nat (count_list t 10), wc_w = of_nat (card (word_starts t)), wc_c = of_nat (length t), wc_in = (t \<noteq> [] \<and> last t \<notin> spaces)\<rparr>"
proof (induction t rule: rev_induct)
  case (snoc c t)
  have "wc_char c \<lparr>wc_l = of_nat (count_list t 10), wc_w = of_nat (card (word_starts t)), wc_c = of_nat (length t), wc_in = (t \<noteq> [] \<and> last t \<notin> spaces)\<rparr> =
      \<lparr>wc_l = of_nat (count_list (t @ [c]) 10), wc_w = of_nat (card (word_starts (t @ [c]))), wc_c = of_nat (length (t @ [c])), wc_in = (c \<notin> spaces)\<rparr>"
    unfolding wc_char_step word_starts_snoc using word_starts_finite [of t] by auto
  then show ?case by (simp only: fold_append snoc.IH fold.simps comp_def id_apply) simp
qed (simp add: word_starts_def)

lemma wc_loop_feeds:
  assumes "feeds K fd 512 cs w w'"
  shows "wc_loop K fd name s w =
     (let t = fold wc_char (concat cs) s in
      uprintf K 1 (ustr ''%d %d %d %s'' @ [10]) [AInt (wc_l t), AInt (wc_w t), AInt (wc_c t), AStr (Some name)] w')"
  using assms
proof (induction cs arbitrary: s w)
  case Nil
  then show ?case by (subst wc_loop.simps) (auto simp: ubind_def ucall_def)
next
  case (Cons c cs)
  then show ?case by (subst wc_loop.simps) (auto simp: ubind_def ucall_def)
qed

section \<open>grep\<close>

lemma strchr_from_found: "(\<And>i. k \<le> i \<Longrightarrow> i < n \<Longrightarrow> s i \<noteq> 0 \<and> s i \<noteq> c) \<Longrightarrow> s n = c \<Longrightarrow> c \<noteq> 0 \<Longrightarrow> k \<le> n \<Longrightarrow> strchr_from s c k = Some (Some n)"
proof (induction "n - k" arbitrary: k)
  case 0
  then show ?case by (subst strchr_from.simps) simp
next
  case (Suc d)
  then show ?case by (subst strchr_from.simps) (use Suc.prems(1) [of k] Suc.hyps(1) [of "Suc k"] in auto)
qed

lemma strchr_from_none: "(\<And>i. k \<le> i \<Longrightarrow> i < n \<Longrightarrow> s i \<noteq> 0 \<and> s i \<noteq> c) \<Longrightarrow> s n = 0 \<Longrightarrow> k \<le> n \<Longrightarrow> strchr_from s c k = Some None"
proof (induction "n - k" arbitrary: k)
  case 0
  then show ?case by (subst strchr_from.simps) simp
next
  case (Suc d)
  then show ?case by (subst strchr_from.simps) (use Suc.prems(1) [of k] Suc.hyps(1) [of "Suc k"] in auto)
qed

text \<open>A line: no newline and no NUL in it. \<open>holds buf p t\<close>: the bytes \<open>t\<close> are in memory at \<open>p\<close> and a NUL follows.\<close>

definition is_line :: "cstr \<Rightarrow> bool" where
  "is_line l \<longleftrightarrow> 0 \<notin> set l \<and> 10 \<notin> set l"

definition holds :: "(int \<Rightarrow> uchar) \<Rightarrow> int \<Rightarrow> cstr \<Rightarrow> bool" where
  "holds buf p t \<longleftrightarrow> (\<forall>i \<le> length t. buf (p + int i) = arr t i)"

definition sel :: "cstr \<Rightarrow> cstr \<Rightarrow> cstr" where
  "sel pattern l = (if match pattern l then l @ [10] else [])"

text \<open>The buffer after the loop: the newlines behind lines that do not match have become NULs.\<close>

fun marked :: "cstr \<Rightarrow> (int \<Rightarrow> uchar) \<Rightarrow> int \<Rightarrow> cstr list \<Rightarrow> int \<Rightarrow> uchar" where
  "marked pattern buf p [] = buf"
| "marked pattern buf p (l # xs) =
     marked pattern (if match pattern l then buf else buf(p + int (length l) := 0)) (p + int (length l) + 1) xs"

definition line_text :: "cstr list \<Rightarrow> cstr" where
  "line_text xs = concat (map (\<lambda>l. l @ [10]) xs)"

lemma line_text_simps [simp]: "line_text [] = []" "line_text (l # xs) = l @ 10 # line_text xs"
  by (simp_all add: line_text_def)

lemma holds_shift: "holds buf p (l @ 10 # t) \<Longrightarrow> holds buf (p + int (length l) + 1) t"
  unfolding holds_def
proof (intro allI impI)
  fix i assume a: "\<forall>i \<le> length (l @ 10 # t). buf (p + int i) = arr (l @ 10 # t) i" and "i \<le> length t"
  then have "buf (p + int (length l + 1 + i)) = arr (l @ 10 # t) (length l + 1 + i)" by (intro a [rule_format]) simp
  then show "buf (p + int (length l) + 1 + int i) = arr t i" by (simp add: arr_def nth_append ac_simps)
qed

lemma holds_line:
  assumes "holds buf p (l @ 10 # t)" "i \<le> length l"
  shows "buf (p + int i) = (if i < length l then l ! i else 10)"
  using assms by (auto simp: holds_def arr_def nth_append)

lemma strchr_line: "is_line l \<Longrightarrow> holds buf p (l @ 10 # t) \<Longrightarrow> strchr (\<lambda>i. buf (p + int i)) 10 = Some (Some (length l))"
  unfolding strchr_def using holds_line [of buf p l t] by (intro strchr_from_found) (auto simp: is_line_def in_set_conv_nth)

lemma strchr_end: "holds buf p [] \<Longrightarrow> strchr (\<lambda>i. buf (p + int i)) 10 = Some None"
  unfolding strchr_def by (rule strchr_from_none [of 0 0]) (auto simp: holds_def arr_def)

lemma map_line: "holds buf p (l @ 10 # t) \<Longrightarrow> map (\<lambda>i. buf (p + int i)) [0..<length l] = l"
  using holds_line [of buf p l t] by (intro nth_equalityI) simp_all

lemma write_script: "useq (ucall script (SWrite fd c)) f (inp, out) = f (inp, out @ c)"
  by (simp add: useq_def ubind_def ucall_def script_def)

lemma grep_lines_ok:
  assumes "list_all is_line xs" "holds buf p (line_text xs)"
  shows "grep_lines script pattern buf p (inp, out) =
     Some (Some (marked pattern buf p xs, p + int (length (line_text xs))), (inp, out @ concat (map (sel pattern) xs)))"
  using assms
proof (induction xs arbitrary: buf p out)
  case Nil
  then show ?case by (subst grep_lines.simps) (simp add: strchr_end uret_def)
next
  case (Cons l xs)
  have l: "is_line l" and h: "holds buf p (l @ 10 # line_text xs)" and xs: "list_all is_line xs" using Cons.prems by simp_all
  let ?p = "p + int (length l) + 1"
  have h1: "holds buf ?p (line_text xs)" by (rule holds_shift [OF h])
  then have h2: "holds (buf(p + int (length l) := 0)) ?p (line_text xs)" by (auto simp: holds_def)
  have step: "grep_lines script pattern buf p (inp, out) =
     (if match pattern l then useq (ucall script (SWrite 1 (l @ [10]))) (\<lambda>w. grep_lines script pattern buf ?p w) (inp, out)
      else grep_lines script pattern (buf(p + int (length l) := 0)) ?p (inp, out))"
    by (subst grep_lines.simps) (simp only: Let_def strchr_line [OF l h] option.sel map_line [OF h] option.distinct if_False)
  show ?case
  proof (cases "match pattern l")
    case True
    then show ?thesis unfolding step by (simp add: write_script Cons.IH [OF xs h1] sel_def)
  next
    case False
    then show ?thesis unfolding step by (simp add: Cons.IH [OF xs h2] sel_def) (simp add: fun_upd_def)
  qed
qed

lemma grep_loop_end: "grep_loop script pattern fd buf m ([], out) = Some (Some buf, ([], out))"
  by (subst grep_loop.simps) (simp add: ubind_def ucall_def script_def uret_def)

lemma grep_loop_read:
  fixes pattern :: cstr
  assumes "list_all is_line xs" "holds (put_bytes buf m c) 0 (line_text xs)" "c \<noteq> []"
  defines "p \<equiv> int (length (line_text xs))" and "buf' \<equiv> marked pattern (put_bytes buf m c) 0 xs"
  shows "grep_loop script pattern fd buf m (c # inp, out) =
     (let m = (if p = 0 then 0 else m + int (length c)) in
      grep_loop script pattern fd (if m > 0 then move_down buf' p (m - p) else buf') (if m > 0 then m - p else m) (inp, out @ concat (map (sel pattern) xs)))"
proof -
  have "grep_lines script pattern (put_bytes buf m c) 0 (inp, out) = Some (Some (buf', p), (inp, out @ concat (map (sel pattern) xs)))"
    using grep_lines_ok [OF assms(1,2)] by (simp add: p_def buf'_def)
  then show ?thesis using assms(3)
    by (subst grep_loop.simps) (simp add: ubind_def [of "ucall script (SRead fd (nat (1024 - m)))"] ucall_def script_def ubind_def [of "grep_lines script pattern (put_bytes buf m c) 0"] Let_def)
qed

section \<open>Properties\<close>

text \<open>
  C35: \<^verbatim>\<open>wc\<close> counts lines, words and characters of its input: it prints the number of newlines, of the positions where a word begins and of
  all characters of the concatenation of what it has read, modulo the width of an int, wherever the kernel cuts the input into pieces.
\<close>

theorem wc_counts:
  assumes "feeds K fd 512 cs w w'"
  shows "wc K fd name w = uprintf K 1 (ustr ''%d %d %d %s'' @ [10])
     [AInt (of_nat (count_list (concat cs) 10)), AInt (of_nat (card (word_starts (concat cs)))), AInt (of_nat (length (concat cs))), AStr (Some name)] w'"
  unfolding wc_def wc_loop_feeds [OF assms] wc_chars by (simp add: Let_def)

theorem wc_counts_witness:
  "wc script 0 [] ([ustr ''to b'', ustr ''e or'' @ [10]], []) =
     uprintf script 1 (ustr ''%d %d %d %s'' @ [10]) [AInt 1, AInt 3, AInt 9, AStr (Some [])] ([], [])"
proof -
  have "feeds script 0 512 [ustr ''to b'', ustr ''e or'' @ [10]] ([ustr ''to b'', ustr ''e or'' @ [10]], []) ([], [])"
    by (simp add: script_def ustr_def)
  moreover have "word_starts (concat [ustr ''to b'', ustr ''e or'' @ [10]]) = {0, 3, 6}"
    by (simp add: word_starts_list ustr_def spaces_def upt_rec) (simp add: eval_nat_numeral)
  ultimately show ?thesis using wc_counts [of script 0 "[ustr ''to b'', ustr ''e or'' @ [10]]" _ _ "[]"] by (simp add: ustr_def)
qed

text \<open>
  C36: \<^verbatim>\<open>grep\<close> prints stale lines. Its buffer is not terminated behind the bytes of the last read. When two lines arrive in one read and a third line,
  as long as the first, in the next, a matching second line is still in the buffer behind the third and is printed again.
\<close>

theorem grep_prints_stale_line:
  assumes "is_line u" and "is_line v" and "is_line x" and "length x = length u" and "match pattern v" and "length u + length v + 2 \<le> 1024"
  shows "\<exists>buf. grep script pattern 0 (\<lambda>_. 0) ([u @ [10] @ v @ [10], x @ [10]], []) =
     Some (Some buf, ([], sel pattern u @ (v @ [10]) @ sel pattern x @ (v @ [10])))"
proof -
  let ?c = "u @ [10] @ v @ [10]" and ?d = "x @ [10]"
  let ?B = "put_bytes (\<lambda>_. 0) 0 ?c"
  define b1 where "b1 = (if match pattern u then ?B else ?B(int (length u) := 0))"
  have h1: "holds ?B 0 (line_text [u, v])" by (auto simp: holds_def put_bytes_def arr_def)
  have m1: "marked pattern ?B 0 [u, v] = b1" using assms(5) by (simp add: b1_def)
  have mv: "move_down b1 (int (length ?c)) 0 = b1" by (intro ext) (auto simp: move_down_def)
  have "grep_loop script pattern 0 (\<lambda>_. 0) 0 ([?c, ?d], []) = grep_loop script pattern 0 b1 0 ([?d], sel pattern u @ v @ [10])"
    using grep_loop_read [OF _ h1, of pattern 0 "[?d]" "[]"] m1 mv assms(1,2,5) by (simp add: Let_def sel_def [of pattern v])
  moreover have "holds (put_bytes b1 0 ?d) 0 (line_text [x, v])"
    unfolding holds_def
  proof (intro allI impI)
    fix i assume "i \<le> length (line_text [x, v])"
    show "put_bytes b1 0 ?d (0 + int i) = arr (line_text [x, v]) i"
    proof (cases "i < length ?d")
      case True
      then show ?thesis by (auto simp: put_bytes_def arr_def nth_append less_Suc_eq)
    next
      case False
      then have "put_bytes b1 0 ?d (0 + int i) = ?B (int i)" using assms(4) by (simp add: put_bytes_def b1_def)
      also have "\<dots> = arr ?c i" by (simp add: put_bytes_def arr_def)
      also have "\<dots> = arr (line_text [x, v]) i" using False assms(4) by (simp add: arr_def nth_append)
      finally show ?thesis .
    qed
  qed
  note r2 = grep_loop_read [OF _ this, of pattern 0 "[]" "sel pattern u @ v @ [10]"]
  have "\<exists>b m. grep_loop script pattern 0 b1 0 ([?d], sel pattern u @ v @ [10]) =
      grep_loop script pattern 0 b m ([], sel pattern u @ (v @ [10]) @ sel pattern x @ (v @ [10]))"
    using r2 assms(2,3,5) by (simp add: Let_def sel_def [of pattern v]) blast
  ultimately show ?thesis unfolding grep_def using grep_loop_end by metis
qed

theorem grep_prints_stale_line_witness:
  "\<exists>buf. grep script (ustr ''b'') 0 (\<lambda>_. 0) ([ustr ''a'' @ [10] @ ustr ''b'' @ [10], ustr ''c'' @ [10]], []) =
     Some (Some buf, ([], ustr ''b'' @ [10] @ ustr ''b'' @ [10]))"
proof -
  have m: "match (ustr ''b'') (ustr ''b'')" "\<not> match (ustr ''b'') (ustr ''a'')" "\<not> match (ustr ''b'') (ustr ''c'')"
    by (simp_all add: match_def ustr_def matchhere.simps)
  have "is_line (ustr ''a'')" "is_line (ustr ''b'')" "is_line (ustr ''c'')" by (simp_all add: is_line_def ustr_def)
  from grep_prints_stale_line [OF this _ m(1)] show ?thesis using m(2,3) by (simp add: sel_def ustr_def)
qed

end
