(* ===== verification/Umalloc.thy ===== *)
theory Umalloc
  imports Layout
begin

text \<open>
  The user-level memory allocator, \<^verbatim>\<open>umalloc.c\<close>. A header is eight bytes of memory, the pointer and then the size in units of eight bytes. The free
  blocks are a circular list in order of address that starts at the static header \<^verbatim>\<open>base\<close>, whose address is an argument. \<^verbatim>\<open>sbrk\<close> is an argument too,
  a function of a world. The loops are partial functions; under the invariant \<open>heap_ok\<close> they end.
\<close>

record 'w heap =
  h_mem :: memory
  h_freep :: uint
  h_world :: 'w

definition hptr :: "memory \<Rightarrow> uint \<Rightarrow> uint" where
  "hptr m p = load32 m p"

definition hsize :: "memory \<Rightarrow> uint \<Rightarrow> uint" where
  "hsize m p = load32 m (p + 4)"

definition set_hptr :: "memory \<Rightarrow> uint \<Rightarrow> uint \<Rightarrow> memory" where
  "set_hptr m p v = store32 m p v"

definition set_hsize :: "memory \<Rightarrow> uint \<Rightarrow> uint \<Rightarrow> memory" where
  "set_hsize m p v = store32 m (p + 4) v"

section \<open>The code\<close>

text \<open>\<^verbatim>\<open>free\<close>: the search for the place of the block, and its insertion behind \<open>p\<close>.\<close>

partial_function (option) free_find :: "memory \<Rightarrow> uint \<Rightarrow> uint \<Rightarrow> uint option" where
  "free_find m bp p =
     (if bp > p \<and> bp < hptr m p then Some p
      else if p \<ge> hptr m p \<and> (bp > p \<or> bp < hptr m p) then Some p
      else free_find m bp (hptr m p))"

definition join_next :: "memory \<Rightarrow> uint \<Rightarrow> uint \<Rightarrow> memory" where
  "join_next m bp p =
     (if bp + 8 * hsize m bp = hptr m p then
        (let m = set_hsize m bp (hsize m bp + hsize m (hptr m p)) in set_hptr m bp (hptr m (hptr m p)))
      else set_hptr m bp (hptr m p))"

definition join_prev :: "memory \<Rightarrow> uint \<Rightarrow> uint \<Rightarrow> memory" where
  "join_prev m bp p =
     (if p + 8 * hsize m p = bp then
        (let m = set_hsize m p (hsize m p + hsize m bp) in set_hptr m p (hptr m bp))
      else set_hptr m p bp)"

definition ufree :: "uint \<Rightarrow> 'w heap \<Rightarrow> 'w heap option" where
  "ufree ap h =
     (let bp = ap - 8; m = h_mem h in
      case free_find m bp (h_freep h) of
        None \<Rightarrow> None
      | Some p \<Rightarrow> Some (h\<lparr>h_mem := join_prev (join_next m bp p) bp p, h_freep := p\<rparr>))"

definition morecore :: "(uint \<Rightarrow> 'w \<Rightarrow> uint \<times> 'w) \<Rightarrow> uint \<Rightarrow> 'w heap \<Rightarrow> (uint \<times> 'w heap) option" where
  "morecore sbrk nu h =
     (let nu = (if nu < 4096 then 4096 else nu); (p, w) = sbrk (nu * 8) (h_world h); h = h\<lparr>h_world := w\<rparr> in
      if p = - 1 then Some (0, h)
      else
        case ufree (p + 8) (h\<lparr>h_mem := set_hsize (h_mem h) p nu\<rparr>) of
          None \<Rightarrow> None
        | Some h \<Rightarrow> Some (h_freep h, h))"

definition take_block :: "uint \<Rightarrow> uint \<Rightarrow> uint \<Rightarrow> 'w heap \<Rightarrow> uint \<times> 'w heap" where
  "take_block nunits prevp p h =
     (let m = h_mem h in
      if hsize m p = nunits then (p + 8, h\<lparr>h_mem := set_hptr m prevp (hptr m p), h_freep := prevp\<rparr>)
      else
        (let m = set_hsize m p (hsize m p - nunits); p = p + 8 * hsize m p; m = set_hsize m p nunits in
         (p + 8, h\<lparr>h_mem := m, h_freep := prevp\<rparr>)))"

partial_function (option) malloc_loop :: "(uint \<Rightarrow> 'w \<Rightarrow> uint \<times> 'w) \<Rightarrow> uint \<Rightarrow> uint \<Rightarrow> uint \<Rightarrow> 'w heap \<Rightarrow> (uint \<times> 'w heap) option" where
  "malloc_loop sbrk nunits prevp p h =
     (if hsize (h_mem h) p \<ge> nunits then Some (take_block nunits prevp p h)
      else if p = h_freep h then
        Option.bind (morecore sbrk nunits h) (\<lambda>r.
          if fst r = 0 then Some (0, snd r)
          else malloc_loop sbrk nunits (fst r) (hptr (h_mem (snd r)) (fst r)) (snd r))
      else malloc_loop sbrk nunits p (hptr (h_mem h) p) h)"

definition malloc_init :: "uint \<Rightarrow> 'w heap \<Rightarrow> 'w heap" where
  "malloc_init base h =
     (if h_freep h = 0 then h\<lparr>h_mem := set_hsize (set_hptr (h_mem h) base base) base 0, h_freep := base\<rparr> else h)"

definition malloc_units :: "uint \<Rightarrow> uint" where
  "malloc_units nbytes = (nbytes + 8 - 1) div 8 + 1"

definition malloc :: "uint \<Rightarrow> (uint \<Rightarrow> 'w \<Rightarrow> uint \<times> 'w) \<Rightarrow> uint \<Rightarrow> 'w heap \<Rightarrow> (uint \<times> 'w heap) option" where
  "malloc base sbrk nbytes h =
     (let h = malloc_init base h; prevp = h_freep h in
      malloc_loop sbrk (malloc_units nbytes) prevp (hptr (h_mem h) prevp) h)"

section \<open>Headers\<close>

text \<open>Two headers that do not overlap.\<close>

definition off8 :: "uint \<Rightarrow> uint \<Rightarrow> bool" where
  "off8 p q \<longleftrightarrow> unat p + 8 \<le> unat q \<or> unat q + 8 \<le> unat p"

definition low :: "uint \<Rightarrow> bool" where
  "low p \<longleftrightarrow> unat p + 8 \<le> 2 ^ 31"

lemma low_add4: "low p \<Longrightarrow> unat (p + 4) = unat p + 4"
  by (simp add: low_def unat_word_ariths)

lemma header_simps [simp]:
  "hptr (set_hptr m p v) p = v" "hsize (set_hsize m p v) p = v"
  by (simp_all add: hptr_def hsize_def set_hptr_def set_hsize_def)

lemma load_far:
  assumes "unat p + 4 \<le> unat q \<or> unat q + 4 \<le> unat p" "unat p < 2 ^ 31" "unat q < 2 ^ 31"
  shows "load32 (store32 m p v) q = load32 m q"
proof -
  have "unat (q - p) = (if unat p \<le> unat q then unat q - unat p else unat q + 2 ^ 32 - unat p)"
    "unat (p - q) = (if unat q \<le> unat p then unat p - unat q else unat p + 2 ^ 32 - unat q)"
    by (simp_all add: unat_sub_if')
  then show ?thesis using assms by (intro load32_store32_far) (auto simp: word_le_nat_alt)
qed

lemma header_other:
  assumes "low p" "low q"
  shows "hsize (set_hptr m p v) p = hsize m p" "hptr (set_hsize m p v) p = hptr m p"
    and "off8 p q \<Longrightarrow> hptr (set_hptr m p v) q = hptr m q" "off8 p q \<Longrightarrow> hsize (set_hptr m p v) q = hsize m q"
    and "off8 p q \<Longrightarrow> hptr (set_hsize m p v) q = hptr m q" "off8 p q \<Longrightarrow> hsize (set_hsize m p v) q = hsize m q"
  using assms low_add4 [OF assms(1)] low_add4 [OF assms(2)]
  by (auto simp: hptr_def hsize_def set_hptr_def set_hsize_def off8_def low_def intro!: load_far)

lemma header_byte:
  assumes "low p" "unat x < unat p \<or> unat p + 8 \<le> unat x"
  shows "set_hptr m p v x = m x" "set_hsize m p v x = m x"
proof -
  have "unat (x - p) = (if unat p \<le> unat x then unat x - unat p else unat x + 2 ^ 32 - unat p)"
    "unat (x - (p + 4)) = (if unat (p + 4) \<le> unat x then unat x - unat (p + 4) else unat x + 2 ^ 32 - unat (p + 4))"
    by (simp_all add: unat_sub_if')
  moreover have "unat x < 2 ^ 32" using unsigned_less [of x, where 'a = nat] by simp
  ultimately show "set_hptr m p v x = m x" "set_hsize m p v x = m x" using assms low_add4 [OF assms(1)]
    by (auto simp: set_hptr_def set_hsize_def low_def word_less_nat_alt intro!: store32_outside)
qed

section \<open>The free list\<close>

fun chain :: "memory \<Rightarrow> uint \<Rightarrow> uint list \<Rightarrow> uint \<Rightarrow> bool" where
  "chain m a [] z \<longleftrightarrow> hptr m a = z"
| "chain m a (b # xs) z \<longleftrightarrow> hptr m a = b \<and> chain m b xs z"

definition bend :: "memory \<Rightarrow> uint \<Rightarrow> nat" where
  "bend m a = unat a + 8 * unat (hsize m a)"

definition extent :: "memory \<Rightarrow> uint \<Rightarrow> nat set" where
  "extent m a = {unat a..<bend m a}"

definition fbytes :: "memory \<Rightarrow> uint list \<Rightarrow> nat set" where
  "fbytes m xs = \<Union> (extent m ` set xs)"

text \<open>Blocks in order of address that do not overlap, between \<open>lo\<close> and \<open>hi\<close>.\<close>

fun blocks :: "memory \<Rightarrow> nat \<Rightarrow> uint list \<Rightarrow> nat \<Rightarrow> bool" where
  "blocks m lo [] hi \<longleftrightarrow> lo \<le> hi"
| "blocks m lo (a # xs) hi \<longleftrightarrow> lo \<le> unat a \<and> 0 < unat (hsize m a) \<and> blocks m (bend m a) xs hi"

definition heap_list :: "memory \<Rightarrow> uint \<Rightarrow> uint list \<Rightarrow> nat \<Rightarrow> bool" where
  "heap_list m base xs brk \<longleftrightarrow> chain m base xs base \<and> blocks m (unat base + 8) xs brk \<and> hsize m base = 0 \<and> brk \<le> 2 ^ 31"

lemma chain_append: "chain m a (ys @ b # zs) z \<longleftrightarrow> chain m a ys b \<and> chain m b zs z"
  by (induction ys arbitrary: a) auto

lemma chain_last: "chain m a (ys @ zs) z \<Longrightarrow> hptr m (last (a # ys)) = hd (zs @ [z])"
  by (induction ys arbitrary: a) (auto, cases zs, auto)

lemma chain_cong: "(\<And>b. b \<in> set (a # xs) \<Longrightarrow> hptr m' b = hptr m b) \<Longrightarrow> chain m' a xs z = chain m a xs z"
  by (induction xs arbitrary: a) auto

lemma chain_start: "chain m a xs z \<Longrightarrow> hptr m' b = hptr m a \<Longrightarrow> (\<And>c. c \<in> set xs \<Longrightarrow> hptr m' c = hptr m c) \<Longrightarrow> chain m' b xs z"
  using chain_cong [of "hd xs" "tl xs" m' m z] by (cases xs) auto

lemma chain_split: "chain m a xs z \<Longrightarrow> q \<in> set (a # xs) \<Longrightarrow> \<exists>us vs. a # xs = us @ q # vs \<and> hptr m q = hd (vs @ [z]) \<and> chain m q vs z"
proof (induction xs arbitrary: a)
  case Nil
  then show ?case by (intro exI [of _ "[]"]) auto
next
  case (Cons b xs)
  show ?case
  proof (cases "q = a")
    case True
    then show ?thesis using Cons.prems by (intro exI [of _ "[]"] exI [of _ "b # xs"]) auto
  next
    case False
    then obtain us vs where "b # xs = us @ q # vs" "hptr m q = hd (vs @ [z])" "chain m q vs z" using Cons.prems Cons.IH [of b] by auto
    then show ?thesis by (intro exI [of _ "a # us"] exI [of _ vs]) auto
  qed
qed

lemma blocks_le: "blocks m lo xs hi \<Longrightarrow> lo \<le> hi"
  by (induction xs arbitrary: lo) (auto simp: bend_def, fastforce)

lemma blocks_mem: "blocks m lo xs hi \<Longrightarrow> a \<in> set xs \<Longrightarrow> lo \<le> unat a \<and> 0 < unat (hsize m a) \<and> unat a + 8 \<le> bend m a \<and> bend m a \<le> hi"
  by (induction xs arbitrary: lo) (auto simp: bend_def dest: blocks_le, fastforce)

lemma blocks_append: "blocks m lo (ys @ a # zs) hi \<longleftrightarrow> blocks m lo ys (unat a) \<and> blocks m (unat a) (a # zs) hi"
  by (induction ys arbitrary: lo) auto

lemma blocks_weaken: "blocks m lo xs hi \<Longrightarrow> lo' \<le> lo \<Longrightarrow> hi \<le> hi' \<Longrightarrow> blocks m lo' xs hi'"
  by (induction xs arbitrary: lo lo') auto

lemma blocks_cong: "(\<And>a. a \<in> set xs \<Longrightarrow> hsize m' a = hsize m a) \<Longrightarrow> blocks m' lo xs hi = blocks m lo xs hi"
  by (induction xs arbitrary: lo) (auto simp: bend_def)

lemma extent_cong: "hsize m' a = hsize m a \<Longrightarrow> extent m' a = extent m a"
  by (simp add: extent_def bend_def)

lemma fbytes_cong: "(\<And>a. a \<in> set xs \<Longrightarrow> hsize m' a = hsize m a) \<Longrightarrow> fbytes m' xs = fbytes m xs"
  by (simp add: fbytes_def extent_def bend_def)

lemma fbytes_simps [simp]: "fbytes m [] = {}" "fbytes m (a # xs) = extent m a \<union> fbytes m xs" "fbytes m (xs @ ys) = fbytes m xs \<union> fbytes m ys"
  by (auto simp: fbytes_def)

lemma fbytes_blocks: "blocks m lo xs hi \<Longrightarrow> fbytes m xs \<subseteq> {lo..<hi}"
  using blocks_mem [of m lo xs hi] by (fastforce simp: fbytes_def extent_def)

text \<open>The place of a block that overlaps no free one.\<close>

lemma blocks_place:
  assumes "blocks m lo xs hi" "lo \<le> unat bp" "0 < unat (hsize m bp)" "bend m bp \<le> hi" "extent m bp \<inter> fbytes m xs = {}"
  shows "\<exists>ys zs. xs = ys @ zs \<and> blocks m lo ys (unat bp) \<and> blocks m (bend m bp) zs hi"
  using assms
proof (induction xs arbitrary: lo)
  case Nil
  then show ?case by auto
next
  case (Cons a xs)
  have a: "lo \<le> unat a" "0 < unat (hsize m a)" "blocks m (bend m a) xs hi" using Cons.prems(1) by auto
  have disj: "\<not> (unat bp \<le> x \<and> x < bend m bp \<and> unat a \<le> x \<and> x < bend m a)" for x using Cons.prems(5) by (auto simp: extent_def)
  show ?case
  proof (cases "unat a < unat bp")
    case True
    then have "bend m a \<le> unat bp" using disj [of "unat bp"] Cons.prems(3) by (auto simp: bend_def)
    then obtain ys zs where "xs = ys @ zs" "blocks m (bend m a) ys (unat bp)" "blocks m (bend m bp) zs hi"
      using Cons.IH [OF a(3) _ Cons.prems(3,4)] Cons.prems(5) by auto
    then show ?thesis using a by (intro exI [of _ "a # ys"] exI [of _ zs]) auto
  next
    case False
    then have "bend m bp \<le> unat a" using disj [of "unat a"] a(2) by (auto simp: bend_def)
    then show ?thesis using a Cons.prems(2) by (intro exI [of _ "[]"] exI [of _ "a # xs"]) auto
  qed
qed

section \<open>free\<close>

lemma find_low:
  assumes "chain m q us z" "blocks m (unat q + 8) us (unat bp)" "unat q < unat bp" "unat bp < unat z \<or> unat z \<le> unat q"
  shows "free_find m bp q = Some (last (q # us))"
  using assms
proof (induction us arbitrary: q)
  case Nil
  then show ?case using free_find.simps [of m bp q] by (auto simp: word_less_nat_alt word_le_nat_alt)
next
  case (Cons b us)
  have b: "unat q + 8 \<le> unat b" "unat b + 8 \<le> unat bp" "blocks m (unat b + 8) us (unat bp)"
    using Cons.prems(2) blocks_mem [OF Cons.prems(2), of b] blocks_weaken [of m "bend m b" us "unat bp" "unat b + 8"] by auto
  have "free_find m bp q = free_find m bp b"
    using Cons.prems(1) b free_find.simps [of m bp q] by (simp add: word_less_nat_alt word_le_nat_alt)
  then show ?case using Cons.IH [of b] Cons.prems b by auto
qed

lemma find_high:
  assumes "chain m q us base" "unat bp < unat q" "blocks m (unat q + 8) us hi" "unat base \<le> unat bp"
  shows "free_find m bp q = free_find m bp base"
  using assms
proof (induction us arbitrary: q)
  case Nil
  then show ?case using free_find.simps [of m bp q] by (simp add: word_less_nat_alt word_le_nat_alt)
next
  case (Cons b us)
  have b: "unat q + 8 \<le> unat b" "blocks m (unat b + 8) us hi"
    using Cons.prems(3) blocks_mem [OF Cons.prems(3), of b] blocks_weaken [of m "bend m b" us hi "unat b + 8"] by auto
  then have "free_find m bp q = free_find m bp b"
    using Cons.prems free_find.simps [of m bp q] by (simp add: word_less_nat_alt word_le_nat_alt)
  then show ?case using Cons.IH [of b] Cons.prems b by auto
qed

lemma chain_take: "chain m a (ys @ zs) z \<Longrightarrow> chain m a ys (hd (zs @ [z]))"
  by (induction ys arbitrary: a) (auto, cases zs, auto)

lemma blocks_from: "blocks m lo (us @ q # vs) hi \<Longrightarrow> blocks m (unat q + 8) vs hi"
  using blocks_mem [of m lo "us @ q # vs" hi q] blocks_weaken [of m "bend m q" vs hi "unat q + 8" hi] by (simp add: blocks_append)

lemma find_place:
  assumes h: "heap_list m base (ys @ zs) brk" and lo: "blocks m (unat base + 8) ys (unat bp)" and hi: "blocks m (bend m bp) zs brk"
    and size: "0 < unat (hsize m bp)" and q: "q \<in> set (base # ys @ zs)"
  shows "free_find m bp q = Some (last (base # ys))"
proof -
  have ch: "chain m base (ys @ zs) base" using h by (simp add: heap_list_def)
  have b: "unat base + 8 \<le> unat bp" "unat bp < bend m bp" using blocks_le [OF lo] size by (auto simp: bend_def)
  have low: "free_find m bp q = Some (last (base # ys))" if qs: "q \<in> set (base # ys)" for q
  proof -
    obtain us vs where s: "base # ys = us @ q # vs" "chain m q vs (hd (zs @ [base]))" using chain_split [OF chain_take [OF ch] qs] by auto
    have qb: "unat base \<le> unat q" "unat q < unat bp" using blocks_mem [OF lo, of q] qs b by auto
    have "blocks m (unat q + 8) vs (unat bp)"
      using s(1) lo blocks_from [of m "unat base + 8" "tl us" q vs "unat bp"] by (cases us) auto
    moreover have "unat bp < unat (hd (zs @ [base])) \<or> unat (hd (zs @ [base])) \<le> unat q"
      using blocks_mem [OF hi, of "hd zs"] b(2) qb by (cases zs) auto
    ultimately have "free_find m bp q = Some (last (q # vs))" using find_low [OF s(2)] qb by blast
    then show ?thesis using s(1) by simp
  qed
  show ?thesis
  proof (cases "q \<in> set (base # ys)")
    case True
    then show ?thesis by (rule low)
  next
    case False
    then obtain us vs where zs: "zs = us @ q # vs" using q split_list [of q zs] by auto
    then have "chain m q vs base" using ch chain_append [of m base "ys @ us" q vs base] by simp
    moreover have "blocks m (unat q + 8) vs brk" using hi zs blocks_from by blast
    moreover have "unat bp < unat q" using blocks_mem [OF hi, of q] zs b by auto
    ultimately have "free_find m bp q = free_find m bp base" using find_high [of m q vs base bp brk] b by simp
    then show ?thesis using low [of base] by simp
  qed
qed

text \<open>What a change of the memory leaves as it was: the headers that do not overlap one at \<open>p\<close>, and the bytes outside of it.\<close>

definition touches :: "memory \<Rightarrow> uint \<Rightarrow> memory \<Rightarrow> bool" where
  "touches m p m' \<longleftrightarrow> (\<forall>q. low q \<and> off8 p q \<longrightarrow> hptr m' q = hptr m q \<and> hsize m' q = hsize m q) \<and>
     (\<forall>x. unat x < unat p \<or> unat p + 8 \<le> unat x \<longrightarrow> m' x = m x)"

lemma touches_set: "low p \<Longrightarrow> touches m p (set_hptr m p v)" "low p \<Longrightarrow> touches m p (set_hsize m p v)"
  by (auto simp: touches_def header_other header_byte)

lemma touches_trans: "touches m p m1 \<Longrightarrow> touches m1 p m2 \<Longrightarrow> touches m p m2"
  by (auto simp: touches_def)

lemma touchesD: "touches m p m' \<Longrightarrow> low q \<Longrightarrow> off8 p q \<Longrightarrow> hptr m' q = hptr m q" "touches m p m' \<Longrightarrow> low q \<Longrightarrow> off8 p q \<Longrightarrow> hsize m' q = hsize m q"
  "touches m p m' \<Longrightarrow> unat x < unat p \<or> unat p + 8 \<le> unat x \<Longrightarrow> m' x = m x"
  by (auto simp: touches_def)

lemma bend_word: "bend m a \<le> 2 ^ 31 \<Longrightarrow> unat (a + 8 * hsize m a) = bend m a"
proof -
  assume "bend m a \<le> 2 ^ 31"
  then have "unat (8 * hsize m a) = 8 * unat (hsize m a)" "unat a + 8 * unat (hsize m a) < 2 ^ 32" by (auto simp: bend_def unat_word_ariths)
  then show ?thesis by (simp add: bend_def unat_word_ariths)
qed

lemma hsize_add:
  assumes "unat (hsize m a) + unat (hsize m b) < 2 ^ 32"
  shows "unat (hsize m a + hsize m b) = unat (hsize m a) + unat (hsize m b)"
  using assms by (simp add: unat_word_ariths)

text \<open>The first half of the insertion makes a block of \<open>bp\<close> and, where it is adjacent, the one behind it.\<close>

lemma join_next_ok:
  assumes p: "hptr m p = hd (zs @ [base])" and ch: "zs \<noteq> [] \<Longrightarrow> chain m (hd zs) (tl zs) base" and b: "unat base < unat bp" "bend m bp \<le> 2 ^ 31"
    and hi: "blocks m (bend m bp) zs brk" and size: "0 < unat (hsize m bp)" and brk: "brk \<le> 2 ^ 31" and off_p: "low p" "off8 bp p"
  defines "m1 \<equiv> join_next m bp p"
  shows "\<exists>zs1. chain m1 bp zs1 base \<and> blocks m1 (unat bp) (bp # zs1) brk \<and> fbytes m1 (bp # zs1) = extent m bp \<union> fbytes m zs \<and>
    hsize m bp \<le> hsize m1 bp \<and> touches m bp m1"
proof -
  have lbp: "low bp" using b(2) size by (auto simp: low_def bend_def)
  have off: "low a \<and> off8 bp a" if "a \<in> set zs" for a
    using blocks_mem [OF hi that] brk size by (auto simp: low_def off8_def bend_def)
  have t: "touches m bp m1" unfolding m1_def join_next_def Let_def
    using touches_set [OF lbp] touches_trans [OF touches_set(2) [OF lbp] touches_set(1) [OF lbp]] by simp
  show ?thesis
  proof (cases "bp + 8 * hsize m bp = hptr m p")
    case True
    then have e: "bend m bp = unat (hd (zs @ [base]))" using bend_word [OF b(2)] p by simp
    then obtain z zs' where zs: "zs = z # zs'" using b(1) by (cases zs) (auto simp: bend_def)
    have z: "0 < unat (hsize m z)" "bend m z \<le> brk" "unat z = bend m bp" using blocks_mem [OF hi, of z] e zs by auto
    have m1: "hptr m1 bp = hptr m z" "hsize m1 bp = hsize m bp + hsize m z"
      using True p zs off [of z] lbp off_p by (simp_all add: m1_def join_next_def Let_def header_other)
    have sum: "unat (hsize m1 bp) = unat (hsize m bp) + unat (hsize m z)"
      using z b(2) brk hsize_add [of m bp z] m1 by (auto simp: bend_def)
    then have "bend m1 bp = bend m z" using z by (simp add: bend_def)
    moreover have "blocks m1 (bend m z) zs' brk" using hi zs blocks_cong [of zs' m1 m] touchesD(2) [OF t] off by auto
    moreover have "chain m1 bp zs' base"
      using ch zs by (intro chain_start [of m z zs' base m1 bp]) (auto simp: m1 off touchesD [OF t])
    moreover have "fbytes m1 zs' = fbytes m zs'" using fbytes_cong [of zs' m1 m] touchesD(2) [OF t] off zs by auto
    moreover have "extent m1 bp = extent m bp \<union> extent m z" using z \<open>bend m1 bp = bend m z\<close> by (auto simp: extent_def bend_def)
    ultimately show ?thesis using zs t sum size by (intro exI [of _ zs']) (auto simp: word_le_nat_alt)
  next
    case False
    have m1: "hptr m1 bp = hd (zs @ [base])" "hsize m1 bp = hsize m bp"
      using False p lbp by (simp_all add: m1_def join_next_def header_other)
    have "blocks m1 (unat bp) (bp # zs) brk" using hi size m1(2) blocks_cong [of zs m1 m] touchesD(2) [OF t] off by (auto simp: bend_def)
    moreover have "chain m1 bp zs base"
    proof (cases zs)
      case (Cons z zs')
      then have "chain m1 z zs' base" using ch chain_cong [of z zs' m1 m base] touchesD(1) [OF t] off by auto
      then show ?thesis using Cons m1 by simp
    qed (simp add: m1)
    moreover have "fbytes m1 zs = fbytes m zs" using fbytes_cong [of zs m1 m] touchesD(2) [OF t] off by auto
    ultimately show ?thesis using t m1 by (intro exI [of _ zs]) (auto simp: extent_cong [of m1 bp m])
  qed
qed

text \<open>The second half links it in behind \<open>p\<close>, or makes it part of \<open>p\<close>.\<close>

lemma join_prev_ok:
  assumes lo: "blocks m (unat base + 8) ys (unat bp)" and ch: "chain m base ys z" and base: "hsize m base = 0" and brk: "brk \<le> 2 ^ 31"
    and hi: "blocks m (unat bp) (bp # zs) brk" and chz: "chain m bp zs base"
  defines "p \<equiv> last (base # ys)" and "m2 \<equiv> join_prev m bp (last (base # ys))"
  shows "\<exists>xs. heap_list m2 base xs brk \<and> p \<in> set (base # xs) \<and> fbytes m2 xs = fbytes m (ys @ bp # zs) \<and>
    (\<exists>a \<in> set xs. hsize m bp \<le> hsize m2 a) \<and> touches m p m2"
proof -
  have le: "unat base + 8 \<le> unat bp" by (rule blocks_le [OF lo])
  have bp: "unat bp + 8 \<le> brk" "0 < unat (hsize m bp)" "bend m bp \<le> brk" "blocks m (bend m bp) zs brk"
    using blocks_mem [OF hi, of bp] hi by (auto dest: blocks_le)
  have ys: "unat a + 8 \<le> unat bp \<and> low a" if "a \<in> set (base # ys)" for a
    using that blocks_mem [OF lo, of a] le bp brk by (auto simp: low_def)
  then have lp: "low p" "unat p + 8 \<le> unat bp" by (auto simp: p_def)
  have zs: "low a \<and> off8 p a" if "a \<in> set (bp # zs)" for a
    using blocks_mem [OF hi that] lp brk by (auto simp: low_def off8_def)
  have m2p: "m2 = join_prev m bp p" by (simp add: m2_def p_def)
  have t: "touches m p m2" unfolding m2p join_prev_def Let_def
    using touches_set [OF lp(1)] touches_trans [OF touches_set(2) [OF lp(1)] touches_set(1) [OF lp(1)]] by simp
  note keep = touchesD(1) [OF t] touchesD(2) [OF t]
  have kz: "fbytes m2 zs = fbytes m zs" "blocks m2 l zs h = blocks m l zs h" for l h
    using fbytes_cong [of zs m2 m] blocks_cong [of zs m2 m] keep zs by auto
  show ?thesis
  proof (cases "p + 8 * hsize m p = bp")
    case True
    have "ys \<noteq> []" using True base le by (auto simp: p_def)
    then obtain ys' where ys': "ys = ys' @ [p]" by (auto simp: p_def intro: append_butlast_last_id [symmetric])
    have pb: "blocks m (unat base + 8) ys' (unat p)" "0 < unat (hsize m p)" "bend m p \<le> unat bp"
      using lo ys' by (auto simp: blocks_append dest: blocks_le)
    have off: "low a \<and> off8 p a" if "a \<in> set (base # ys')" for a
      using that blocks_mem [OF pb(1), of a] blocks_le [OF pb(1)] ys [of a] ys' by (auto simp: off8_def)
    have e: "bend m p = unat bp" using True bend_word [of m p] pb(3) bp brk by simp
    have m2: "hptr m2 p = hptr m bp" "hsize m2 p = hsize m p + hsize m bp"
      using True zs [of bp] lp by (simp_all add: m2p join_prev_def Let_def header_other)
    have sum: "unat (hsize m2 p) = unat (hsize m p) + unat (hsize m bp)"
      using e bp brk hsize_add [of m p bp] m2 by (auto simp: bend_def)
    then have be: "bend m2 p = bend m bp" using e by (simp add: bend_def)
    have "chain m2 base (ys' @ p # zs) base"
    proof -
      have "chain m2 base ys' p" using ch ys' off keep chain_cong [of base ys' m2 m p] by (auto simp: chain_append)
      moreover have "chain m2 p zs base" using zs keep m2 by (intro chain_start [OF chz]) auto
      ultimately show ?thesis by (simp add: chain_append)
    qed
    moreover have "blocks m2 (unat base + 8) (ys' @ p # zs) brk"
      using pb bp(4) kz(2) be sum blocks_cong [of ys' m2 m] off keep by (auto simp: blocks_append)
    moreover have "hsize m2 base = 0" using off [of base] keep base by auto
    moreover have "fbytes m2 ys' = fbytes m ys'" using fbytes_cong [of ys' m2 m] off keep by auto
    moreover have "extent m2 p = extent m p \<union> extent m bp" using be e bp(2) by (auto simp: extent_def bend_def)
    moreover have "hsize m bp \<le> hsize m2 p" using sum by (simp add: word_le_nat_alt)
    ultimately show ?thesis using t brk kz ys' by (intro exI [of _ "ys' @ p # zs"]) (auto simp: heap_list_def)
  next
    case False
    have m2: "hptr m2 p = bp" "hsize m2 p = hsize m p"
      using False lp by (simp_all add: m2p join_prev_def header_other)
    have sz: "hsize m2 a = hsize m a" if "a \<in> set (base # ys)" for a
    proof (cases "a = p")
      case False
      then have "off8 p a"
      proof (cases "ys = []")
        case False
        then obtain ys' where ys': "ys = ys' @ [p]" by (auto simp: p_def intro: append_butlast_last_id [symmetric])
        then have pb: "blocks m (unat base + 8) ys' (unat p)" using lo by (auto simp: blocks_append)
        show ?thesis using that \<open>a \<noteq> p\<close> ys' blocks_mem [OF pb, of a] blocks_le [OF pb] by (auto simp: off8_def)
      qed (use that False p_def in auto)
      then show ?thesis using keep ys [OF that] by auto
    qed (simp add: m2)
    have "chain m2 base ys bp"
    proof (cases "ys = []")
      case False
      then obtain ys' where ys': "ys = ys' @ [p]" by (auto simp: p_def intro: append_butlast_last_id [symmetric])
      then have pb: "blocks m (unat base + 8) ys' (unat p)" using lo by (auto simp: blocks_append)
      have "low a \<and> off8 p a" if "a \<in> set (base # ys')" for a
        using that blocks_mem [OF pb, of a] blocks_le [OF pb] ys [of a] ys' by (auto simp: off8_def)
      then have "chain m2 base ys' p" using ch ys' keep chain_cong [of base ys' m2 m p] by (auto simp: chain_append)
      then show ?thesis using ys' m2 by (simp add: chain_append)
    qed (use m2 p_def in simp)
    moreover have "chain m2 bp zs base" using chz zs keep chain_cong [of bp zs m2 m base] by auto
    moreover have "blocks m2 (unat base + 8) ys (unat bp)" using lo sz blocks_cong [of ys m2 m] by auto
    moreover have "hsize m2 bp = hsize m bp" using keep zs [of bp] by auto
    moreover have "fbytes m2 ys = fbytes m ys" using fbytes_cong [of ys m2 m] sz by auto
    ultimately show ?thesis using t brk kz sz [of base] base bp(2,4) zs
      by (intro exI [of _ "ys @ bp # zs"]) (auto simp: heap_list_def chain_append blocks_append bend_def p_def extent_cong [of m2 bp m])
  qed
qed

lemma link_ok:
  assumes h: "heap_list m base (ys @ zs) brk" and lo: "blocks m (unat base + 8) ys (unat bp)" and hi: "blocks m (bend m bp) zs brk"
    and size: "0 < unat (hsize m bp)"
  defines "p \<equiv> last (base # ys)"
  defines "m2 \<equiv> join_prev (join_next m bp p) bp p"
  shows "\<exists>xs. heap_list m2 base xs brk \<and> p \<in> set (base # xs) \<and> fbytes m2 xs = fbytes m (ys @ zs) \<union> extent m bp \<and>
    (\<exists>a \<in> set xs. hsize m bp \<le> hsize m2 a) \<and>
    (\<forall>x. unat x \<notin> fbytes m (ys @ zs) \<union> extent m bp \<union> {unat base..<unat base + 8} \<longrightarrow> m2 x = m x)"
proof -
  have hl: "chain m base (ys @ zs) base" "hsize m base = 0" "brk \<le> 2 ^ 31" using h by (auto simp: heap_list_def)
  have le: "unat base + 8 \<le> unat bp" "bend m bp \<le> brk" "unat bp + 8 \<le> bend m bp"
    using blocks_le [OF lo] blocks_le [OF hi] size by (auto simp: bend_def)
  have ys: "unat a + 8 \<le> unat bp \<and> low a \<and> off8 bp a" if "a \<in> set (base # ys)" for a
    using that blocks_mem [OF lo, of a] le hl(3) by (auto simp: low_def off8_def)
  then have lp: "low p" "off8 bp p" by (auto simp: p_def)
  have chz: "chain m (hd zs) (tl zs) base" if "zs \<noteq> []" using hl(1) chain_append [of m base ys "hd zs" "tl zs" base] that by simp
  define m1 where "m1 = join_next m bp p"
  obtain zs1 where z: "chain m1 bp zs1 base" "blocks m1 (unat bp) (bp # zs1) brk" "fbytes m1 (bp # zs1) = extent m bp \<union> fbytes m zs"
      "hsize m bp \<le> hsize m1 bp" and t: "touches m bp m1"
    using join_next_ok [OF chain_last [OF hl(1), folded p_def] chz _ _ hi size hl(3) lp] le hl(3) unfolding m1_def by auto
  note keep = touchesD(1) [OF t] touchesD(2) [OF t]
  have "blocks m1 (unat base + 8) ys (unat bp)" using lo blocks_cong [of ys m1 m] keep ys by auto
  moreover have "chain m1 base ys (hd (zs @ [base]))" using chain_take [OF hl(1)] chain_cong [of base ys m1 m] keep ys by auto
  moreover have "hsize m1 base = 0" using keep ys [of base] hl by auto
  ultimately obtain xs where x: "heap_list m2 base xs brk" "p \<in> set (base # xs)" "fbytes m2 xs = fbytes m1 (ys @ bp # zs1)"
      "\<exists>a \<in> set xs. hsize m1 bp \<le> hsize m2 a" and t2: "touches m1 p m2"
    using join_prev_ok [OF _ _ _ hl(3) z(2,1)] unfolding m2_def m1_def p_def by meson
  have "fbytes m1 ys = fbytes m ys" using fbytes_cong [of ys m1 m] keep ys by auto
  then have "fbytes m2 xs = fbytes m (ys @ zs) \<union> extent m bp" using x(3) z(3) by auto
  moreover have "m2 x = m x" if "unat x \<notin> fbytes m (ys @ zs) \<union> extent m bp \<union> {unat base..<unat base + 8}" for x
  proof -
    have "unat x < unat bp \<or> unat bp + 8 \<le> unat x" using that le by (auto simp: extent_def)
    moreover have "unat x < unat p \<or> unat p + 8 \<le> unat x"
    proof (cases "ys = []")
      case False
      then have "p \<in> set ys" by (simp add: p_def)
      then show ?thesis using that blocks_mem [OF lo, of p] by (auto simp: fbytes_def extent_def)
    qed (use that p_def in auto)
    ultimately show ?thesis using touchesD(3) [OF t] touchesD(3) [OF t2] by simp
  qed
  ultimately show ?thesis using x z(4) by (intro exI [of _ xs]) (auto dest: order_trans)
qed

text \<open>The allocator's invariant: it has not been used yet, or the free list is well formed and \<^verbatim>\<open>freep\<close> points into it.\<close>

definition heap_ok :: "uint \<Rightarrow> nat \<Rightarrow> 'w heap \<Rightarrow> uint list \<Rightarrow> bool" where
  "heap_ok base brk h xs \<longleftrightarrow> base \<noteq> 0 \<and> unat base + 8 \<le> brk \<and> brk \<le> 2 ^ 31 \<and>
     (h_freep h = 0 \<and> xs = [] \<or> heap_list (h_mem h) base xs brk \<and> h_freep h \<in> set (base # xs))"

lemma ufree_ok:
  fixes h :: "'w heap"
  defines "m \<equiv> h_mem h"
  assumes h: "heap_list m base xs brk" "h_freep h \<in> set (base # xs)"
    and b: "unat base + 8 \<le> unat bp" "0 < unat (hsize m bp)" "bend m bp \<le> brk" "extent m bp \<inter> fbytes m xs = {}"
  shows "\<exists>h' xs'. ufree (bp + 8) h = Some h' \<and> heap_list (h_mem h') base xs' brk \<and> h_freep h' \<in> set (base # xs') \<and>
     fbytes (h_mem h') xs' = fbytes m xs \<union> extent m bp \<and> (\<exists>a \<in> set xs'. hsize m bp \<le> hsize (h_mem h') a) \<and> h_world h' = h_world h \<and>
     (\<forall>x. unat x \<notin> fbytes m xs \<union> extent m bp \<union> {unat base..<unat base + 8} \<longrightarrow> h_mem h' x = m x)"
proof -
  have "blocks m (unat base + 8) xs brk" using h by (simp add: heap_list_def)
  then obtain ys zs where xs: "xs = ys @ zs" and lo: "blocks m (unat base + 8) ys (unat bp)" and hi: "blocks m (bend m bp) zs brk"
    using blocks_place [of m "unat base + 8" xs brk bp] b by auto
  let ?p = "last (base # ys)"
  have "free_find m bp (h_freep h) = Some ?p" using find_place [OF h(1) [unfolded xs] lo hi b(2)] h(2) xs by simp
  then have "ufree (bp + 8) h = Some (h\<lparr>h_mem := join_prev (join_next m bp ?p) bp ?p, h_freep := ?p\<rparr>)"
    by (simp add: ufree_def Let_def m_def)
  then show ?thesis using link_ok [OF h(1) [unfolded xs] lo hi b(2)] by (auto simp: xs)
qed

section \<open>malloc\<close>

text \<open>\<^verbatim>\<open>sbrk\<close> of a positive number fails without an effect or moves the end of the memory, \<open>brk\<close>, up by it and returns where it was.\<close>

definition break_law :: "(uint \<Rightarrow> 'w \<Rightarrow> uint \<times> 'w) \<Rightarrow> ('w \<Rightarrow> uint) \<Rightarrow> bool" where
  "break_law sbrk brk \<longleftrightarrow> (\<forall>n w. unat n < 2 ^ 31 \<longrightarrow>
     fst (sbrk n w) = - 1 \<and> brk (snd (sbrk n w)) = brk w \<or>
     fst (sbrk n w) = brk w \<and> unat (brk w) + unat n \<le> 2 ^ 31 \<and> unat (brk (snd (sbrk n w))) = unat (brk w) + unat n)"

lemma morecore_ok:
  fixes h :: "'w heap" and brk :: "'w \<Rightarrow> uint"
  assumes law: "break_law sbrk brk" and h: "heap_list (h_mem h) base xs (unat (brk (h_world h)))" "h_freep h \<in> set (base # xs)"
    and b: "unat base + 8 \<le> unat (brk (h_world h))" "base \<noteq> 0" and nu: "8 * unat nu < 2 ^ 31"
  shows "\<exists>h'. morecore sbrk nu h = Some (0, h') \<and> h_mem h' = h_mem h \<and> h_freep h' = h_freep h \<and> brk (h_world h') = brk (h_world h) \<or>
    (\<exists>xs'. morecore sbrk nu h = Some (h_freep h', h') \<and> heap_list (h_mem h') base xs' (unat (brk (h_world h'))) \<and> h_freep h' \<in> set (base # xs') \<and>
       fbytes (h_mem h') xs' = fbytes (h_mem h) xs \<union> {unat (brk (h_world h))..<unat (brk (h_world h'))} \<and> (\<exists>a \<in> set xs'. nu \<le> hsize (h_mem h') a) \<and>
       unat (brk (h_world h)) \<le> unat (brk (h_world h')) \<and>
       (\<forall>x. unat x \<notin> fbytes (h_mem h) xs \<union> {unat (brk (h_world h))..<unat (brk (h_world h'))} \<union> {unat base..<unat base + 8} \<longrightarrow> h_mem h' x = h_mem h x))"
proof -
  let ?m = "h_mem h" and ?w = "h_world h"
  define nu' where "nu' = (if nu < 4096 then 4096 else nu)"
  obtain a w where s: "sbrk (nu' * 8) ?w = (a, w)" by fastforce
  have n: "8 * unat nu' < 2 ^ 31" "nu \<le> nu'" "0 < unat nu'" using nu by (auto simp: nu'_def word_less_nat_alt word_le_nat_alt)
  then have n8: "unat (nu' * 8) = 8 * unat nu'" by (simp add: unat_word_ariths)
  consider "a = - 1" "brk w = brk ?w" | "a = brk ?w" "unat (brk ?w) + 8 * unat nu' \<le> 2 ^ 31" "unat (brk w) = unat (brk ?w) + 8 * unat nu'"
    using law [unfolded break_law_def, rule_format, of "nu' * 8" ?w] n n8 by (auto simp: s)
  then show ?thesis
  proof cases
    case 1
    then have "morecore sbrk nu h = Some (0, h\<lparr>h_world := w\<rparr>)" by (simp add: morecore_def Let_def nu'_def [symmetric] s)
    then show ?thesis using 1 by auto
  next
    case 2
    let ?m1 = "set_hsize ?m a nu'" and ?h1 = "h\<lparr>h_world := w, h_mem := set_hsize (h_mem h) a nu'\<rparr>"
    have la: "low a" using 2 n by (auto simp: low_def)
    have t: "touches ?m a ?m1" by (rule touches_set(2) [OF la])
    have bl: "blocks ?m (unat base + 8) xs (unat a)" using h 2 by (simp add: heap_list_def)
    have off: "low q \<and> off8 a q" if "q \<in> set (base # xs)" for q
      using that blocks_mem [OF bl, of q] b(1) la 2 by (auto simp: low_def off8_def)
    then have hs: "hsize ?m1 q = hsize ?m q" if "q \<in> set (base # xs)" for q using touchesD(2) [OF t] that by auto
    have be: "bend ?m1 a = unat (brk w)" using 2 by (simp add: bend_def)
    have "heap_list ?m1 base xs (unat (brk w))"
      using h(1) off touchesD [OF t] chain_cong [of base xs ?m1 ?m base] blocks_cong [of xs ?m1 ?m] 2 blocks_weaken [OF bl, of _ "unat (brk w)"]
      by (auto simp: heap_list_def)
    moreover have fb: "fbytes ?m1 xs = fbytes ?m xs" using fbytes_cong [of xs ?m1 ?m] hs by auto
    moreover have "extent ?m1 a \<inter> fbytes ?m xs = {}" using fbytes_blocks [OF bl] by (auto simp: extent_def)
    ultimately obtain h' xs' where h': "ufree (a + 8) ?h1 = Some h'" "heap_list (h_mem h') base xs' (unat (brk w))" "h_freep h' \<in> set (base # xs')"
      "fbytes (h_mem h') xs' = fbytes ?m xs \<union> extent ?m1 a" "\<exists>c \<in> set xs'. nu' \<le> hsize (h_mem h') c" "h_world h' = w"
      "\<And>x. unat x \<notin> fbytes ?m xs \<union> extent ?m1 a \<union> {unat base..<unat base + 8} \<Longrightarrow> h_mem h' x = ?m1 x"
      using ufree_ok [of ?h1 base xs "unat (brk w)" a] h(2) b 2 n be by auto
    have "a \<noteq> - 1" using la by (auto simp: low_def unat_minus_1_uint)
    then have "morecore sbrk nu h = Some (h_freep h', h')" using h'(1) by (simp add: morecore_def Let_def nu'_def [symmetric] s)
    moreover have ex: "extent ?m1 a = {unat (brk ?w)..<unat (brk (h_world h'))}" using be 2 h'(6) by (simp add: extent_def)
    moreover have "h_mem h' x = ?m x" if "unat x \<notin> fbytes ?m xs \<union> extent ?m1 a \<union> {unat base..<unat base + 8}" for x
      using that h'(7) [of x] touchesD(3) [OF t, of x] 2 be n by (auto simp: extent_def)
    ultimately show ?thesis using h' n(2) 2 by (intro exI [of _ h'] disjI2 exI [of _ xs']) (auto dest: order_trans)
  qed
qed

lemma chain_relink:
  "chain m a ys z \<Longrightarrow> (\<And>c. c \<in> set (butlast (a # ys)) \<Longrightarrow> hptr m' c = hptr m c) \<Longrightarrow> hptr m' (last (a # ys)) = v \<Longrightarrow> chain m' a ys v"
  by (induction ys arbitrary: a) auto

lemma blocks_distinct: "blocks m lo xs hi \<Longrightarrow> distinct xs"
proof (induction xs arbitrary: lo)
  case (Cons a xs)
  then have "a \<notin> set xs" using blocks_mem [of m "bend m a" xs hi a] by (auto simp: bend_def)
  then show ?case using Cons by auto
qed simp

lemma in_butlast: "a \<in> set (b # ys) \<Longrightarrow> a \<noteq> last (b # ys) \<Longrightarrow> a \<in> set (butlast (b # ys))"
  by (induction ys arbitrary: b) auto

text \<open>A block that is large enough and its predecessor.\<close>

lemma take_exact:
  assumes h: "heap_list m base (ys @ p # zs) brk"
  defines "q \<equiv> last (base # ys)"
  defines "m' \<equiv> set_hptr m q (hptr m p)"
  shows "heap_list m' base (ys @ zs) brk \<and> fbytes m' (ys @ zs) = fbytes m (ys @ zs) \<and> hsize m' p = hsize m p \<and>
    extent m p \<inter> fbytes m (ys @ zs) = {} \<and> touches m q m'"
proof -
  have hl: "chain m base ys p" "chain m p zs base" "blocks m (unat base + 8) ys (unat p)" "blocks m (unat p) (p # zs) brk" "hsize m base = 0" "brk \<le> 2 ^ 31"
    using h by (auto simp: heap_list_def chain_append blocks_append)
  have p: "unat base + 8 \<le> unat p" "unat p + 8 \<le> bend m p" "bend m p \<le> brk" "0 < unat (hsize m p)"
    using blocks_le [OF hl(3)] blocks_mem [OF hl(4), of p] by auto
  have ys: "unat a + 8 \<le> unat p \<and> low a" if "a \<in> set (base # ys)" for a using that blocks_mem [OF hl(3), of a] p hl(6) by (auto simp: low_def)
  have q: "q \<in> set (base # ys)" "low q" using ys by (auto simp: q_def)
  have t: "touches m q m'" unfolding m'_def by (rule touches_set(1) [OF q(2)])
  have zs: "low a \<and> off8 q a" if "a \<in> set (p # zs)" for a
    using blocks_mem [OF hl(4) that] ys [OF q(1)] hl(6) by (auto simp: low_def off8_def)
  have apart: "off8 q a" if "a \<in> set (butlast (base # ys))" for a
  proof -
    have ne: "ys \<noteq> []" using that by auto
    then obtain ys' where ys': "ys = ys' @ [q]" by (auto simp: q_def intro: append_butlast_last_id [symmetric])
    then have "blocks m (unat base + 8) ys' (unat q)" using hl(3) by (auto simp: blocks_append)
    then show ?thesis using that ys' blocks_mem [of m "unat base + 8" ys' "unat q" a] blocks_le [of m "unat base + 8" ys' "unat q"]
      by (auto simp: off8_def butlast_append)
  qed
  have sz: "hsize m' a = hsize m a" if "a \<in> set (base # ys @ p # zs)" for a
  proof (cases "a = q")
    case True
    then show ?thesis by (simp add: m'_def header_other [OF q(2) q(2)])
  next
    case False
    then have "low a \<and> off8 q a" using that apart [OF in_butlast] zs ys by (cases "a \<in> set (p # zs)") (auto simp: q_def)
    then show ?thesis using touchesD(2) [OF t] by auto
  qed
  have "chain m' base ys (hptr m p)"
  proof (rule chain_relink [OF hl(1)])
    fix c assume c: "c \<in> set (butlast (base # ys))"
    then have "c \<in> set (base # ys)" by (rule in_set_butlastD)
    then show "hptr m' c = hptr m c" using touchesD(1) [OF t] apart [OF c] ys [of c] by auto
  qed (simp only: q_def [symmetric] m'_def header_simps)
  moreover have "chain m' p zs base" using hl(2) chain_cong [of p zs m' m base] touchesD(1) [OF t] zs by auto
  ultimately have "chain m' base (ys @ zs) base"
    using hl(2) touchesD(1) [OF t] zs by (cases zs) (auto simp: chain_append)
  moreover have "blocks m (unat base + 8) (ys @ zs) brk"
    using hl(3,4) p blocks_weaken [of m "unat base + 8" ys "unat p" _ brk] blocks_weaken [of m "unat base + 8" ys "unat p" _ "unat (hd zs)"]
    by (cases zs) (auto simp: blocks_append)
  moreover have "extent m p \<inter> fbytes m (ys @ zs) = {}"
    using fbytes_blocks [OF hl(3)] fbytes_blocks [of m "bend m p" zs brk] hl(4) by (fastforce simp: extent_def)
  ultimately show ?thesis
    using t sz hl(5,6) blocks_cong [of "ys @ zs" m' m] fbytes_cong [of "ys @ zs" m' m] by (auto simp: heap_list_def)
qed

lemma take_split:
  assumes h: "heap_list m base (ys @ p # zs) brk" and n: "0 < unat n" "n < hsize m p"
  defines "m1 \<equiv> set_hsize m p (hsize m p - n)"
  defines "r \<equiv> p + 8 * hsize m1 p"
  defines "m' \<equiv> set_hsize m1 r n"
  shows "heap_list m' base (ys @ p # zs) brk \<and> fbytes m' (ys @ p # zs) \<union> extent m' r = fbytes m (ys @ p # zs) \<and>
    extent m' r \<inter> fbytes m' (ys @ p # zs) = {} \<and> hsize m' r = n \<and> bend m' r = bend m p \<and> unat p \<le> unat r \<and>
    (\<forall>x. unat x \<notin> extent m p \<longrightarrow> m' x = m x)"
proof -
  have hl: "chain m base (ys @ p # zs) base" "blocks m (unat base + 8) ys (unat p)" "blocks m (unat p) (p # zs) brk" "blocks m (bend m p) zs brk"
    "hsize m base = 0" "brk \<le> 2 ^ 31"
    using h by (auto simp: heap_list_def blocks_append)
  have p: "unat base + 8 \<le> unat p" "unat p + 8 \<le> bend m p" "bend m p \<le> brk"
    using blocks_le [OF hl(2)] blocks_mem [OF hl(3), of p] by auto
  have nn: "unat n < unat (hsize m p)" using n(2) by (simp add: word_less_nat_alt)
  then have d: "unat (hsize m p - n) = unat (hsize m p) - unat n" by (simp add: unat_sub_if')
  have m1: "hsize m1 p = hsize m p - n" by (simp add: m1_def)
  have r: "unat r = bend m1 p" unfolding r_def using d m1 p hl(6) nn by (intro bend_word) (auto simp: bend_def)
  then have ur: "unat r = unat p + 8 * (unat (hsize m p) - unat n)" using d m1 by (simp add: bend_def)
  have bm: "bend m p = unat p + 8 * unat (hsize m p)" by (simp add: bend_def)
  have rr: "unat p + 8 \<le> unat r" "unat r + 8 * unat n = bend m p" using ur bm nn by auto
  have lows: "low p" "low r" using rr p hl(6) n(1) by (auto simp: low_def)
  have t: "touches m p m1" "touches m1 r m'" unfolding m1_def m'_def using lows by (auto intro: touches_set)
  have pr: "off8 r p" using rr by (simp add: off8_def)
  have hp: "hptr m' p = hptr m p" "hsize m' p = hsize m p - n"
    using touchesD(1,2) [OF t(2) lows(1) pr] m1 header_other(2) [OF lows(1) lows(1), of m] by (simp_all add: m1_def)
  have off: "low a \<and> off8 p a \<and> off8 r a" if "a \<in> set (base # ys) \<or> a \<in> set zs" for a
    using that blocks_mem [OF hl(2), of a] blocks_mem [OF hl(4), of a] p rr lows hl(6) n(1) by (auto simp: low_def off8_def)
  then have keep: "hptr m' a = hptr m a \<and> hsize m' a = hsize m a" if "a \<in> set (base # ys) \<or> a \<in> set zs" for a
    using touchesD(1,2) [OF t(1)] touchesD(1,2) [OF t(2)] that by auto
  have be: "bend m' p = unat r" "bend m' r = bend m p" using hp ur d rr by (simp_all add: bend_def m'_def)
  have fb: "fbytes m' ys = fbytes m ys" "fbytes m' zs = fbytes m zs" using fbytes_cong [of ys m' m] fbytes_cong [of zs m' m] keep by auto
  have "chain m' base (ys @ p # zs) base" using hl(1) chain_cong [of base "ys @ p # zs" m' m base] keep hp by auto
  moreover have "blocks m' (unat base + 8) (ys @ p # zs) brk"
    using hl(2,4) keep blocks_cong [of ys m' m] blocks_cong [of zs m' m] be hp d nn blocks_weaken [of m "bend m p" zs brk "unat r"] rr
    by (auto simp: blocks_append)
  moreover have "extent m' r \<inter> fbytes m' (ys @ p # zs) = {}"
    using be fb fbytes_blocks [OF hl(2)] fbytes_blocks [OF hl(4)] rr by (fastforce simp: extent_def)
  moreover have "extent m p = extent m' p \<union> extent m' r" using be rr by (auto simp: extent_def)
  moreover have "m' x = m x" if "unat x \<notin> extent m p" for x
    using that touchesD(3) [OF t(1), of x] touchesD(3) [OF t(2), of x] rr n(1) p by (auto simp: extent_def)
  ultimately show ?thesis using keep [of base] hl(5,6) fb be rr by (auto simp: heap_list_def m'_def)
qed

text \<open>\<open>got\<close>: what an allocation of \<open>n\<close> units does to the heap, \<open>new\<close> being the memory the kernel has added.\<close>

definition got :: "uint \<Rightarrow> 'w heap \<Rightarrow> uint list \<Rightarrow> uint \<Rightarrow> nat set \<Rightarrow> uint \<Rightarrow> 'w heap \<Rightarrow> uint list \<Rightarrow> bool" where
  "got base h xs n new p h' xs' \<longleftrightarrow> (let m = h_mem h; m' = h_mem h' in
     p \<noteq> 0 \<and> hsize m' (p - 8) = n \<and> extent m' (p - 8) \<inter> fbytes m' xs' = {} \<and> fbytes m' xs' \<union> extent m' (p - 8) = fbytes m xs \<union> new \<and>
     (\<forall>x. unat x \<notin> fbytes m xs \<union> new \<union> {unat base..<unat base + 8} \<longrightarrow> m' x = m x))"

lemma take_ok:
  assumes h: "heap_list (h_mem h) base xs brk" and q: "q \<in> set (base # xs)" "hptr (h_mem h) q = p" and n: "0 < unat n" "n \<le> hsize (h_mem h) p"
  shows "\<exists>r h' xs'. take_block n q p h = (r, h') \<and> heap_list (h_mem h') base xs' brk \<and> h_freep h' \<in> set (base # xs') \<and> h_world h' = h_world h \<and>
    got base h xs n {} r h' xs'"
proof -
  let ?m = "h_mem h"
  obtain us vs where s: "base # xs = us @ q # vs" "p = hd (vs @ [base])"
    using chain_split [of ?m base xs base q] h q by (auto simp: heap_list_def)
  have "p \<noteq> base" using n h by (auto simp: heap_list_def word_le_nat_alt)
  then obtain zs where vs: "vs = p # zs" using s by (cases vs) auto
  define ys where "ys = tl (us @ [q])"
  have xs: "xs = ys @ p # zs" using s(1) vs by (cases us) (simp_all add: ys_def)
  have qy: "q = last (base # ys)" using s(1) vs by (cases us) (simp_all add: ys_def)
  have lo: "blocks ?m (unat base + 8) xs brk" "brk \<le> 2 ^ 31" using h by (auto simp: heap_list_def)
  have p: "unat base + 8 \<le> unat p" "unat p + 8 \<le> bend ?m p" "bend ?m p \<le> 2 ^ 31" "extent ?m p \<subseteq> fbytes ?m xs"
    using blocks_mem [OF lo(1), of p] lo(2) xs by auto
  show ?thesis
  proof (cases "hsize ?m p = n")
    case True
    have "unat (p + 8) = unat p + 8" using p by (simp add: unat_word_ariths)
    then have "p + 8 \<noteq> 0" by (metis add_is_0 unat_0 zero_neq_numeral)
    define m' where "m' = set_hptr ?m q (hptr ?m p)"
    have te: "heap_list m' base (ys @ zs) brk" "fbytes m' (ys @ zs) = fbytes ?m (ys @ zs)" "hsize m' p = hsize ?m p"
        "extent ?m p \<inter> fbytes ?m (ys @ zs) = {}" "touches ?m q m'"
      using take_exact [OF h [unfolded xs], folded qy] by (simp_all only: m'_def)
    have out: "m' x = ?m x" if "unat x \<notin> fbytes ?m xs" "unat x \<notin> {unat base..<unat base + 8}" for x
    proof (rule touchesD(3) [OF te(5)], cases "q = base")
      case False
      then have "q \<in> set xs" using q by simp
      then show "unat x < unat q \<or> unat q + 8 \<le> unat x" using that blocks_mem [OF lo(1), of q] by (auto simp: fbytes_def extent_def)
    qed (use that in auto)
    have ex: "extent m' p = extent ?m p" by (rule extent_cong [OF te(3)])
    have "take_block n q p h = (p + 8, h\<lparr>h_mem := m', h_freep := q\<rparr>)" using True by (simp add: take_block_def Let_def m'_def)
    moreover have "q \<in> set (base # ys @ zs)" unfolding qy by (cases "ys = []") auto
    moreover have "got base h xs n {} (p + 8) (h\<lparr>h_mem := m', h_freep := q\<rparr>) (ys @ zs)"
      using \<open>p + 8 \<noteq> 0\<close> te(2-4) ex out True unfolding got_def Let_def by (auto simp: xs)
    ultimately show ?thesis using te(1) by (intro exI [of _ "p + 8"] exI [of _ "h\<lparr>h_mem := m', h_freep := q\<rparr>"] exI [of _ "ys @ zs"]) simp
  next
    case False
    then have lt: "n < hsize ?m p" using n by simp
    let ?m1 = "set_hsize ?m p (hsize ?m p - n)"
    let ?r = "p + 8 * hsize ?m1 p"
    note ts = take_split [OF h [unfolded xs] n(1) lt]
    then have "unat ?r + 8 \<le> 2 ^ 31" using p n(1) by (auto simp: bend_def)
    then have "unat (?r + 8) = unat ?r + 8" by (simp only: unat_word_ariths) simp
    then have "?r + 8 \<noteq> 0" by (metis add_is_0 unat_0 zero_neq_numeral)
    then show ?thesis using False ts q p(4)
      by (intro exI [of _ "?r + 8"] exI [of _ "h\<lparr>h_mem := set_hsize ?m1 ?r n, h_freep := q\<rparr>"] exI [of _ xs])
        (auto simp: take_block_def got_def Let_def xs)
  qed
qed

text \<open>One walk around the list takes a block or ends at \<^verbatim>\<open>freep\<close>.\<close>

lemma malloc_walk:
  assumes "chain (h_mem h) q us (h_freep h)" "h_freep h \<notin> set us"
  shows "(\<exists>q' p'. q' \<in> set (q # us) \<and> hptr (h_mem h) q' = p' \<and> n \<le> hsize (h_mem h) p' \<and>
      malloc_loop sbrk n q (hptr (h_mem h) q) h = Some (take_block n q' p' h)) \<or>
    (\<forall>a \<in> set (us @ [h_freep h]). hsize (h_mem h) a < n) \<and>
      malloc_loop sbrk n q (hptr (h_mem h) q) h = Option.bind (morecore sbrk n h) (\<lambda>r.
        if fst r = 0 then Some (0, snd r) else malloc_loop sbrk n (fst r) (hptr (h_mem (snd r)) (fst r)) (snd r))"
  using assms
proof (induction us arbitrary: q)
  case Nil
  then show ?case using malloc_loop.simps [of sbrk n q "hptr (h_mem h) q" h] by (auto simp: not_le)
next
  case (Cons b us)
  have b: "hptr (h_mem h) q = b" "chain (h_mem h) b us (h_freep h)" "h_freep h \<notin> set us" "b \<noteq> h_freep h" using Cons.prems by auto
  show ?case
  proof (cases "n \<le> hsize (h_mem h) b")
    case True
    then show ?thesis using b malloc_loop.simps [of sbrk n q "hptr (h_mem h) q" h] by (intro disjI1 exI [of _ q] exI [of _ b]) auto
  next
    case False
    then have e: "malloc_loop sbrk n q (hptr (h_mem h) q) h = malloc_loop sbrk n b (hptr (h_mem h) b) h"
      using b malloc_loop.simps [of sbrk n q "hptr (h_mem h) q" h] by simp
    show ?thesis unfolding e using Cons.IH [OF b(2,3)] False by auto
  qed
qed

lemma rotate_list:
  assumes "heap_list m base xs brk" "f \<in> set (base # xs)"
  shows "\<exists>us. chain m f us f \<and> f \<notin> set us \<and> set (us @ [f]) = set (base # xs)"
proof -
  have c: "chain m base xs base" and bl: "blocks m (unat base + 8) xs brk" using assms by (auto simp: heap_list_def)
  have d: "distinct (base # xs)" using blocks_distinct [OF bl] blocks_mem [OF bl, of base] by auto
  show ?thesis
  proof (cases "f = base")
    case True
    then show ?thesis using c d by (intro exI [of _ xs]) auto
  next
    case False
    then obtain ys zs where xs: "xs = ys @ f # zs" using assms(2) split_list [of f xs] by auto
    then have "chain m f (zs @ base # ys) f" using c by (auto simp: chain_append)
    then show ?thesis using d xs by (intro exI [of _ "zs @ base # ys"]) auto
  qed
qed

lemma malloc_loop_ok:
  fixes h :: "'w heap" and brk :: "'w \<Rightarrow> uint"
  assumes law: "break_law sbrk brk" and h: "heap_list (h_mem h) base xs (unat (brk (h_world h)))" "h_freep h \<in> set (base # xs)"
    and b: "unat base + 8 \<le> unat (brk (h_world h))" "base \<noteq> 0" and n: "0 < unat n" "8 * unat n < 2 ^ 31"
  shows "\<exists>p h' xs'. malloc_loop sbrk n (h_freep h) (hptr (h_mem h) (h_freep h)) h = Some (p, h') \<and> heap_list (h_mem h') base xs' (unat (brk (h_world h'))) \<and>
    h_freep h' \<in> set (base # xs') \<and> unat (brk (h_world h)) \<le> unat (brk (h_world h')) \<and>
    (p = 0 \<and> xs' = xs \<and> h_mem h' = h_mem h \<and> brk (h_world h') = brk (h_world h) \<or>
     got base h xs n {unat (brk (h_world h))..<unat (brk (h_world h'))} p h' xs')"
proof -
  obtain us where us: "chain (h_mem h) (h_freep h) us (h_freep h)" "h_freep h \<notin> set us" "set (us @ [h_freep h]) = set (base # xs)"
    using rotate_list [OF h] by blast
  consider (found) q p where "q \<in> set (h_freep h # us)" "hptr (h_mem h) q = p" "n \<le> hsize (h_mem h) p"
      "malloc_loop sbrk n (h_freep h) (hptr (h_mem h) (h_freep h)) h = Some (take_block n q p h)"
    | (more) "malloc_loop sbrk n (h_freep h) (hptr (h_mem h) (h_freep h)) h = Option.bind (morecore sbrk n h) (\<lambda>r.
        if fst r = 0 then Some (0, snd r) else malloc_loop sbrk n (fst r) (hptr (h_mem (snd r)) (fst r)) (snd r))"
    using malloc_walk [OF us(1,2), of n sbrk] by blast
  then show ?thesis
  proof cases
    case found
    then have "q \<in> set (base # xs)" using us(3) by auto
    from take_ok [OF h(1) this found(2) n(1) found(3)] obtain r h' xs' where "take_block n q p h = (r, h')" "heap_list (h_mem h') base xs' (unat (brk (h_world h)))"
      "h_freep h' \<in> set (base # xs')" "h_world h' = h_world h" "got base h xs n {} r h' xs'" by blast
    then show ?thesis using found(4) by (intro exI [of _ r] exI [of _ h'] exI [of _ xs']) simp
  next
    case more
    consider (none) h' where "morecore sbrk n h = Some (0, h')" "h_mem h' = h_mem h" "h_freep h' = h_freep h" "brk (h_world h') = brk (h_world h)"
      | (grown) h' xs' where "morecore sbrk n h = Some (h_freep h', h')" "heap_list (h_mem h') base xs' (unat (brk (h_world h')))" "h_freep h' \<in> set (base # xs')"
       "fbytes (h_mem h') xs' = fbytes (h_mem h) xs \<union> {unat (brk (h_world h))..<unat (brk (h_world h'))}" "\<exists>a \<in> set xs'. n \<le> hsize (h_mem h') a"
       "unat (brk (h_world h)) \<le> unat (brk (h_world h'))"
       "\<forall>x. unat x \<notin> fbytes (h_mem h) xs \<union> {unat (brk (h_world h))..<unat (brk (h_world h'))} \<union> {unat base..<unat base + 8} \<longrightarrow> h_mem h' x = h_mem h x"
      using morecore_ok [OF law h b n(2)] by blast
    then show ?thesis
    proof cases
      case none
      then show ?thesis using more h by (intro exI [of _ 0] exI [of _ h'] exI [of _ xs]) auto
    next
      case grown
      obtain vs where vs: "chain (h_mem h') (h_freep h') vs (h_freep h')" "h_freep h' \<notin> set vs" "set (vs @ [h_freep h']) = set (base # xs')"
        using rotate_list [OF grown(2,3)] by blast
      have "\<not> (\<forall>a \<in> set (vs @ [h_freep h']). hsize (h_mem h') a < n)" using grown(5) vs(3) by (auto simp: not_less)
      then obtain q p where q: "q \<in> set (h_freep h' # vs)" "hptr (h_mem h') q = p" "n \<le> hsize (h_mem h') p"
        "malloc_loop sbrk n (h_freep h') (hptr (h_mem h') (h_freep h')) h' = Some (take_block n q p h')"
        using malloc_walk [OF vs(1,2), of n sbrk] by blast
      then have "q \<in> set (base # xs')" using vs(3) by auto
      from take_ok [OF grown(2) this q(2) n(1) q(3)] obtain r h2 xs2 where t: "take_block n q p h' = (r, h2)"
        "heap_list (h_mem h2) base xs2 (unat (brk (h_world h')))" "h_freep h2 \<in> set (base # xs2)" "h_world h2 = h_world h'" "got base h' xs' n {} r h2 xs2" by blast
      have "h_freep h' \<noteq> 0" using grown(3) b(2) blocks_mem [of "h_mem h'" "unat base + 8" xs' "unat (brk (h_world h'))" 0] grown(2)
        by (auto simp: heap_list_def)
      then have "malloc_loop sbrk n (h_freep h) (hptr (h_mem h) (h_freep h)) h = Some (r, h2)" using more grown(1) q(4) t(1) by simp
      moreover have "got base h xs n {unat (brk (h_world h))..<unat (brk (h_world h2))} r h2 xs2"
        using t(4,5) grown(4,7) by (auto simp: got_def Let_def)
      ultimately show ?thesis using t(2-4) grown(6) by (intro exI [of _ r] exI [of _ h2] exI [of _ xs2]) simp
    qed
  qed
qed

lemma heap_list_fbytes: "heap_list m base xs brk \<Longrightarrow> fbytes m xs \<subseteq> {unat base + 8..<brk}"
  by (auto simp: heap_list_def dest: fbytes_blocks)

lemma malloc_units:
  assumes "unat nbytes + 16 \<le> 2 ^ 31"
  shows "unat nbytes + 8 \<le> 8 * unat (malloc_units nbytes)" "8 * unat (malloc_units nbytes) < 2 ^ 31"
proof -
  have "unat (nbytes + 8 - 1) = unat nbytes + 7" using assms by (simp add: unat_word_ariths)
  then have "unat ((nbytes + 8 - 1) div 8) = (unat nbytes + 7) div 8" by (simp add: unat_div)
  then have "unat (malloc_units nbytes) = (unat nbytes + 7) div 8 + 1" using assms by (simp add: malloc_units_def unat_word_ariths)
  then show "unat nbytes + 8 \<le> 8 * unat (malloc_units nbytes)" "8 * unat (malloc_units nbytes) < 2 ^ 31" using assms by linarith+
qed

lemma malloc_init_ok:
  assumes "heap_ok base brk h xs"
  defines "h1 \<equiv> malloc_init base h"
  shows "heap_list (h_mem h1) base xs brk" "h_freep h1 \<in> set (base # xs)" "h_world h1 = h_world h" "fbytes (h_mem h1) xs = fbytes (h_mem h) xs"
    "unat x \<notin> {unat base..<unat base + 8} \<Longrightarrow> h_mem h1 x = h_mem h x"
proof -
  have b: "low base" "base \<noteq> 0" "unat base + 8 \<le> brk" "brk \<le> 2 ^ 31" using assms(1) by (auto simp: heap_ok_def low_def)
  have "heap_list (h_mem h1) base xs brk \<and> h_freep h1 \<in> set (base # xs) \<and> h_world h1 = h_world h \<and> fbytes (h_mem h1) xs = fbytes (h_mem h) xs \<and>
    (unat x \<notin> {unat base..<unat base + 8} \<longrightarrow> h_mem h1 x = h_mem h x)"
  proof (cases "h_freep h = 0")
    case True
    have "0 \<notin> set (base # xs)" if "heap_list (h_mem h) base xs brk"
      using that b(2) blocks_mem [of "h_mem h" "unat base + 8" xs brk 0] by (auto simp: heap_list_def)
    then have "xs = []" using True assms(1) by (auto simp: heap_ok_def)
    then show ?thesis using True b by (auto simp: h1_def malloc_init_def heap_list_def header_other header_byte)
  next
    case False
    then show ?thesis using assms(1) by (auto simp: h1_def malloc_init_def heap_ok_def)
  qed
  then show "heap_list (h_mem h1) base xs brk" "h_freep h1 \<in> set (base # xs)" "h_world h1 = h_world h" "fbytes (h_mem h1) xs = fbytes (h_mem h) xs"
    "unat x \<notin> {unat base..<unat base + 8} \<Longrightarrow> h_mem h1 x = h_mem h x" by blast+
qed

section \<open>Properties\<close>

text \<open>
  C37: \<^verbatim>\<open>malloc\<close> returns, for requests below two gigabytes and whatever the kernel answers to \<^verbatim>\<open>sbrk\<close>: a null pointer when the kernel has no
  memory, with the free memory as it was, or a block of at least the requested size that was free or is new, that overlaps no block that is still free, and
  together with those makes up the free and the new memory. No byte outside the free and the new memory and the header \<^verbatim>\<open>base\<close> changes.
\<close>

theorem malloc_allocates:
  fixes h :: "'w heap" and brk :: "'w \<Rightarrow> uint"
  assumes "heap_ok base (unat (brk (h_world h))) h xs" and "break_law sbrk brk" and "unat nbytes + 16 \<le> 2 ^ 31"
  shows "\<exists>p h' xs'. malloc base sbrk nbytes h = Some (p, h') \<and> heap_ok base (unat (brk (h_world h'))) h' xs' \<and>
    (let free = fbytes (h_mem h) xs; free' = fbytes (h_mem h') xs'; new = {unat (brk (h_world h))..<unat (brk (h_world h'))}; block = extent (h_mem h') (p - 8) in
     (p = 0 \<and> free' = free \<and> new = {} \<or>
      p \<noteq> 0 \<and> {unat p..<unat p + unat nbytes} \<subseteq> block \<and> block \<inter> free' = {} \<and> free' \<union> block = free \<union> new) \<and>
     (\<forall>x. unat x \<notin> free \<union> new \<union> {unat base..<unat base + 8} \<longrightarrow> h_mem h' x = h_mem h x))"
proof -
  define h1 where "h1 = malloc_init base h"
  note i = malloc_init_ok [OF assms(1), folded h1_def] and n = malloc_units [OF assms(3)]
  have b: "unat base + 8 \<le> unat (brk (h_world h1))" "base \<noteq> 0" using assms(1) i(3) by (auto simp: heap_ok_def)
  have "0 < unat (malloc_units nbytes)" using n by linarith
  from malloc_loop_ok [OF assms(2) i(1) [folded i(3)] i(2) b this n(2)] obtain p h' xs'
    where m: "malloc base sbrk nbytes h = Some (p, h')" and h': "heap_list (h_mem h') base xs' (unat (brk (h_world h')))" "h_freep h' \<in> set (base # xs')"
      "unat (brk (h_world h)) \<le> unat (brk (h_world h'))"
    and r: "p = 0 \<and> xs' = xs \<and> h_mem h' = h_mem h1 \<and> brk (h_world h') = brk (h_world h) \<or>
      got base h1 xs (malloc_units nbytes) {unat (brk (h_world h))..<unat (brk (h_world h'))} p h' xs'"
    unfolding malloc_def Let_def h1_def [symmetric] i(3) by metis
  have ok: "heap_ok base (unat (brk (h_world h'))) h' xs'" using h' b i(3) by (auto simp: heap_ok_def heap_list_def)
  show ?thesis
  proof (cases "p = 0")
    case True
    then have "xs' = xs" "h_mem h' = h_mem h1" "brk (h_world h') = brk (h_world h)" using r by (auto simp: got_def Let_def)
    then show ?thesis using m ok True i(4,5) by (intro exI [of _ p] exI [of _ h'] exI [of _ xs']) (auto simp: Let_def)
  next
    case False
    then have g: "got base h1 xs (malloc_units nbytes) {unat (brk (h_world h))..<unat (brk (h_world h'))} p h' xs'" using r by auto
    let ?m = "h_mem h'" and ?B = "extent (h_mem h') (p - 8)"
    have s: "hsize ?m (p - 8) = malloc_units nbytes" using g by (simp add: got_def Let_def)
    have "unat (p - 8) \<in> ?B" using s n by (auto simp: extent_def bend_def)
    then have "unat (p - 8) \<in> fbytes (h_mem h1) xs \<union> {unat (brk (h_world h))..<unat (brk (h_world h'))}" using g by (auto simp: got_def Let_def)
    then have "unat (p - 8) < 2 ^ 31" using heap_list_fbytes [OF i(1)] ok assms(1) by (auto simp: heap_ok_def)
    then have "unat ((p - 8) + 8) = unat (p - 8) + 8" by (simp only: unat_word_ariths) simp
    then have "{unat p..<unat p + unat nbytes} \<subseteq> ?B" using s n(1) by (auto simp: extent_def bend_def)
    then show ?thesis using m ok False g i(4,5) by (intro exI [of _ p] exI [of _ h'] exI [of _ xs']) (auto simp: Let_def got_def)
  qed
qed

text \<open>A kernel that lets the memory grow to two gigabytes, and a heap not used yet.\<close>

definition demo_sbrk :: "uint \<Rightarrow> uint \<Rightarrow> uint \<times> uint" where
  "demo_sbrk n w = (if unat w + unat n \<le> 2 ^ 31 then (w, w + n) else (- 1, w))"

lemma demo_sbrk_law: "break_law demo_sbrk (\<lambda>w. w)"
  by (auto simp: break_law_def demo_sbrk_def unat_word_ariths)

definition demo_heap :: "uint heap" where
  "demo_heap = \<lparr>h_mem = (\<lambda>_. 0), h_freep = 0, h_world = 0x3000\<rparr>"

theorem malloc_allocates_witness:
  "\<exists>p h' xs'. malloc 0x2000 demo_sbrk 100 demo_heap = Some (p, h') \<and> heap_ok 0x2000 (unat (h_world h')) h' xs' \<and>
     (p = 0 \<or> {unat p..<unat p + 100} \<subseteq> extent (h_mem h') (p - 8) \<and> extent (h_mem h') (p - 8) \<inter> fbytes (h_mem h') xs' = {})"
proof -
  have "heap_ok 0x2000 (unat (h_world demo_heap)) demo_heap []" by (simp add: heap_ok_def demo_heap_def)
  from malloc_allocates [where brk = "\<lambda>w. w", OF this demo_sbrk_law, of 100] show ?thesis by (auto simp: Let_def)
qed


definition demo_used :: "uint heap" where
  "demo_used = \<lparr>h_mem = set_hsize (set_hptr (\<lambda>_. 0) 0x2000 0x2000) 0x2ff0 2, h_freep = 0x2000, h_world = 0x3000\<rparr>"


end
