(* ===== verification/Spec2Isabelle.thy ===== *)
theory Spec2Isabelle
  imports Arg_Bounds Vm_Map Sched File_Props Fs_Write Asm User_Props Umalloc
begin

text \<open>
  This development verifies the kernel and the user programs of a version of the teaching operating system xv6 for the x86 that was extended with
  user-level signals. Names in verbatim are those of the sources under \<^verbatim>\<open>src/\<close>.

  \<^bold>\<open>The program.\<close> A small Unix-like kernel: a page allocator, page tables and processes with a round-robin scheduler; a file system in layers (disk driver,
  buffer cache, write-ahead log, block allocator, inodes, directories, path names); files and pipes; a console; system calls; traps. The extension is the
  system call \<^verbatim>\<open>signal\<close>, the delivery of a divide error to a user handler in \<^verbatim>\<open>trap\<close>, and the user routine \<^verbatim>\<open>restorer\<close>. Upper layers call lower
  ones directly; a process enters the kernel through a trap and leaves the processor through \<^verbatim>\<open>swtch\<close>. User programs see only the system calls.

  \<^bold>\<open>State and programs.\<close> The kernel's global variables are one extensible record, each component adding its fields: \<open>kmem_state\<close> (memory and free list,
  \<^verbatim>\<open>kalloc.c\<close>), \<open>ptable_state\<close> (\<^verbatim>\<open>proc.c\<close>), \<open>disk_state\<close> (\<^verbatim>\<open>memide.c\<close>), \<open>bcache_state\<close> (\<^verbatim>\<open>bio.c\<close>), \<open>log_state\<close> (\<^verbatim>\<open>log.c\<close>), \<open>fs_state\<close> (\<^verbatim>\<open>fs.c\<close>),
  \<open>pipe_state\<close> (\<^verbatim>\<open>pipe.c\<close>), \<open>file_state\<close> (\<^verbatim>\<open>file.c\<close>), \<open>vm_state\<close> (\<^verbatim>\<open>vm.c\<close>), \<open>proc_state\<close>, \<open>io_state\<close> (device registers), \<open>cons_state\<close> (\<^verbatim>\<open>console.c\<close>).
  A kernel function is a \<open>kprog\<close>, a function of the state whose outcome is a value with a new state, a panic, or a sleep on a channel with the state in which
  the processor was given up. \<open>wp\<close> is total correctness: it excludes panic and sleep. Integers are words of the width the code has. Memory is a function from
  32-bit addresses to bytes; page tables and the free list are kept in it, where the code keeps them. Structures the code only reaches through pointers
  into fixed arrays (buffers, inodes, files, processes) are arrays indexed by number.

  \<^bold>\<open>Theories.\<close>
  \<^item> \<open>Prelude\<close>: integer types, byte order, flag words, kernel programs and their calculus. \<open>CString\<close>: \<^verbatim>\<open>string.c\<close>, \<^verbatim>\<open>ulib.c\<close>; \<open>memmove\<close> is correct on
    overlap, \<open>memset\<close> on both of its paths. \<open>Layout\<close>: \<^verbatim>\<open>memlayout.h\<close> and the page arithmetic of \<^verbatim>\<open>mmu.h\<close>.
  \<^item> \<open>Kalloc\<close>: \<^verbatim>\<open>kalloc.c\<close>. The interface \<open>page_allocator\<close> is interpreted on it; pages handed out are distinct, a freed page comes back.
  \<^item> \<open>Proc_Base\<close>, \<open>Proc\<close>, \<open>Sched\<close>: \<^verbatim>\<open>proc.c\<close>. \<open>Sched\<close> shows that the scheduler is fair. \<open>Spinlock\<close>: \<^verbatim>\<open>spinlock.c\<close>; acquire and release are split into
    the atomic steps of several processors, \<open>lk_step\<close>, and at most one processor is in the critical section.
  \<^item> \<open>Disk\<close>: \<^verbatim>\<open>memide.c\<close> and the interface \<open>disk_driver\<close>. \<open>Bio\<close>, \<open>Bio_Own\<close>: \<^verbatim>\<open>bio.c\<close>; \<open>view\<close> is what a reader of a sector gets, and buffers have owners.
  \<^item> \<open>Log\<close>, \<open>Log_Commit\<close>, \<open>Log_Crash\<close>, \<open>Log_Ops\<close>: \<^verbatim>\<open>log.c\<close>. Every sector write appends to a history; a crash leaves a prefix of it. A commit is atomic under
    crashes and recovery may itself crash. \<open>Log_Ops\<close> treats the admission of concurrent operations, \<open>log_step\<close>, and its gap.
  \<^item> \<open>Fs_Layout\<close>, \<open>Fs_Alloc\<close>, \<open>Fs_Inode\<close>, \<open>Fs_Inode_Props\<close>, \<open>Fs_Dir\<close>: \<^verbatim>\<open>fs.h\<close> and \<^verbatim>\<open>fs.c\<close>. \<open>Fs_Content\<close> and \<open>Fs_Write\<close> say what a file contains and prove
    \<^verbatim>\<open>readi\<close> and \<^verbatim>\<open>writei\<close> against it, through \<^verbatim>\<open>bmap\<close>, \<^verbatim>\<open>balloc\<close>, the log and the cache; \<open>tx_step\<close> bounds what an operation adds to the log.
  \<^item> \<open>Ring\<close>, \<open>Pipe\<close>, \<open>File\<close>, \<open>File_Props\<close>: \<^verbatim>\<open>pipe.c\<close> and \<^verbatim>\<open>file.c\<close>. The interface \<open>fifo\<close> is interpreted on the pipe's ring with its wrapping counters.
  \<^item> \<open>Vm\<close>, \<open>Page_Table\<close>, \<open>Vm_Map\<close>: \<^verbatim>\<open>vm.c\<close>; what \<^verbatim>\<open>mappages\<close> and \<^verbatim>\<open>allocuvm\<close> do to the address mapping that the processor computes.
  \<^item> \<open>Hw\<close>, \<open>Console\<close>: interrupt controllers, timer, serial port, console and keyboard; the input buffer refines a line editor.
  \<^item> \<open>Syscall\<close>, \<open>User_Mem\<close>, \<open>Sysproc\<close>, \<open>Exec\<close>, \<open>Sysfile\<close>, \<open>Trap\<close>, \<open>Signal\<close>, \<open>Arg_Bounds\<close>: system calls and traps. User memory is reached through the current
    page table. A delivered signal, its handler and \<^verbatim>\<open>restorer\<close> bring the program back; the unchecked stores of delivery and registration are characterised.
  \<^item> \<open>Asm\<close>: \<^verbatim>\<open>swtch.S\<close> and \<^verbatim>\<open>trapasm.S\<close> as lists of instructions; they save and restore what they should, and the first switch to a new process
    arrives where \<^verbatim>\<open>allocproc\<close> meant it to.
  \<^item> \<open>Printf\<close>, \<open>Sh\<close>, \<open>Regex_Match\<close>, \<open>User\<close>, \<open>User_Props\<close>: the user programs. The shell parses what is printed back, the matcher of \<^verbatim>\<open>grep\<close> decides
    its patterns, \<^verbatim>\<open>wc\<close> counts. \<open>Umalloc\<close>: \<^verbatim>\<open>umalloc.c\<close>; the free blocks are a ring in memory, and allocated and free memory stay apart.

  \<^bold>\<open>Concurrency.\<close> Within a kernel function no other processor is modelled: the lock that the function holds excludes it. What happens while a process
  sleeps or another operation runs is in the step relations (\<open>lk_step\<close>, \<open>log_step\<close>, \<open>pipe_run\<close>) and in the scheduler's turns. Loops around \<^verbatim>\<open>sleep\<close> are
  modelled as one turn, which ends in the outcome that names the channel.

  \<^bold>\<open>Parameters.\<close> The answers of devices, the table \<^verbatim>\<open>devsw\<close> of device functions, the addresses the linker chooses and the contents of uninitialised locals are
  arguments. For user programs the kernel is an argument; what a theorem needs of it is a hypothesis that its witness discharges for a concrete kernel.

  \<^bold>\<open>Bounds and fuel.\<close> Functions over data end by structural recursion or a measure. The shell's parser has fuel: four units for each character of the
  line and four more are proved to be enough. The polling of devices and the reading of input characters in an interrupt are bounded by an argument, with a panic
  value \<open>spin\<close> that does not occur in the code when a device never stops. The loops of user programs may run forever and are partial functions, with \<open>None\<close> for a
  run that does not end; the theorems about them state that they return.

  \<^bold>\<open>Not modelled.\<close> Entry code, mode switches and the boot loader (\<^verbatim>\<open>entry.S\<close>, \<^verbatim>\<open>entryother.S\<close>, \<^verbatim>\<open>bootasm.S\<close>, \<^verbatim>\<open>bootmain.c\<close>, \<^verbatim>\<open>main.c\<close>) run before the modelled
  state exists. \<^verbatim>\<open>initcode.S\<close>, \<^verbatim>\<open>usys.S\<close>, \<^verbatim>\<open>vectors.pl\<close> and the linker script are not C and hold no state. \<^verbatim>\<open>mp.c\<close> reads tables of the
  BIOS. The test programs (\<^verbatim>\<open>usertests.c\<close>, \<^verbatim>\<open>forktest.c\<close>, \<^verbatim>\<open>stressfs.c\<close>, the stage tests) exercise the system calls and have no function of
  their own.
\<close>

end
